(* ===== verification/Prelude.thy ===== *)
theory Prelude
  imports Main "HOL-Library.Word"
begin

text \<open>
  The shared vocabulary of the development: machine types, the names of the kernel's locks
  and sleep channels, and the operation monad in which every kernel function is written.

  A kernel function is a HOL function from the kernel state to an \<open>outcome\<close>.  The second
  argument lists what the rest of the machine does each time the running thread gives up
  the CPU through \<open>swtch\<close> (kernel/swtch.S): one state transformer per context switch, used
  up from the left.  A thread that switches away when the list is empty stays off the CPU.
\<close>

section \<open>Machine types\<close>

type_synonym byte = "8 word"
type_synonym u16 = "16 word"
type_synonym u32 = "32 word"
type_synonym addr = "64 word"

section \<open>Names of locks and sleep channels\<close>

text \<open>
  The C code identifies a lock or a channel by the address of an object.  Distinct objects
  have distinct addresses, so the model names them by a constructor per object.
\<close>

datatype sleepid = SL_buf nat | SL_inode nat

datatype lockid =
    L_pid | L_wait | L_proc nat | L_kmem | L_pr | L_ticks | L_cons | L_tx | L_ftable
  | L_itable | L_bcache | L_log | L_vdisk | L_pipe addr | L_sleep sleepid

datatype chan =
    C_ticks | C_proc nat | C_sleep sleepid | C_log | C_pipe_nread addr | C_pipe_nwrite addr
  | C_cons | C_tx | C_disk_free | C_buf nat

section \<open>Outcomes of a kernel function\<close>

text \<open>
  \<open>Ret\<close>: the function returns a value, a state and the context switches left.
  \<open>Panic\<close>: \<open>panic()\<close> was called; the machine stops.
  \<open>Spin\<close>: the hart spins on a lock that another hart holds.
  \<open>Off\<close>: the thread has switched away and is not resumed.
  \<open>Hang\<close>: the hart loops forever without touching the state.
\<close>

datatype (dead 's, 'a) outcome =
    Ret 'a 's "('s \<Rightarrow> 's) list"
  | Panic string 's
  | Spin lockid 's
  | Off 's
  | Hang 's

type_synonym ('s, 'a) kop = "'s \<Rightarrow> ('s \<Rightarrow> 's) list \<Rightarrow> ('s, 'a) outcome"

named_theorems kop_simps \<open>evaluation of the operation monad\<close>
named_theorems frame_simps \<open>what an operation leaves alone\<close>

definition ret :: "'a \<Rightarrow> ('s, 'a) kop" where
  "ret x = (\<lambda>s e. Ret x s e)"

definition bnd :: "('s, 'a) kop \<Rightarrow> ('a \<Rightarrow> ('s, 'b) kop) \<Rightarrow> ('s, 'b) kop" where
  "bnd m f = (\<lambda>s e. case m s e of
       Ret x s' e' \<Rightarrow> f x s' e'
     | Panic msg s' \<Rightarrow> Panic msg s'
     | Spin l s' \<Rightarrow> Spin l s'
     | Off s' \<Rightarrow> Off s'
     | Hang s' \<Rightarrow> Hang s')"

definition thn :: "('s, 'a) kop \<Rightarrow> ('s, 'b) kop \<Rightarrow> ('s, 'b) kop" where
  "thn m k = bnd m (\<lambda>_. k)"

definition rd :: "('s \<Rightarrow> 'a) \<Rightarrow> ('s, 'a) kop" where
  "rd f = (\<lambda>s e. Ret (f s) s e)"

definition upd :: "('s \<Rightarrow> 's) \<Rightarrow> ('s, unit) kop" where
  "upd f = (\<lambda>s e. Ret () (f s) e)"

definition panic :: "string \<Rightarrow> ('s, 'a) kop" where
  "panic msg = (\<lambda>s e. Panic msg s)"

definition hang :: "('s, 'a) kop" where
  "hang = (\<lambda>s e. Hang s)"

text \<open>C code whose behaviour the language leaves undefined (an index out of range, say).\<close>

definition undefined_behaviour :: "('s, 'a) kop" where
  "undefined_behaviour = panic ''undefined behaviour''"

definition whenm :: "bool \<Rightarrow> ('s, unit) kop \<Rightarrow> ('s, unit) kop" where
  "whenm b m = (if b then m else ret ())"

text \<open>\<open>swtch\<close>: the other side runs, and this thread goes on in the state it leaves.\<close>

definition swtch :: "('s, unit) kop" where
  "swtch = (\<lambda>s e. case e of [] \<Rightarrow> Off s | f # fs \<Rightarrow> Ret () (f s) fs)"

lemma ret_app [kop_simps, simp]: "ret x s e = Ret x s e"
  by (simp add: ret_def)

lemma rd_app [kop_simps, simp]: "rd f s e = Ret (f s) s e"
  by (simp add: rd_def)

lemma upd_app [kop_simps, simp]: "upd f s e = Ret () (f s) e"
  by (simp add: upd_def)

lemma panic_app [kop_simps, simp]: "panic msg s e = Panic msg s"
  by (simp add: panic_def)

lemma hang_app [kop_simps, simp]: "hang s e = Hang s"
  by (simp add: hang_def)

lemma swtch_app [kop_simps, simp]:
  "swtch s [] = Off s" "swtch s (f # fs) = Ret () (f s) fs"
  by (simp_all add: swtch_def)

lemma bnd_Ret [kop_simps]: "m s e = Ret x s' e' \<Longrightarrow> bnd m f s e = f x s' e'"
  by (simp add: bnd_def)

lemma bnd_Panic [kop_simps]: "m s e = Panic msg s' \<Longrightarrow> bnd m f s e = Panic msg s'"
  by (simp add: bnd_def)

lemma bnd_Spin [kop_simps]: "m s e = Spin l s' \<Longrightarrow> bnd m f s e = Spin l s'"
  by (simp add: bnd_def)

lemma bnd_Off [kop_simps]: "m s e = Off s' \<Longrightarrow> bnd m f s e = Off s'"
  by (simp add: bnd_def)

lemma bnd_Hang [kop_simps]: "m s e = Hang s' \<Longrightarrow> bnd m f s e = Hang s'"
  by (simp add: bnd_def)

lemma thn_app [kop_simps]: "thn m k s e = bnd m (\<lambda>_. k) s e"
  by (simp add: thn_def)

lemma whenm_app [kop_simps, simp]: "whenm b m s e = (if b then m s e else Ret () s e)"
  by (simp add: whenm_def)

lemma if_app [kop_simps]: "(if b then m else n) s e = (if b then m s e else n s e)"
  by simp

lemma bnd_eq_Ret:
  "bnd m f s e = Ret y s'' e'' \<longleftrightarrow>
     (\<exists>x s' e'. m s e = Ret x s' e' \<and> f x s' e' = Ret y s'' e'')"
  by (cases "m s e") (auto simp: bnd_def)

lemma thn_eq_Ret:
  "thn m k s e = Ret y s'' e'' \<longleftrightarrow>
     (\<exists>x s' e'. m s e = Ret x s' e' \<and> k s' e' = Ret y s'' e'')"
  by (simp add: thn_def bnd_eq_Ret)

lemma bnd_assoc: "bnd (bnd m f) g = bnd m (\<lambda>x. bnd (f x) g)"
  by (intro ext) (simp add: bnd_def split: outcome.split)

lemma bnd_ret [simp]: "bnd m ret = m"
  by (intro ext) (simp add: bnd_def split: outcome.split)

section \<open>Loops\<close>

text \<open>
  \<open>foreach\<close> is a \<open>for\<close> loop over a fixed range; \<open>for_until\<close> one whose body may leave the
  loop early with a result (the C code returns, breaks or jumps out of it).
\<close>

fun foreach :: "'i list \<Rightarrow> ('i \<Rightarrow> ('s, unit) kop) \<Rightarrow> ('s, unit) kop" where
  "foreach [] body = ret ()"
| "foreach (i # is) body = thn (body i) (foreach is body)"

fun for_until :: "'i list \<Rightarrow> ('i \<Rightarrow> ('s, 'r option) kop) \<Rightarrow> ('s, 'r option) kop" where
  "for_until [] body = ret None"
| "for_until (i # is) body =
     bnd (body i) (\<lambda>r. case r of Some x \<Rightarrow> ret (Some x) | None \<Rightarrow> for_until is body)"

lemma foreach_Nil [simp, kop_simps]: "foreach [] body s e = Ret () s e"
  by simp

lemma foreach_Ret:
  assumes "body i s e = Ret () s' e'"
  shows "foreach (i # is) body s e = foreach is body s' e'"
  using assms by (simp add: thn_def bnd_def)

text \<open>
  A loop whose body is a pure update, in every state the loop goes through, is the fold of
  that update.
\<close>

lemma foreach_fold:
  assumes step: "\<And>i s. i \<in> set is \<Longrightarrow> I s \<Longrightarrow> body i s e = Ret () (g i s) e \<and> I (g i s)"
    and "I s"
  shows "foreach is body s e = Ret () (fold g is s) e \<and> I (fold g is s)"
  using assms
proof (induction "is" arbitrary: s)
  case Nil
  then show ?case by simp
next
  case (Cons i "is")
  have b: "body i s e = Ret () (g i s) e" "I (g i s)"
    using Cons.prems(1)[of i s] Cons.prems(2) by auto
  have "foreach is body (g i s) e = Ret () (fold g is (g i s)) e \<and> I (fold g is (g i s))"
    using Cons.prems(1) b(2) by (intro Cons.IH) auto
  then show ?case using b(1) by (simp add: thn_def bnd_def)
qed

text \<open>A search loop whose body keeps the state until it hits.\<close>

lemma for_until_skip:
  assumes "\<And>i s. i \<in> set is \<Longrightarrow> I s \<Longrightarrow> body i s e = Ret None (g i s) e \<and> I (g i s)"
    and "I s"
  shows "for_until (is @ js) body s e = for_until js body (fold g is s) e \<and> I (fold g is s)"
  using assms
proof (induction "is" arbitrary: s)
  case Nil
  then show ?case by simp
next
  case (Cons i "is")
  have b: "body i s e = Ret None (g i s) e" "I (g i s)"
    using Cons.prems(1)[of i s] Cons.prems(2) by auto
  have "for_until (is @ js) body (g i s) e = for_until js body (fold g is (g i s)) e
      \<and> I (fold g is (g i s))"
    using Cons.prems(1) b(2) by (intro Cons.IH) auto
  then show ?case using b(1) by (simp add: bnd_def)
qed

section \<open>Loops that may give up the CPU\<close>

text \<open>
  Every context switch uses up one entry of the environment, and no operation adds one:
  \<open>env_le\<close>.  An operation that always switches is \<open>env_less\<close>.
\<close>

definition env_le :: "('s, 'a) kop \<Rightarrow> bool" where
  "env_le m \<longleftrightarrow> (\<forall>s e x s' e'. m s e = Ret x s' e' \<longrightarrow> length e' \<le> length e)"

definition env_less :: "('s, 'a) kop \<Rightarrow> bool" where
  "env_less m \<longleftrightarrow> (\<forall>s e x s' e'. m s e = Ret x s' e' \<longrightarrow> length e' < length e)"

named_theorems env_intros \<open>which operations use up the environment\<close>

lemma env_leD: "env_le m \<Longrightarrow> m s e = Ret x s' e' \<Longrightarrow> length e' \<le> length e"
  unfolding env_le_def by blast

lemma env_lessD: "env_less m \<Longrightarrow> m s e = Ret x s' e' \<Longrightarrow> length e' < length e"
  unfolding env_less_def by blast

lemma env_less_le: "env_less m \<Longrightarrow> env_le m"
  unfolding env_less_def env_le_def by (blast intro: less_imp_le)

lemma env_le_basic [env_intros]:
  "env_le (ret x)" "env_le (rd f)" "env_le (upd g)" "env_le (panic msg)" "env_le hang"
  "env_le undefined_behaviour"
  by (simp_all add: env_le_def undefined_behaviour_def)

lemma env_le_swtch: "env_le swtch"
  by (auto simp: env_le_def swtch_def split: list.splits)

lemma env_less_swtch: "env_less swtch"
  by (auto simp: env_less_def swtch_def split: list.splits)

lemma env_le_bnd [env_intros]: "env_le m \<Longrightarrow> (\<And>x. env_le (f x)) \<Longrightarrow> env_le (bnd m f)"
  by (auto simp: env_le_def bnd_eq_Ret) (blast intro: le_trans)

lemma env_less_bnd1: "env_less m \<Longrightarrow> (\<And>x. env_le (f x)) \<Longrightarrow> env_less (bnd m f)"
  by (auto simp: env_le_def env_less_def bnd_eq_Ret) (blast intro: le_less_trans)

lemma env_less_bnd2: "env_le m \<Longrightarrow> (\<And>x. env_less (f x)) \<Longrightarrow> env_less (bnd m f)"
  by (auto simp: env_le_def env_less_def bnd_eq_Ret) (blast intro: less_le_trans)

lemma env_le_thn [env_intros]: "env_le m \<Longrightarrow> env_le k \<Longrightarrow> env_le (thn m k)"
  unfolding thn_def by (rule env_le_bnd)

lemma env_less_thn1: "env_less m \<Longrightarrow> env_le k \<Longrightarrow> env_less (thn m k)"
  unfolding thn_def by (rule env_less_bnd1)

lemma env_less_thn2: "env_le m \<Longrightarrow> env_less k \<Longrightarrow> env_less (thn m k)"
  unfolding thn_def by (rule env_less_bnd2)

lemma env_less_panic: "env_less (panic msg)" "env_less hang"
  by (simp_all add: env_less_def)

lemma env_le_if [env_intros]: "env_le m \<Longrightarrow> env_le n \<Longrightarrow> env_le (if b then m else n)"
  by simp

lemma env_less_if: "env_less m \<Longrightarrow> env_less n \<Longrightarrow> env_less (if b then m else n)"
  by simp

lemma env_le_whenm [env_intros]: "env_le m \<Longrightarrow> env_le (whenm b m)"
  by (simp add: whenm_def env_le_basic)

lemma env_le_option [env_intros]:
  "env_le m \<Longrightarrow> (\<And>x. env_le (f x)) \<Longrightarrow> env_le (case r of None \<Rightarrow> m | Some x \<Rightarrow> f x)"
  by (cases r) auto

lemma env_le_let [env_intros]: "(\<And>x. x = t \<Longrightarrow> env_le (f x)) \<Longrightarrow> env_le (let x = t in f x)"
  by simp

lemma env_le_foreach [env_intros]: "(\<And>i. env_le (body i)) \<Longrightarrow> env_le (foreach is body)"
  by (induction "is") (auto intro!: env_intros)

lemma env_le_for_until [env_intros]: "(\<And>i. env_le (body i)) \<Longrightarrow> env_le (for_until is body)"
  by (induction "is") (auto intro!: env_intros)

text \<open>
  \<open>loop m body x\<close>: iterate \<open>body\<close> from \<open>x\<close> until it answers \<open>Inr\<close>.  The number of iterations is
  bounded by the measure \<open>m\<close> plus the context switches left, and the bound is enough whenever
  each iteration decreases that sum: then the loop unfolds like the C loop it models.
\<close>

primrec loop_fuel :: "nat \<Rightarrow> ('a \<Rightarrow> ('s, 'a + 'b) kop) \<Rightarrow> 'a \<Rightarrow> ('s, 'b) kop" where
  "loop_fuel 0 body x = hang"
| "loop_fuel (Suc n) body x =
     bnd (body x) (\<lambda>r. case r of Inl y \<Rightarrow> loop_fuel n body y | Inr z \<Rightarrow> ret z)"

definition loop :: "('a \<Rightarrow> nat) \<Rightarrow> ('a \<Rightarrow> ('s, 'a + 'b) kop) \<Rightarrow> 'a \<Rightarrow> ('s, 'b) kop" where
  "loop m body x = (\<lambda>s e. loop_fuel (Suc (m x + length e)) body x s e)"

definition shrinks :: "('a \<Rightarrow> nat) \<Rightarrow> ('a \<Rightarrow> ('s, 'a + 'b) kop) \<Rightarrow> bool" where
  "shrinks m body \<longleftrightarrow>
     (\<forall>x s e y s' e'. body x s e = Ret (Inl y) s' e' \<longrightarrow> m y + length e' < m x + length e)"

lemma loop_fuel_enough:
  assumes "shrinks m body" "m x + length e < n"
  shows "loop_fuel n body x s e = loop m body x s e"
proof -
  have "loop_fuel n body x s e = loop_fuel k body x s e"
    if "m x + length e < n" "m x + length e < k" for n k
    using that
  proof (induction n arbitrary: k x s e)
    case 0
    then show ?case by simp
  next
    case (Suc n)
    then obtain j where k: "k = Suc j" by (cases k) auto
    show ?case
    proof (cases "body x s e")
      case (Ret r s' e')
      show ?thesis
      proof (cases r)
        case (Inl y)
        then have "m y + length e' < m x + length e"
          using assms(1) Ret by (auto simp: shrinks_def)
        then have "loop_fuel n body y s' e' = loop_fuel j body y s' e'"
          using Suc.prems unfolding k by (intro Suc.IH) linarith+
        then show ?thesis using Ret Inl by (simp add: k bnd_def)
      qed (simp add: k bnd_def Ret)
    qed (simp_all add: k bnd_def)
  qed
  from this[OF assms(2), of "Suc (m x + length e)"] show ?thesis by (simp only: loop_def lessI)
qed

lemma loop_unfold:
  assumes "shrinks m body"
  shows "loop m body x s e =
    bnd (body x) (\<lambda>r. case r of Inl y \<Rightarrow> loop m body y | Inr z \<Rightarrow> ret z) s e"
proof -
  have "loop m body x s e =
    bnd (body x) (\<lambda>r. case r of Inl y \<Rightarrow> loop_fuel (m x + length e) body y | Inr z \<Rightarrow> ret z) s e"
    by (simp add: loop_def)
  also have "\<dots> = bnd (body x) (\<lambda>r. case r of Inl y \<Rightarrow> loop m body y | Inr z \<Rightarrow> ret z) s e"
  proof (cases "body x s e")
    case (Ret r s' e')
    show ?thesis
    proof (cases r)
      case (Inl y)
      then have "m y + length e' < m x + length e"
        using assms Ret by (auto simp: shrinks_def)
      then show ?thesis using Ret Inl loop_fuel_enough[OF assms, of y e'] by (simp add: bnd_def)
    qed (simp add: bnd_def Ret)
  qed (simp_all add: bnd_def)
  finally show ?thesis .
qed

text \<open>A loop that ends, or stops, in its first round needs no measure.\<close>

lemma loop_first:
  "body x s e = Ret (Inr z) s' e' \<Longrightarrow> loop m body x s e = Ret z s' e'"
  "body x s e = Off s' \<Longrightarrow> loop m body x s e = Off s'"
  "body x s e = Panic msg s' \<Longrightarrow> loop m body x s e = Panic msg s'"
  "body x s e = Spin l s' \<Longrightarrow> loop m body x s e = Spin l s'"
  by (simp_all add: loop_def bnd_def)

lemma env_le_loop_fuel: "(\<And>x. env_le (body x)) \<Longrightarrow> env_le (loop_fuel n body x)"
proof (induction n arbitrary: x)
  case 0
  show ?case by (simp add: env_le_def)
next
  case (Suc n)
  then show ?case
    by (auto intro!: env_le_bnd env_le_basic split: sum.split)
qed

lemma env_le_loop [env_intros]:
  assumes "\<And>x. env_le (body x)"
  shows "env_le (loop m body x)"
  using env_leD[OF env_le_loop_fuel[of body, OF assms]] unfolding env_le_def loop_def by blast

text \<open>A \<open>while\<close> loop whose body gives up the CPU.\<close>

definition while_off :: "('s \<Rightarrow> bool) \<Rightarrow> ('s, unit) kop \<Rightarrow> ('s, unit) kop" where
  "while_off c b =
     loop (\<lambda>_. 0) (\<lambda>_. bnd (rd c) (\<lambda>go. if go then thn b (ret (Inl ())) else ret (Inr ()))) ()"

lemma while_off_unfold:
  assumes "env_less b"
  shows "while_off c b s e = (if c s then thn b (while_off c b) s e else Ret () s e)"
proof -
  let ?body = "\<lambda>_::unit. bnd (rd c) (\<lambda>go. if go then thn b (ret (Inl ())) else ret (Inr ()))"
  have "shrinks (\<lambda>_. 0) ?body"
    using assms by (auto simp: shrinks_def bnd_eq_Ret thn_eq_Ret env_less_def)
  then show ?thesis
    unfolding while_off_def by (subst loop_unfold) (simp_all add: bnd_def thn_def split: outcome.split)
qed

lemma env_le_while_off [env_intros]: "env_le b \<Longrightarrow> env_le (while_off c b)"
  unfolding while_off_def by (auto intro!: env_intros)

section \<open>Weakest preconditions\<close>

text \<open>
  \<open>wpc m Q R s e\<close>: from state \<open>s\<close> and environment \<open>e\<close> the operation \<open>m\<close> either returns with \<open>Q\<close>, or
  has switched away and stays off the CPU in a state with \<open>R\<close>; it does not panic, spin or hang.
  As the environment may end at any switch, \<open>R\<close> is also what holds when the machine stops there.
  \<open>wp\<close> is total correctness: the operation returns.  The rules follow the code.
\<close>

definition wpc :: "('s, 'a) kop \<Rightarrow> ('a \<Rightarrow> 's \<Rightarrow> ('s \<Rightarrow> 's) list \<Rightarrow> bool) \<Rightarrow> ('s \<Rightarrow> bool) \<Rightarrow>
    's \<Rightarrow> ('s \<Rightarrow> 's) list \<Rightarrow> bool" where
  "wpc m Q R s e = (case m s e of Ret x s' e' \<Rightarrow> Q x s' e' | Off s' \<Rightarrow> R s' | _ \<Rightarrow> False)"

abbreviation wp :: "('s, 'a) kop \<Rightarrow> ('a \<Rightarrow> 's \<Rightarrow> ('s \<Rightarrow> 's) list \<Rightarrow> bool) \<Rightarrow> 's \<Rightarrow> ('s \<Rightarrow> 's) list \<Rightarrow> bool" where
  "wp m Q \<equiv> wpc m Q (\<lambda>_. False)"

named_theorems wp_simps \<open>weakest preconditions of the monad's operations\<close>

lemma wp_iff: "wp m Q s e \<longleftrightarrow> (\<exists>x s' e'. m s e = Ret x s' e' \<and> Q x s' e')"
  by (cases "m s e") (auto simp: wpc_def)

lemma wpE:
  assumes "wp m Q s e"
  obtains x s' e' where "m s e = Ret x s' e'" "Q x s' e'"
  using assms unfolding wp_iff by blast

lemma wp_Ret: "m s e = Ret x s' e' \<Longrightarrow> wpc m Q R s e = Q x s' e'"
  by (simp add: wpc_def)

lemma wp_Off: "m s e = Off s' \<Longrightarrow> wpc m Q R s e = R s'"
  by (simp add: wpc_def)

lemma wp_ret [wp_simps]: "wpc (ret x) Q R s e = Q x s e" "wpc (Ret x) Q R s e = Q x s e"
  by (simp_all add: wpc_def)

lemma wp_rd [wp_simps]: "wpc (rd f) Q R s e = Q (f s) s e" "wpc (\<lambda>s. Ret (f s) s) Q R s e = Q (f s) s e"
  by (simp_all add: wpc_def)

lemma wp_upd [wp_simps]: "wpc (upd g) Q R s e = Q () (g s) e" "wpc (\<lambda>s. Ret () (g s)) Q R s e = Q () (g s) e"
  by (simp_all add: wpc_def)

lemma wp_bnd [wp_simps]: "wpc (bnd m f) Q R s e = wpc m (\<lambda>x. wpc (f x) Q R) R s e"
  by (cases "m s e") (simp_all add: wpc_def bnd_def)

lemma wp_thn [wp_simps]: "wpc (thn m k) Q R s e = wpc m (\<lambda>_. wpc k Q R) R s e"
  by (simp add: thn_def wp_bnd)

lemma wp_if [wp_simps]: "wpc (if b then m else n) Q R s e = (if b then wpc m Q R s e else wpc n Q R s e)"
  by simp

lemma wp_mono:
  assumes "wpc m P R s e" and "\<And>x s' e'. m s e = Ret x s' e' \<Longrightarrow> P x s' e' \<Longrightarrow> Q x s' e'"
  shows "wpc m Q R s e"
  using assms unfolding wpc_def by (cases "m s e") auto

lemma wpc_mono:
  assumes "wpc m P R s e" and "\<And>x s' e'. m s e = Ret x s' e' \<Longrightarrow> P x s' e' \<Longrightarrow> Q x s' e'"
    and "\<And>s'. R s' \<Longrightarrow> R' s'"
  shows "wpc m Q R' s e"
  using assms unfolding wpc_def by (cases "m s e") auto

text \<open>A loop returns when an invariant holds on entry and each round decreases a measure.\<close>

lemma wp_loop_fuel:
  fixes meas :: "'a \<Rightarrow> 's \<Rightarrow> ('s \<Rightarrow> 's) list \<Rightarrow> nat"
  assumes step: "\<And>x s e. I x s e \<Longrightarrow> wpc (body x) (\<lambda>r s' e'. case r of
      Inl y \<Rightarrow> I y s' e' \<and> meas y s' e' < meas x s e | Inr z \<Rightarrow> Q z s' e') R s e"
    and "I x s e" "meas x s e < n"
  shows "wpc (loop_fuel n body x) Q R s e"
  using assms(2,3)
proof (induction n arbitrary: x s e)
  case 0
  then show ?case by simp
next
  case (Suc n)
  show ?case unfolding loop_fuel.simps wp_bnd
  proof (rule wp_mono[OF step[OF Suc.prems(1)]])
    fix r s' e'
    assume r: "case r of Inl y \<Rightarrow> I y s' e' \<and> meas y s' e' < meas x s e | Inr z \<Rightarrow> Q z s' e'"
    show "wpc (case r of Inl y \<Rightarrow> loop_fuel n body y | Inr z \<Rightarrow> ret z) Q R s' e'"
    proof (cases r)
      case (Inl y)
      then have "I y s' e'" "meas y s' e' < n" using r Suc.prems(2) by simp_all
      from Suc.IH[OF this] show ?thesis using Inl by simp
    next
      case (Inr z)
      then show ?thesis using r by (simp add: wp_ret)
    qed
  qed
qed

lemma wp_loop:
  assumes "\<And>x s e. I x s e \<Longrightarrow> wpc (body x) (\<lambda>r s' e'. case r of
      Inl y \<Rightarrow> I y s' e' \<and> m y + length e' < m x + length e | Inr z \<Rightarrow> Q z s' e') R s e"
    and "I x s e"
  shows "wpc (loop m body x) Q R s e"
  using wp_loop_fuel[of I body "\<lambda>x s e. m x + length e" Q R x s e "Suc (m x + length e)"] assms
  by (simp add: wpc_def loop_def)

lemma wp_foreach:
  assumes step: "\<And>k s e. k < length is \<Longrightarrow> I k s e \<Longrightarrow> wpc (body (is ! k)) (\<lambda>_ s' e'. I (Suc k) s' e') R s e"
    and "I 0 s e"
  shows "wpc (foreach is body) (\<lambda>_ s' e'. I (length is) s' e') R s e"
  using assms
proof (induction "is" arbitrary: I s e)
  case Nil
  then show ?case by (simp add: wp_simps)
next
  case (Cons i "is")
  have "wpc (body i) (\<lambda>_ s' e'. I (Suc 0) s' e') R s e" using Cons.prems(1)[of 0] Cons.prems(2) by simp
  then show ?case
  proof (simp only: foreach.simps wp_thn, elim wp_mono)
    fix x s' e'
    assume "I (Suc 0) s' e'"
    then show "wpc (foreach is body) (\<lambda>_ s' e'. I (length (i # is)) s' e') R s' e'"
      using Cons.IH[of "\<lambda>k. I (Suc k)" s' e'] Cons.prems(1)[of "Suc _"] by simp
  qed
qed

section \<open>Least index below a bound\<close>

fun find_index :: "(nat \<Rightarrow> bool) \<Rightarrow> nat list \<Rightarrow> nat option" where
  "find_index P [] = None"
| "find_index P (i # is) = (if P i then Some i else find_index P is)"

lemma find_index_None: "find_index P is = None \<longleftrightarrow> (\<forall>i \<in> set is. \<not> P i)"
  by (induction "is") auto

lemma find_index_upt_from:
  "find_index P [a..<n] = Some i \<longleftrightarrow> a \<le> i \<and> i < n \<and> P i \<and> (\<forall>j. a \<le> j \<and> j < i \<longrightarrow> \<not> P j)"
proof (induction "n - a" arbitrary: a)
  case 0
  then show ?case by auto
next
  case (Suc d)
  then have l: "[a..<n] = a # [Suc a..<n]" by (simp add: upt_conv_Cons)
  have IH: "find_index P [Suc a..<n] = Some i \<longleftrightarrow>
      Suc a \<le> i \<and> i < n \<and> P i \<and> (\<forall>j. Suc a \<le> j \<and> j < i \<longrightarrow> \<not> P j)"
    using Suc by (intro Suc.hyps(1)) simp
  show ?case
  proof (cases "P a")
    case True
    then show ?thesis using Suc.hyps(2) by (auto simp: l)
  next
    case False
    then show ?thesis unfolding l by (auto simp: IH) (metis le_antisym not_less_eq_eq)+
  qed
qed

lemma find_index_upt:
  "find_index P [0..<n] = Some i \<longleftrightarrow> i < n \<and> P i \<and> (\<forall>j < i. \<not> P j)"
  by (simp add: find_index_upt_from)

lemma upt_split_at: "i < n \<Longrightarrow> [0..<n] = [0..<i] @ i # [Suc i..<n]"
  by (metis le0 less_imp_le upt_add_eq_append upt_conv_Cons le_add_diff_inverse)

end
