(* ===== verification/Riscv.thy ===== *)
theory Riscv
  imports Prelude
begin

unbundle bit_operations_syntax

text \<open>
  kernel/riscv.h and kernel/memlayout.h: page arithmetic, page-table entries, the kernel's
  address-space layout, and the supervisor registers of each hart with the three functions
  that switch its interrupts.
\<close>

section \<open>Pages and page-table entries (riscv.h)\<close>

definition PGSIZE :: addr where "PGSIZE = 4096"
definition PGSHIFT :: nat where "PGSHIFT = 12"

definition PGROUNDUP :: "addr \<Rightarrow> addr" where
  "PGROUNDUP sz = (sz + PGSIZE - 1) AND NOT (PGSIZE - 1)"

definition PGROUNDDOWN :: "addr \<Rightarrow> addr" where
  "PGROUNDDOWN a = a AND NOT (PGSIZE - 1)"

definition PTE_V :: addr where "PTE_V = push_bit 0 1"
definition PTE_R :: addr where "PTE_R = push_bit 1 1"
definition PTE_W :: addr where "PTE_W = push_bit 2 1"
definition PTE_X :: addr where "PTE_X = push_bit 3 1"
definition PTE_U :: addr where "PTE_U = push_bit 4 1"

definition PA2PTE :: "addr \<Rightarrow> addr" where "PA2PTE pa = push_bit 10 (drop_bit 12 pa)"
definition PTE2PA :: "addr \<Rightarrow> addr" where "PTE2PA pte = push_bit 12 (drop_bit 10 pte)"
definition PTE_FLAGS :: "addr \<Rightarrow> addr" where "PTE_FLAGS pte = pte AND 0x3FF"

definition PXMASK :: addr where "PXMASK = 0x1FF"
definition PXSHIFT :: "nat \<Rightarrow> nat" where "PXSHIFT level = PGSHIFT + 9 * level"
definition PX :: "nat \<Rightarrow> addr \<Rightarrow> addr" where
  "PX level va = drop_bit (PXSHIFT level) va AND PXMASK"

definition MAXVA :: addr where "MAXVA = push_bit (9 + 9 + 9 + 12 - 1) 1"

definition SATP_SV39 :: addr where "SATP_SV39 = push_bit 60 8"
definition MAKE_SATP :: "addr \<Rightarrow> addr" where
  "MAKE_SATP pagetable = SATP_SV39 OR drop_bit 12 pagetable"

section \<open>Address-space layout (memlayout.h, param.h)\<close>

definition UART0_IRQ :: int where "UART0_IRQ = 10"
definition VIRTIO0_IRQ :: int where "VIRTIO0_IRQ = 1"

definition KERNBASE :: addr where "KERNBASE = 0x80000000"
definition PHYSTOP :: addr where "PHYSTOP = KERNBASE + 128 * 1024 * 1024"
definition TRAMPOLINE :: addr where "TRAMPOLINE = MAXVA - PGSIZE"
definition TRAPFRAME :: addr where "TRAPFRAME = TRAMPOLINE - PGSIZE"
definition KSTACK :: "nat \<Rightarrow> addr" where
  "KSTACK p = TRAMPOLINE - of_nat (p + 1) * 2 * PGSIZE"

abbreviation NPROC :: nat where "NPROC \<equiv> 64"
abbreviation NCPU :: nat where "NCPU \<equiv> 8"
abbreviation NOFILE :: nat where "NOFILE \<equiv> 16"
abbreviation NFILE :: nat where "NFILE \<equiv> 100"
abbreviation NINODE :: nat where "NINODE \<equiv> 50"
abbreviation NDEV :: nat where "NDEV \<equiv> 10"
abbreviation ROOTDEV :: u32 where "ROOTDEV \<equiv> 1"
abbreviation MAXARG :: nat where "MAXARG \<equiv> 32"
abbreviation MAXOPBLOCKS :: nat where "MAXOPBLOCKS \<equiv> 10"
abbreviation LOGBLOCKS :: nat where "LOGBLOCKS \<equiv> 30"
abbreviation NBUF :: nat where "NBUF \<equiv> 30"
abbreviation MAXPATH :: nat where "MAXPATH \<equiv> 128"

section \<open>Supervisor registers of a hart\<close>

text \<open>
  \<open>hart\<close> is the core that runs, the number start.c puts into its \<open>tp\<close> register; \<open>csr\<close> holds
  the control registers of every core.
\<close>

record csrs =
  sstatus :: addr
  sepc :: addr
  stvec :: addr
  satp :: addr
  scause :: addr
  stval :: addr
  stimecmp :: addr
  mtime :: addr

record hw =
  hart :: nat
  csr :: "nat \<Rightarrow> csrs"

definition SSTATUS_SPP :: addr where "SSTATUS_SPP = push_bit 8 1"
definition SSTATUS_SPIE :: addr where "SSTATUS_SPIE = push_bit 5 1"
definition SSTATUS_SIE :: addr where "SSTATUS_SIE = push_bit 1 1"

definition r_tp :: "'z hw_scheme \<Rightarrow> nat" where "r_tp s = hart s"
definition r_sstatus :: "'z hw_scheme \<Rightarrow> addr" where "r_sstatus s = sstatus (csr s (hart s))"
definition r_sepc :: "'z hw_scheme \<Rightarrow> addr" where "r_sepc s = sepc (csr s (hart s))"
definition r_satp :: "'z hw_scheme \<Rightarrow> addr" where "r_satp s = satp (csr s (hart s))"
definition r_scause :: "'z hw_scheme \<Rightarrow> addr" where "r_scause s = scause (csr s (hart s))"
definition r_stval :: "'z hw_scheme \<Rightarrow> addr" where "r_stval s = stval (csr s (hart s))"
definition r_time :: "'z hw_scheme \<Rightarrow> addr" where "r_time s = mtime (csr s (hart s))"
definition r_stvec :: "'z hw_scheme \<Rightarrow> addr" where "r_stvec s = stvec (csr s (hart s))"
definition r_stimecmp :: "'z hw_scheme \<Rightarrow> addr" where "r_stimecmp s = stimecmp (csr s (hart s))"

definition w_sstatus :: "addr \<Rightarrow> 'z hw_scheme \<Rightarrow> 'z hw_scheme" where
  "w_sstatus x s = s\<lparr>csr := (csr s)(hart s := (csr s (hart s))\<lparr>sstatus := x\<rparr>)\<rparr>"
definition w_sepc :: "addr \<Rightarrow> 'z hw_scheme \<Rightarrow> 'z hw_scheme" where
  "w_sepc x s = s\<lparr>csr := (csr s)(hart s := (csr s (hart s))\<lparr>sepc := x\<rparr>)\<rparr>"
definition w_stvec :: "addr \<Rightarrow> 'z hw_scheme \<Rightarrow> 'z hw_scheme" where
  "w_stvec x s = s\<lparr>csr := (csr s)(hart s := (csr s (hart s))\<lparr>stvec := x\<rparr>)\<rparr>"
definition w_stimecmp :: "addr \<Rightarrow> 'z hw_scheme \<Rightarrow> 'z hw_scheme" where
  "w_stimecmp x s = s\<lparr>csr := (csr s)(hart s := (csr s (hart s))\<lparr>stimecmp := x\<rparr>)\<rparr>"

definition intr_on :: "'z hw_scheme \<Rightarrow> 'z hw_scheme" where
  "intr_on s = w_sstatus (r_sstatus s OR SSTATUS_SIE) s"
definition intr_off :: "'z hw_scheme \<Rightarrow> 'z hw_scheme" where
  "intr_off s = w_sstatus (r_sstatus s AND NOT SSTATUS_SIE) s"
definition intr_get :: "'z hw_scheme \<Rightarrow> bool" where
  "intr_get s = ((r_sstatus s AND SSTATUS_SIE) \<noteq> 0)"

lemma SIE_bit: "SSTATUS_SIE = 2"
  by (simp add: SSTATUS_SIE_def)

lemma bit_SIE: "bit SSTATUS_SIE n \<longleftrightarrow> n = 1"
  unfolding SSTATUS_SIE_def push_bit_of_1 bit_exp_iff by auto

lemma and_SIE_iff: "(x AND SSTATUS_SIE) \<noteq> 0 \<longleftrightarrow> bit x 1" for x :: addr
proof
  assume "(x AND SSTATUS_SIE) \<noteq> 0"
  then obtain n where "bit (x AND SSTATUS_SIE) n" by (auto simp: bit_eq_iff)
  then show "bit x 1" by (auto simp: bit_and_iff bit_SIE)
next
  assume "bit x 1"
  then have "bit (x AND SSTATUS_SIE) 1" by (simp add: bit_and_iff bit_SIE)
  then show "(x AND SSTATUS_SIE) \<noteq> 0" by (metis bit_0_eq bot_apply bot_bool_def)
qed

lemma intr_get_iff: "intr_get s \<longleftrightarrow> bit (r_sstatus s) 1"
  by (simp add: intr_get_def and_SIE_iff)

lemma hart_simps [simp, frame_simps]:
  "hart (intr_on s) = hart s" "hart (intr_off s) = hart s"
  "hart (w_sstatus x s) = hart s" "hart (w_sepc x s) = hart s"
  "hart (w_stvec x s) = hart s" "hart (w_stimecmp x s) = hart s"
  by (simp_all add: intr_on_def intr_off_def w_sstatus_def w_sepc_def w_stvec_def w_stimecmp_def)

lemma r_sstatus_w_sstatus [simp]: "r_sstatus (w_sstatus x s) = x"
  by (simp add: r_sstatus_def w_sstatus_def)

lemma w_sstatus_twice [simp]: "w_sstatus x (w_sstatus y s) = w_sstatus x s"
  by (simp add: w_sstatus_def)

lemma w_sstatus_same [simp]: "w_sstatus (r_sstatus s) s = s"
  by (simp add: w_sstatus_def r_sstatus_def)

lemma intr_get_off [simp]: "\<not> intr_get (intr_off s)"
  by (simp add: intr_get_iff intr_off_def bit_simps bit_SIE)

lemma intr_get_on [simp]: "intr_get (intr_on s)"
  by (simp add: intr_get_iff intr_on_def bit_simps bit_SIE)

lemma intr_off_when_off [simp]: "\<not> intr_get s \<Longrightarrow> intr_off s = s"
proof -
  assume "\<not> intr_get s"
  then have "r_sstatus s AND NOT SSTATUS_SIE = r_sstatus s"
    by (intro bit_eqI) (auto simp: intr_get_iff bit_simps bit_SIE)
  then show ?thesis by (simp add: intr_off_def)
qed

lemma intr_on_off [simp]: "intr_get s \<Longrightarrow> intr_on (intr_off s) = s"
proof -
  assume "intr_get s"
  then have "(r_sstatus s AND NOT SSTATUS_SIE) OR SSTATUS_SIE = r_sstatus s"
    by (intro bit_eqI) (auto simp: intr_get_iff bit_simps bit_SIE)
  then show ?thesis by (simp add: intr_on_def intr_off_def)
qed

section \<open>Page arithmetic\<close>

lemma unat_lt64: "unat (a :: addr) < 2 ^ 64"
  using unsigned_less[of a, where ?'a = nat] by simp

lemma page_mask: "(PGSIZE - 1 :: addr) = mask 12"
  by (simp add: PGSIZE_def mask_eq_exp_minus_1)

lemma unat_and_not_mask: "unat (a AND NOT (mask n)) = unat a div 2 ^ n * 2 ^ n" for a :: addr
proof -
  have "a AND NOT (mask n) = push_bit n (drop_bit n a)"
    by (intro bit_eqI) (auto simp: bit_simps)
  then have "unat (a AND NOT (mask n)) = take_bit 64 (push_bit n (unat (drop_bit n a)))"
    by (simp add: unsigned_push_bit_eq)
  also have "unat (drop_bit n a) = unat a div 2 ^ n"
    using take_bit_nat_eq_self[OF unat_lt64[of a]]
    by (simp add: unsigned_drop_bit_eq flip: drop_bit_eq_div)
  also have "take_bit 64 (push_bit n (unat a div 2 ^ n)) = unat a div 2 ^ n * 2 ^ n"
  proof -
    have "unat a div 2 ^ n * 2 ^ n \<le> unat a" by simp
    also have "\<dots> < 2 ^ 64" by (rule unat_lt64)
    finally show ?thesis by (simp add: push_bit_eq_mult take_bit_nat_eq_self)
  qed
  finally show ?thesis .
qed

lemma unat_PGROUNDDOWN: "unat (PGROUNDDOWN a) = unat a div 4096 * 4096"
  unfolding PGROUNDDOWN_def page_mask by (simp add: unat_and_not_mask)

lemma unat_PGROUNDUP:
  assumes "unat a + 4095 < 2 ^ 64"
  shows "unat (PGROUNDUP a) = (unat a + 4095) div 4096 * 4096"
proof -
  have "unat (a + 4095) = unat a + 4095"
    using assms by (simp add: unat_word_ariths)
  moreover have "PGROUNDUP a = PGROUNDDOWN (a + 4095)"
    by (simp add: PGROUNDUP_def PGROUNDDOWN_def PGSIZE_def add.commute)
  ultimately show ?thesis by (simp add: unat_PGROUNDDOWN)
qed

section \<open>Properties\<close>

lemma small_bits: "unat (f :: addr) < 2 ^ k \<Longrightarrow> bit f n \<Longrightarrow> n < k"
proof -
  assume f: "unat f < 2 ^ k" and n: "bit f n"
  then have "take_bit k (unat f) = unat f" by (simp add: take_bit_nat_eq_self)
  moreover have "bit (unat f) n" using n by (simp add: bit_unsigned_iff)
  ultimately show "n < k" by (metis bit_take_bit_iff)
qed

lemma aligned_low_bits:
  assumes "unat (a :: addr) mod 4096 = 0" "n < 12"
  shows "\<not> bit a n"
proof -
  have "take_bit 12 (unat a) = 0" using assms(1) by (simp add: take_bit_eq_mod)
  then have "\<not> bit (take_bit 12 (unat a)) n" by simp
  then show ?thesis using assms(2) by (simp add: bit_take_bit_iff bit_unsigned_iff)
qed

lemma bit_3FF: "bit (0x3FF :: addr) n \<longleftrightarrow> n < 10"
proof -
  have "(0x3FF :: addr) = mask 10" by (simp add: mask_eq_exp_minus_1)
  then show ?thesis by (simp only: bit_mask_iff) auto
qed

text \<open>
  A page-table entry gives back the page address and the flags it was made from.
\<close>

theorem pte_roundtrip:
  assumes "unat pa mod 4096 = 0" "unat pa < 2 ^ 56" "unat f < 2 ^ 10"
  shows "PTE2PA (PA2PTE pa OR f) = pa \<and> PTE_FLAGS (PA2PTE pa OR f) = f"
proof
  have f: "\<not> bit f n" if "10 \<le> n" for n using small_bits[OF assms(3), of n] that by auto
  have pa: "\<not> bit pa n" if "56 \<le> n \<or> n < 12" for n
    using small_bits[OF assms(2), of n] aligned_low_bits[OF assms(1), of n] that by auto
  show "PTE2PA (PA2PTE pa OR f) = pa"
  proof (rule bit_word_eqI)
    fix n assume n: "n < LENGTH(64)"
    show "bit (PTE2PA (PA2PTE pa OR f)) n = bit pa n"
    proof (cases "12 \<le> n \<and> n < 56")
      case True
      then obtain k where k: "n = k + 12" "k < 44" using le_Suc_ex[of 12 n] by (auto simp: add.commute)
      then have "\<not> bit f (10 + k)" using f by simp
      then show ?thesis using k
        by (simp add: PTE2PA_def PA2PTE_def bit_push_bit_iff bit_drop_bit_eq bit_or_iff add.commute)
    next
      case False
      then show ?thesis using pa[of n] f[of "10 + (n - 12)"] pa[of "12 + (10 + (n - 12) - 10)"] n
        by (auto simp: PTE2PA_def PA2PTE_def bit_push_bit_iff bit_drop_bit_eq bit_or_iff)
    qed
  qed
  show "PTE_FLAGS (PA2PTE pa OR f) = f"
  proof (rule bit_word_eqI)
    fix n assume "n < LENGTH(64)"
    show "bit (PTE_FLAGS (PA2PTE pa OR f)) n = bit f n"
      using f[of n] small_bits[OF assms(3), of n]
      unfolding PTE_FLAGS_def PA2PTE_def bit_and_iff bit_or_iff bit_3FF bit_push_bit_iff by auto
  qed
qed

theorem pte_roundtrip_witness:
  "PTE2PA (PA2PTE 0x87fff000 OR (PTE_V OR PTE_R OR PTE_W)) = 0x87fff000"
  using pte_roundtrip[of "0x87fff000" "PTE_V OR PTE_R OR PTE_W"]
  by (simp add: PTE_V_def PTE_R_def PTE_W_def)

lemma unat_KSTACK: "p < NPROC \<Longrightarrow> unat (KSTACK p) = 2 ^ 38 - 4096 - (p + 1) * 8192"
proof -
  assume p: "p < NPROC"
  have T: "unat TRAMPOLINE = 2 ^ 38 - 4096" by (simp add: TRAMPOLINE_def MAXVA_def PGSIZE_def)
  define n where "n = (p + 1) * 8192"
  have n: "n < 2 ^ 30" using p by (simp add: n_def)
  have "of_nat (p + 1) * 2 * PGSIZE = (of_nat n :: addr)"
    by (simp add: PGSIZE_def n_def)
  moreover have "unat (of_nat n :: addr) = n"
    using n by (simp add: unsigned_of_nat take_bit_nat_eq_self)
  moreover have "n \<le> unat TRAMPOLINE" using n T by simp
  ultimately show ?thesis using T unfolding KSTACK_def n_def[symmetric]
    by (subst unat_sub) (simp_all add: word_le_nat_alt)
qed

text \<open>
  The kernel stacks lie below the trampoline, each followed by an unmapped guard page: the
  stacks of two processes are at least two pages apart, and none wraps around.
\<close>

theorem kstack_layout:
  assumes "p < q" "q < NPROC"
  shows "unat (KSTACK q) + 2 * 4096 \<le> unat (KSTACK p) \<and>
    unat (KSTACK p) + 2 * 4096 \<le> unat TRAMPOLINE \<and> unat (KSTACK p) mod 4096 = 0"
proof -
  have T: "unat TRAMPOLINE = 2 ^ 38 - 4096" by (simp add: TRAMPOLINE_def MAXVA_def PGSIZE_def)
  have "2 ^ 38 - 4096 - (p + 1) * 8192 = 4096 * (2 ^ 26 - 1 - (p + 1) * 2)" by simp
  then have "(2 ^ 38 - 4096 - (p + 1) * 8192) mod 4096 = 0" by (metis mod_mult_self1_is_0)
  then show ?thesis using assms T unat_KSTACK[of p] unat_KSTACK[of q] by simp
qed

theorem kstack_layout_witness: "unat (KSTACK 63) + 2 * 4096 \<le> unat (KSTACK 0)"
  using kstack_layout[of 0 63] by simp

end
