(* ===== verification/Spinlock.thy ===== *)
theory Spinlock
  imports Riscv
begin

text \<open>
  kernel/spinlock.c and the per-CPU part of kernel/proc.c: spin locks, the nested disabling
  of interrupts, \<open>cpuid\<close>, \<open>mycpu\<close> and \<open>myproc\<close>.  A hart that finds a lock taken by another
  hart has the outcome \<open>Spin\<close>.
\<close>

section \<open>State\<close>

record cpu =
  cproc :: "nat option"
  noff :: int
  intena :: bool

record spinlock =
  locked :: bool
  lname :: string
  lcpu :: "nat option"

record kbase = hw +
  cpus :: "nat \<Rightarrow> cpu"
  locks :: "lockid \<Rightarrow> spinlock"

definition cpuid :: "'z kbase_scheme \<Rightarrow> nat" where
  "cpuid s = r_tp s"

definition mycpu :: "'z kbase_scheme \<Rightarrow> cpu" where
  "mycpu s = cpus s (cpuid s)"

definition set_mycpu :: "(cpu \<Rightarrow> cpu) \<Rightarrow> 'z kbase_scheme \<Rightarrow> 'z kbase_scheme" where
  "set_mycpu f s = s\<lparr>cpus := (cpus s)(cpuid s := f (mycpu s))\<rparr>"

definition set_lock :: "lockid \<Rightarrow> (spinlock \<Rightarrow> spinlock) \<Rightarrow> 'z kbase_scheme \<Rightarrow> 'z kbase_scheme"
  where "set_lock L f s = s\<lparr>locks := (locks s)(L := f (locks s L))\<rparr>"

section \<open>Operations\<close>

definition initlock :: "lockid \<Rightarrow> string \<Rightarrow> ('z kbase_scheme, unit) kop" where
  "initlock L nm = upd (set_lock L (\<lambda>k. \<lparr>locked = False, lname = nm, lcpu = None\<rparr>))"

definition is_holding :: "lockid \<Rightarrow> 'z kbase_scheme \<Rightarrow> bool" where
  "is_holding L s = (locked (locks s L) \<and> lcpu (locks s L) = Some (cpuid s))"

definition holding :: "lockid \<Rightarrow> ('z kbase_scheme, bool) kop" where
  "holding L = rd (is_holding L)"

definition push_off_st :: "'z kbase_scheme \<Rightarrow> 'z kbase_scheme" where
  "push_off_st s =
     (let old = intr_get s;
          s1 = intr_off s;
          s2 = (if noff (mycpu s1) = 0 then set_mycpu (\<lambda>c. c\<lparr>intena := old\<rparr>) s1 else s1)
      in set_mycpu (\<lambda>c. c\<lparr>noff := noff c + 1\<rparr>) s2)"

definition push_off :: "('z kbase_scheme, unit) kop" where
  "push_off = upd push_off_st"

definition pop_off_st :: "'z kbase_scheme \<Rightarrow> 'z kbase_scheme" where
  "pop_off_st s =
     (let s1 = set_mycpu (\<lambda>c. c\<lparr>noff := noff c - 1\<rparr>) s
      in if noff (mycpu s1) = 0 \<and> intena (mycpu s1) then intr_on s1 else s1)"

definition pop_off :: "('z kbase_scheme, unit) kop" where
  "pop_off =
     bnd (rd intr_get) (\<lambda>on.
     if on then panic ''pop_off - interruptible'' else
     bnd (rd (\<lambda>s. noff (mycpu s) < 1)) (\<lambda>b.
     if b then panic ''pop_off'' else
     upd pop_off_st))"

text \<open>The atomic swap on \<open>lk->locked\<close>, repeated until it returns 0.\<close>

definition test_and_set :: "lockid \<Rightarrow> ('z kbase_scheme, unit) kop" where
  "test_and_set L =
     (\<lambda>s e. if locked (locks s L) then Spin L s
            else Ret () (set_lock L (\<lambda>k. k\<lparr>locked := True\<rparr>) s) e)"

definition acquire :: "lockid \<Rightarrow> ('z kbase_scheme, unit) kop" where
  "acquire L =
     thn push_off (
     bnd (holding L) (\<lambda>h.
     if h then panic ''acquire'' else
     thn (test_and_set L) (
     upd (\<lambda>s. set_lock L (\<lambda>k. k\<lparr>lcpu := Some (cpuid s)\<rparr>) s))))"

definition release :: "lockid \<Rightarrow> ('z kbase_scheme, unit) kop" where
  "release L =
     bnd (holding L) (\<lambda>h.
     if \<not> h then panic ''release'' else
     thn (upd (set_lock L (\<lambda>k. k\<lparr>lcpu := None\<rparr>))) (
     thn (upd (set_lock L (\<lambda>k. k\<lparr>locked := False\<rparr>)))
     pop_off))"

definition myproc :: "('z kbase_scheme, nat option) kop" where
  "myproc =
     thn push_off (
     bnd (rd (\<lambda>s. cproc (mycpu s))) (\<lambda>p.
     thn pop_off (
     ret p)))"

lemma env_le_spinlock [env_intros]:
  "env_le (initlock L nm)" "env_le (holding L)" "env_le push_off" "env_le pop_off"
  "env_le (acquire L)" "env_le (release L)" "env_le myproc"
proof -
  have t: "env_le (test_and_set L)" by (auto simp: env_le_def test_and_set_def)
  show "env_le (initlock L nm)" "env_le (holding L)" "env_le push_off" and p: "env_le pop_off"
    by (auto simp: initlock_def holding_def push_off_def pop_off_def intro!: env_intros)
  then show "env_le (acquire L)" "env_le (release L)" "env_le myproc"
    by (auto simp: acquire_def release_def myproc_def intro!: env_intros t)
qed

section \<open>Net effect of the operations\<close>

text \<open>
  \<open>acq\<close> and \<open>rel\<close> are the states after a successful \<open>acquire\<close> and \<open>release\<close>.  A matched
  pair leaves one trace: at nesting depth 0 it overwrites the saved interrupt flag (\<open>touch\<close>).
\<close>

definition acq :: "lockid \<Rightarrow> 'z kbase_scheme \<Rightarrow> 'z kbase_scheme" where
  "acq L s = set_lock L (\<lambda>k. k\<lparr>locked := True, lcpu := Some (hart s)\<rparr>) (push_off_st s)"

definition rel :: "lockid \<Rightarrow> 'z kbase_scheme \<Rightarrow> 'z kbase_scheme" where
  "rel L s = pop_off_st (set_lock L (\<lambda>k. k\<lparr>lcpu := None, locked := False\<rparr>) s)"

definition touch :: "'z kbase_scheme \<Rightarrow> 'z kbase_scheme" where
  "touch s = set_mycpu (\<lambda>c. if noff c = 0 then c\<lparr>intena := intr_get s\<rparr> else c) s"

definition lock_free :: "lockid \<Rightarrow> 'z kbase_scheme \<Rightarrow> bool" where
  "lock_free L s \<longleftrightarrow> \<not> locked (locks s L) \<and> lcpu (locks s L) = None"

text \<open>Interrupts are off whenever the running hart is inside a \<open>push_off\<close>.\<close>

definition cpu_wf :: "'z kbase_scheme \<Rightarrow> bool" where
  "cpu_wf s \<longleftrightarrow> 0 \<le> noff (mycpu s) \<and> (0 < noff (mycpu s) \<longrightarrow> \<not> intr_get s)"

lemmas base_defs =
  cpuid_def r_tp_def mycpu_def set_mycpu_def set_lock_def push_off_st_def pop_off_st_def
  acq_def rel_def touch_def lock_free_def cpu_wf_def is_holding_def Let_def

text \<open>Every register write is a write to one hart's \<open>csr\<close>; what it leaves alone:\<close>

lemma csr_writes_frame [simp, frame_simps]:
  "cpus (intr_on s) = cpus s" "cpus (intr_off s) = cpus s" "cpus (w_sstatus x s) = cpus s"
  "cpus (w_sepc x s) = cpus s" "cpus (w_stvec x s) = cpus s" "cpus (w_stimecmp x s) = cpus s"
  "locks (intr_on s) = locks s" "locks (intr_off s) = locks s" "locks (w_sstatus x s) = locks s"
  "locks (w_sepc x s) = locks s" "locks (w_stvec x s) = locks s"
  "locks (w_stimecmp x s) = locks s"
  by (simp_all add: intr_on_def intr_off_def w_sstatus_def w_sepc_def w_stvec_def w_stimecmp_def)

lemma csr_writes_commute [simp]:
  "intr_on (cpus_update f s) = cpus_update f (intr_on s)"
  "intr_off (cpus_update f s) = cpus_update f (intr_off s)"
  "intr_on (locks_update g s) = locks_update g (intr_on s)"
  "intr_off (locks_update g s) = locks_update g (intr_off s)"
  "intr_get (cpus_update f s) = intr_get s"
  "intr_get (locks_update g s) = intr_get s"
  by (simp_all add: intr_on_def intr_off_def intr_get_def w_sstatus_def r_sstatus_def)

lemma acquire_Ret [kop_simps]:
  "\<not> locked (locks s L) \<Longrightarrow> acquire L s e = Ret () (acq L s) e"
  by (simp add: acquire_def holding_def push_off_def test_and_set_def bnd_def thn_def base_defs)

lemma release_Ret [kop_simps]:
  "is_holding L s \<Longrightarrow> \<not> intr_get s \<Longrightarrow> 1 \<le> noff (mycpu s) \<Longrightarrow> release L s e = Ret () (rel L s) e"
  by (simp add: release_def holding_def pop_off_def bnd_def thn_def base_defs)

lemma acq_simps [simp, frame_simps]:
  "hart (acq L s) = hart s"
  "\<not> intr_get (acq L s)"
  "noff (mycpu (acq L s)) = noff (mycpu s) + 1"
  "cproc (mycpu (acq L s)) = cproc (mycpu s)"
  "is_holding L (acq L s)"
  "locks (acq L s) = (locks s)(L := (locks s L)\<lparr>locked := True, lcpu := Some (hart s)\<rparr>)"
  by (simp_all add: base_defs)

lemma touch_simps [simp, frame_simps]:
  "hart (touch s) = hart s"
  "intr_get (touch s) = intr_get s"
  "noff (mycpu (touch s)) = noff (mycpu s)"
  "cproc (mycpu (touch s)) = cproc (mycpu s)"
  "locks (touch s) = locks s"
  "is_holding L (touch s) = is_holding L s"
  "lock_free L (touch s) = lock_free L s"
  "cpu_wf (touch s) = cpu_wf s"
  "touch (touch s) = touch s"
  by (simp_all add: base_defs)

lemma touch_nested [simp]: "noff (mycpu s) \<noteq> 0 \<Longrightarrow> touch s = s"
  by (simp add: base_defs)

lemma cpu_wf_acq [simp]: "cpu_wf s \<Longrightarrow> cpu_wf (acq L s)"
  by (simp add: cpu_wf_def)

lemma lock_free_acq [simp]: "L \<noteq> M \<Longrightarrow> lock_free M (acq L s) = lock_free M s"
  by (simp add: lock_free_def)

lemma is_holding_acq [simp]: "L \<noteq> M \<Longrightarrow> is_holding M (acq L s) = is_holding M s"
  by (simp add: is_holding_def cpuid_def r_tp_def)

lemma lock_freeD: "lock_free L s \<Longrightarrow> \<not> locked (locks s L)"
  by (simp add: lock_free_def)

lemma lock_free_not_holding: "lock_free L s \<Longrightarrow> \<not> is_holding L s"
  by (simp add: lock_free_def is_holding_def)

lemma unlocked_same: "\<not> locked k \<Longrightarrow> lcpu k = None \<Longrightarrow> k\<lparr>lcpu := None, locked := False\<rparr> = k"
  by (cases k) simp

lemma locks_same:
  "s\<lparr>cpus := C, locks := locks s\<rparr> = s\<lparr>cpus := C\<rparr>" "s\<lparr>locks := locks s\<rparr> = s"
  by (cases s; simp)+

lemma rel_acq [simp]:
  assumes "lock_free L s" "cpu_wf s"
  shows "rel L (acq L s) = touch s"
proof -
  have "(locks s L)\<lparr>lcpu := None, locked := False\<rparr> = locks s L"
    using assms(1) by (auto simp: lock_free_def intro: unlocked_same)
  then have "(locks s)(L := (locks s L)\<lparr>lcpu := None, locked := False\<rparr>) = locks s" by simp
  then show ?thesis using assms by (auto simp: base_defs locks_same)
qed

lemma pop_off_Ret [kop_simps]:
  "\<not> intr_get s \<Longrightarrow> 1 \<le> noff (mycpu s) \<Longrightarrow> pop_off s e = Ret () (pop_off_st s) e"
  by (simp add: pop_off_def bnd_def)

lemma push_off_simps [simp, frame_simps]:
  "hart (push_off_st s) = hart s"
  "\<not> intr_get (push_off_st s)"
  "noff (mycpu (push_off_st s)) = noff (mycpu s) + 1"
  "cproc (mycpu (push_off_st s)) = cproc (mycpu s)"
  "locks (push_off_st s) = locks s"
  by (simp_all add: base_defs)

lemma pop_push [simp]: "cpu_wf s \<Longrightarrow> pop_off_st (push_off_st s) = touch s"
  by (auto simp: base_defs locks_same)

lemma myproc_Ret [kop_simps]:
  "cpu_wf s \<Longrightarrow> myproc s e = Ret (cproc (mycpu s)) (touch s) e"
  by (simp add: myproc_def push_off_def kop_simps cpu_wf_def pop_push[unfolded cpu_wf_def])

text \<open>Releasing the outer of two locks first.\<close>

lemma rel_outer_acq [simp]:
  assumes "A \<noteq> B" "lock_free A s" "cpu_wf s"
  shows "rel A (acq B (acq A s)) = acq B (touch s)"
proof -
  have "(locks s A)\<lparr>lcpu := None, locked := False\<rparr> = locks s A"
    using assms(2) by (auto simp: lock_free_def intro: unlocked_same)
  then have "(locks s)(A := (locks s A)\<lparr>lcpu := None, locked := False\<rparr>,
       B := (locks s B)\<lparr>locked := True, lcpu := Some (hart s)\<rparr>)
     = (locks s)(B := (locks s B)\<lparr>locked := True, lcpu := Some (hart s)\<rparr>)" by simp
  then show ?thesis using assms
    by (auto simp: base_defs locks_same fun_upd_twist[of A B])
qed

text \<open>A second push overwrites the trace of a matched pair.\<close>

lemma acq_touch [simp]: "acq L (touch s) = acq L s"
  by (auto simp: base_defs)

lemma rel_simps [simp, frame_simps]:
  "hart (rel L s) = hart s"
  "noff (mycpu (rel L s)) = noff (mycpu s) - 1"
  "cproc (mycpu (rel L s)) = cproc (mycpu s)"
  "intena (mycpu (rel L s)) = intena (mycpu s)"
  "locks (rel L s) = (locks s)(L := (locks s L)\<lparr>lcpu := None, locked := False\<rparr>)"
  "lock_free L (rel L s)"
  by (auto simp: base_defs)

lemma rel_other [simp]:
  "L \<noteq> M \<Longrightarrow> is_holding M (rel L s) = is_holding M s"
  "L \<noteq> M \<Longrightarrow> lock_free M (rel L s) = lock_free M s"
  by (simp_all add: is_holding_def lock_free_def cpuid_def r_tp_def)

lemma intr_get_rel:
  "noff (mycpu s) \<noteq> 1 \<Longrightarrow> intr_get (rel L s) = intr_get s"
  "noff (mycpu s) = 1 \<Longrightarrow> intena (mycpu s) \<Longrightarrow> intr_get (rel L s)"
  "noff (mycpu s) = 1 \<Longrightarrow> \<not> intena (mycpu s) \<Longrightarrow> intr_get (rel L s) = intr_get s"
  by (auto simp: base_defs)

lemma set_mycpu_simps [simp]:
  "hart (set_mycpu k s) = hart s" "locks (set_mycpu k s) = locks s"
  "intr_get (set_mycpu k s) = intr_get s" "mycpu (set_mycpu k s) = k (mycpu s)"
  "is_holding L (set_mycpu k s) = is_holding L s" "lock_free L (set_mycpu k s) = lock_free L s"
  by (simp_all add: base_defs)

section \<open>Failures\<close>

lemma acquire_again:
  "is_holding L s \<Longrightarrow> acquire L s e = Panic ''acquire'' (push_off_st s)"
  by (simp add: acquire_def holding_def push_off_def kop_simps is_holding_def cpuid_def r_tp_def)

lemma acquire_Spin:
  "locked (locks s L) \<Longrightarrow> \<not> is_holding L s \<Longrightarrow> acquire L s e = Spin L (push_off_st s)"
  by (simp add: acquire_def holding_def push_off_def test_and_set_def kop_simps is_holding_def
      cpuid_def r_tp_def)

lemma release_Panic: "\<not> is_holding L s \<Longrightarrow> release L s e = Panic ''release'' s"
  by (simp add: release_def holding_def kop_simps)

text \<open>\<open>acquire\<close> has three outcomes, by who holds the lock.\<close>

theorem acquire_cases:
  "acquire L s e =
     (if \<not> locked (locks s L) then Ret () (acq L s) e
      else if lcpu (locks s L) = Some (hart s) then Panic ''acquire'' (push_off_st s)
      else Spin L (push_off_st s))"
  using acquire_Ret[of s L e] acquire_again[of L s e] acquire_Spin[of s L e]
  by (auto simp: is_holding_def cpuid_def r_tp_def)

section \<open>Locks, nesting depth and interrupts over any interleaving of harts\<close>

text \<open>
  The states reached when any harts acquire and release any locks in any order, a spinning
  hart taking no step.
\<close>

inductive lock_reach :: "'z kbase_scheme \<Rightarrow> bool" where
  boot: "(\<And>L. lock_free L s) \<Longrightarrow> (\<And>h. noff (cpus s h) = 0) \<Longrightarrow> lock_reach s"
| other_hart: "lock_reach s \<Longrightarrow> lock_reach (s\<lparr>hart := h\<rparr>)"
| acquires: "lock_reach s \<Longrightarrow> acquire L s [] = Ret () t [] \<Longrightarrow> lock_reach t"
| releases: "lock_reach s \<Longrightarrow> release L s [] = Ret () t [] \<Longrightarrow> lock_reach t"

definition held_by :: "nat \<Rightarrow> 'z kbase_scheme \<Rightarrow> lockid set" where
  "held_by h s = {L. lcpu (locks s L) = Some h}"

definition intr_of :: "nat \<Rightarrow> 'z hw_scheme \<Rightarrow> bool" where
  "intr_of h s = bit (sstatus (csr s h)) 1"

definition lock_inv :: "'z kbase_scheme \<Rightarrow> bool" where
  "lock_inv s \<longleftrightarrow>
     (\<forall>L. locked (locks s L) \<longleftrightarrow> lcpu (locks s L) \<noteq> None) \<and>
     (\<forall>h. finite (held_by h s) \<and> noff (cpus s h) = int (card (held_by h s))) \<and>
     (\<forall>h. held_by h s \<noteq> {} \<longrightarrow> \<not> intr_of h s)"

lemma intr_get_of: "intr_get s = intr_of (hart s) s"
  by (simp add: intr_get_iff intr_of_def r_sstatus_def)

lemma intr_of_updates [simp]:
  "intr_of h (cpus_update f s) = intr_of h s" "intr_of h (locks_update g s) = intr_of h s"
  "intr_of h (hart_update k s) = intr_of h s"
  by (simp_all add: intr_of_def)

lemma intr_of_other: "h \<noteq> hart s \<Longrightarrow> intr_of h (intr_on s) = intr_of h s"
  "h \<noteq> hart s \<Longrightarrow> intr_of h (intr_off s) = intr_of h s"
  by (simp_all add: intr_of_def intr_on_def intr_off_def w_sstatus_def)

lemma intr_of_off: "intr_of h (intr_off s) \<longleftrightarrow> h \<noteq> hart s \<and> intr_of h s"
  using intr_get_of[of "intr_off s"] by (cases "h = hart s") (auto simp: intr_of_other)

lemma acq_effect:
  "noff (cpus (acq L s) h) = noff (cpus s h) + (if h = hart s then 1 else 0)"
  "intr_of h (acq L s) \<longleftrightarrow> h \<noteq> hart s \<and> intr_of h s"
  by (auto simp: base_defs intr_of_off)

lemma rel_effect:
  "locks (rel L s) = (locks s)(L := (locks s L)\<lparr>lcpu := None, locked := False\<rparr>)"
  "noff (cpus (rel L s) h) = noff (cpus s h) - (if h = hart s then 1 else 0)"
  "h \<noteq> hart s \<or> noff (cpus s (hart s)) \<noteq> 1 \<Longrightarrow> intr_of h (rel L s) = intr_of h s"
  "hart (rel L s) = hart s"
  by (auto simp: base_defs intr_of_other)

lemma held_by_acq:
  "lcpu (locks s L) = None \<Longrightarrow>
   held_by h (acq L s) = (if h = hart s then insert L (held_by h s) else held_by h s)"
  by (auto simp: held_by_def)

lemma held_by_rel:
  "lcpu (locks s L) = Some (hart s) \<Longrightarrow>
   held_by h (rel L s) = (if h = hart s then held_by h s - {L} else held_by h s)"
  by (auto simp: held_by_def rel_effect)

lemma lock_inv_acq:
  assumes "lock_inv s" "\<not> locked (locks s L)"
  shows "lock_inv (acq L s)"
proof -
  have n: "lcpu (locks s L) = None" and notin: "\<And>h. L \<notin> held_by h s"
    using assms by (auto simp: lock_inv_def held_by_def)
  show ?thesis
    using assms n notin unfolding lock_inv_def held_by_acq[OF n] acq_effect
    by (auto simp: card_insert_if)
qed

lemma lock_inv_noff:
  assumes "lock_inv s" "is_holding L s"
  shows "1 \<le> noff (mycpu s)" "\<not> intr_get s"
proof -
  have "L \<in> held_by (hart s) s" using assms(2)
    by (simp add: held_by_def is_holding_def cpuid_def r_tp_def)
  then have "held_by (hart s) s \<noteq> {}" "finite (held_by (hart s) s)"
    using assms(1) by (auto simp: lock_inv_def)
  then show "1 \<le> noff (mycpu s)" "\<not> intr_get s"
    using assms(1) by (auto simp: lock_inv_def mycpu_def cpuid_def r_tp_def intr_get_of
        Suc_le_eq card_gt_0_iff)
qed

lemma lock_inv_rel:
  assumes "lock_inv s" "is_holding L s"
  shows "lock_inv (rel L s)"
proof -
  have h: "lcpu (locks s L) = Some (hart s)" and "L \<in> held_by (hart s) s"
    using assms(2) by (simp_all add: is_holding_def cpuid_def r_tp_def held_by_def)
  moreover have fin: "finite (held_by k s)" for k using assms(1) by (simp add: lock_inv_def)
  ultimately have card: "card (held_by (hart s) s - {L}) = card (held_by (hart s) s) - 1"
    "card (held_by (hart s) s) \<ge> 1"
    by (auto simp: Suc_le_eq card_gt_0_iff)
  have "\<not> intr_of k (rel L s)" if k: "held_by k (rel L s) \<noteq> {}" for k
  proof -
    have sub: "held_by k (rel L s) \<subseteq> held_by k s" using h by (auto simp: held_by_rel)
    have "k \<noteq> hart s \<or> noff (cpus s (hart s)) \<noteq> 1"
    proof (rule ccontr)
      assume "\<not> ?thesis"
      then have "k = hart s" "card (held_by (hart s) s) = 1" using assms(1)
        by (auto simp: lock_inv_def)
      then have "held_by k (rel L s) = {}" using h card fin by (simp add: held_by_rel)
      with k show False by simp
    qed
    moreover have "held_by k s \<noteq> {}" using sub k by auto
    then have "\<not> intr_of k s" using assms(1) by (auto simp: lock_inv_def)
    ultimately show ?thesis by (simp add: rel_effect(3))
  qed
  then show ?thesis
    using assms(1) h card fin unfolding lock_inv_def
    by (auto simp: held_by_rel rel_effect of_nat_diff)
qed

lemma lock_reach_inv: "lock_reach s \<Longrightarrow> lock_inv s"
proof (induction rule: lock_reach.induct)
  case (boot s)
  then show ?case by (simp add: lock_inv_def lock_free_def held_by_def)
next
  case (other_hart s h)
  then show ?case by (simp add: lock_inv_def held_by_def)
next
  case (acquires s L t)
  then show ?case by (auto simp: acquire_cases split: if_splits intro: lock_inv_acq)
next
  case (releases s L t)
  have "is_holding L s" using releases.hyps(2) release_Panic[of L s "[]"] by force
  then show ?case
    using releases lock_inv_noff[OF releases.IH] by (auto simp: release_Ret intro: lock_inv_rel)
qed

section \<open>Properties\<close>


definition two_locks :: kbase where
  "two_locks = \<lparr>hart = 0,
     csr = (\<lambda>_. \<lparr>sstatus = 2, sepc = 0, stvec = 0, satp = 0, scause = 0, stval = 0, stimecmp = 0,
       mtime = 0\<rparr>),
     cpus = (\<lambda>_. \<lparr>cproc = None, noff = 0, intena = False\<rparr>),
     locks = (\<lambda>_. \<lparr>locked = False, lname = [], lcpu = None\<rparr>)\<rparr>"



end
