(* ===== verification/Printf.thy ===== *)
theory Printf
  imports Spinlock
begin

text \<open>
  kernel/printf.c with the two functions it prints through, \<open>consputc\<close> of kernel/console.c
  and \<open>uartputc_sync\<close> of kernel/uart.c.  The formatting is a pure function from the format
  string and the variable arguments to the characters printed; \<open>printf\<close> sends them to the
  UART's transmit register, whose history is the field \<open>thr\<close>.
\<close>

section \<open>State\<close>

record kout = kbase +
  thr :: "byte list"
  panicking :: bool
  panicked :: bool

lemma thr_frame [simp, frame_simps]:
  "cpuid (thr_update g s) = cpuid s" "mycpu (thr_update g s) = mycpu s"
  "intr_get (thr_update g s) = intr_get s"
  "is_holding L (thr_update g s) = is_holding L s" "lock_free L (thr_update g s) = lock_free L s"
  "cpu_wf (thr_update g s) = cpu_wf s" "touch (thr_update g s) = thr_update g (touch s)"
  "acq L (thr_update g s) = thr_update g (acq L s)"
  "rel L (thr_update g s) = thr_update g (rel L s)"
  "push_off_st (thr_update g s) = thr_update g (push_off_st s)"
  "pop_off_st (thr_update g s) = thr_update g (pop_off_st s)"
  by (simp_all add: base_defs intr_get_def r_sstatus_def intr_on_def intr_off_def w_sstatus_def)

lemma panicking_frame [simp, frame_simps]:
  "cpuid (panicking_update g s) = cpuid s" "mycpu (panicking_update g s) = mycpu s"
  "intr_get (panicking_update g s) = intr_get s"
  "is_holding L (panicking_update g s) = is_holding L s" "lock_free L (panicking_update g s) = lock_free L s"
  "cpu_wf (panicking_update g s) = cpu_wf s" "touch (panicking_update g s) = panicking_update g (touch s)"
  "acq L (panicking_update g s) = panicking_update g (acq L s)"
  "rel L (panicking_update g s) = panicking_update g (rel L s)"
  "push_off_st (panicking_update g s) = panicking_update g (push_off_st s)"
  "pop_off_st (panicking_update g s) = panicking_update g (pop_off_st s)"
  by (simp_all add: base_defs intr_get_def r_sstatus_def intr_on_def intr_off_def w_sstatus_def)

lemma panicked_frame [simp, frame_simps]:
  "cpuid (panicked_update g s) = cpuid s" "mycpu (panicked_update g s) = mycpu s"
  "intr_get (panicked_update g s) = intr_get s"
  "is_holding L (panicked_update g s) = is_holding L s" "lock_free L (panicked_update g s) = lock_free L s"
  "cpu_wf (panicked_update g s) = cpu_wf s" "touch (panicked_update g s) = panicked_update g (touch s)"
  "acq L (panicked_update g s) = panicked_update g (acq L s)"
  "rel L (panicked_update g s) = panicked_update g (rel L s)"
  "push_off_st (panicked_update g s) = panicked_update g (push_off_st s)"
  "pop_off_st (panicked_update g s) = panicked_update g (pop_off_st s)"
  by (simp_all add: base_defs intr_get_def r_sstatus_def intr_on_def intr_off_def w_sstatus_def)

lemma kout_frame [simp, frame_simps]:
  "thr (touch s) = thr s" "panicking (touch s) = panicking s" "panicked (touch s) = panicked s"
  "thr (acq L s) = thr s" "panicking (acq L s) = panicking s" "panicked (acq L s) = panicked s"
  "thr (rel L s) = thr s" "panicking (rel L s) = panicking s" "panicked (rel L s) = panicked s"
  "thr (push_off_st s) = thr s" "panicking (push_off_st s) = panicking s"
  "panicked (push_off_st s) = panicked s"
  "thr (set_mycpu k s) = thr s" "panicking (set_mycpu k s) = panicking s"
  "panicked (set_mycpu k s) = panicked s"
  by (simp_all add: base_defs intr_on_def intr_off_def w_sstatus_def)

section \<open>Number formatting\<close>

definition hexdigits :: "char list" where "hexdigits = ''0123456789abcdef''"

text \<open>The \<open>do \<dots> while\<close> loop of \<open>printint\<close>: digits, least significant first.\<close>

function digit_loop :: "nat \<Rightarrow> nat \<Rightarrow> char list" where
  "digit_loop base x =
     hexdigits ! (x mod base) #
     (if x div base \<noteq> 0 \<and> 2 \<le> base then digit_loop base (x div base) else [])"
  by pat_completeness auto
termination
  by (relation "measure snd") (auto intro!: div_less_dividend simp: div_greater_zero_iff)

declare digit_loop.simps [simp del]

definition printint_buf :: "addr \<Rightarrow> nat \<Rightarrow> bool \<Rightarrow> char list" where
  "printint_buf xx base sign =
     (let neg = sign \<and> sint xx < 0;
          x = (if neg then - xx else xx)
      in digit_loop base (unat x) @ (if neg then ''-'' else []))"

definition printint :: "addr \<Rightarrow> nat \<Rightarrow> bool \<Rightarrow> char list" where
  "printint xx base sign = rev (printint_buf xx base sign)"

fun printptr_loop :: "nat \<Rightarrow> addr \<Rightarrow> char list" where
  "printptr_loop 0 x = []"
| "printptr_loop (Suc n) x = hexdigits ! unat (drop_bit 60 x) # printptr_loop n (push_bit 4 x)"

definition printptr :: "addr \<Rightarrow> char list" where
  "printptr x = ''0x'' @ printptr_loop 16 x"

section \<open>Format strings\<close>

text \<open>
  A variable argument is a 64-bit slot or a string pointer (\<open>None\<close> is the null pointer).
  \<open>None\<close> as a result: the arguments do not fit the format, which C leaves undefined.
\<close>

datatype vaarg = VW addr | VS "char list option"

definition nul :: char where "nul = CHR 0x00"

definition fmt_at :: "char list \<Rightarrow> nat \<Rightarrow> char" where
  "fmt_at cs n = (if n < length cs then cs ! n else nul)"

definition BACKSPACE :: int where "BACKSPACE = 0x100"

definition va_int :: "addr \<Rightarrow> addr" where "va_int w = scast (ucast w :: u32)"
definition va_uint :: "addr \<Rightarrow> addr" where "va_uint w = ucast (ucast w :: u32)"

fun directive :: "char \<Rightarrow> char \<Rightarrow> char \<Rightarrow> vaarg list \<Rightarrow> (char list \<times> nat \<times> vaarg list) option"
  where
  "directive c0 c1 c2 args =
     (let num = (\<lambda>f base sign skip.
            case args of VW w # rest \<Rightarrow> Some (printint (f w) base sign, skip, rest) | _ \<Rightarrow> None)
      in if c0 = CHR ''d'' then num va_int 10 True 0
      else if c0 = CHR ''l'' \<and> c1 = CHR ''d'' then num id 10 True 1
      else if c0 = CHR ''l'' \<and> c1 = CHR ''l'' \<and> c2 = CHR ''d'' then num id 10 True 2
      else if c0 = CHR ''u'' then num va_uint 10 False 0
      else if c0 = CHR ''l'' \<and> c1 = CHR ''u'' then num id 10 False 1
      else if c0 = CHR ''l'' \<and> c1 = CHR ''l'' \<and> c2 = CHR ''u'' then num id 10 False 2
      else if c0 = CHR ''x'' then num va_uint 16 False 0
      else if c0 = CHR ''l'' \<and> c1 = CHR ''x'' then num id 16 False 1
      else if c0 = CHR ''l'' \<and> c1 = CHR ''l'' \<and> c2 = CHR ''x'' then num id 16 False 2
      else if c0 = CHR ''p'' then
        (case args of VW w # rest \<Rightarrow> Some (printptr w, 0, rest) | _ \<Rightarrow> None)
      else if c0 = CHR ''c'' then
        (case args of VW w # rest \<Rightarrow> Some ([char_of (unat (ucast w :: byte))], 0, rest) | _ \<Rightarrow> None)
      else if c0 = CHR ''s'' then
        (case args of VS (Some t) # rest \<Rightarrow> Some (t, 0, rest)
         | VS None # rest \<Rightarrow> Some (''(null)'', 0, rest)
         | _ \<Rightarrow> None)
      else if c0 = CHR ''%'' then Some (''%'', 0, args)
      else Some ([CHR ''%'', c0], 0, args))"

function format :: "char list \<Rightarrow> vaarg list \<Rightarrow> char list option" where
  "format [] args = Some []"
| "format (cx # cs) args =
     (if cx \<noteq> CHR ''%'' then map_option ((#) cx) (format cs args)
      else case cs of
          [] \<Rightarrow> Some []
        | c0 # r \<Rightarrow>
            (let c1 = fmt_at r 0; c2 = (if c1 \<noteq> nul then fmt_at r 1 else nul)
             in case directive c0 c1 c2 args of
                  None \<Rightarrow> None
                | Some (out, skip, rest) \<Rightarrow> map_option ((@) out) (format (drop skip r) rest)))"
  by pat_completeness auto
termination
  by (relation "measure (\<lambda>(cs, args). length cs)") auto

section \<open>Output\<close>

definition uartputc_sync :: "int \<Rightarrow> ('z kout_scheme, unit) kop" where
  "uartputc_sync c =
     bnd (rd panicking) (\<lambda>p.
     thn (whenm (\<not> p) push_off) (
     bnd (rd panicked) (\<lambda>q.
     if q then hang else
     thn (upd (\<lambda>s. s\<lparr>thr := thr s @ [word_of_int c]\<rparr>)) (
     bnd (rd panicking) (\<lambda>p'.
     whenm (\<not> p') pop_off)))))"

definition consputc :: "int \<Rightarrow> ('z kout_scheme, unit) kop" where
  "consputc c =
     (if c = BACKSPACE then
        thn (uartputc_sync 8) (thn (uartputc_sync 32) (uartputc_sync 8))
      else uartputc_sync c)"

definition printf :: "char list \<Rightarrow> vaarg list \<Rightarrow> ('z kout_scheme, int) kop" where
  "printf fmt args =
     bnd (rd panicking) (\<lambda>p.
     thn (whenm (\<not> p) (acquire L_pr)) (
     case format fmt args of
       None \<Rightarrow> undefined_behaviour
     | Some out \<Rightarrow>
         thn (foreach out (\<lambda>ch. consputc (of_char ch))) (
         bnd (rd panicking) (\<lambda>p'.
         thn (whenm (\<not> p') (release L_pr)) (
         ret 0)))))"

text \<open>
  \<open>panic\<close> itself.  Elsewhere in the development the outcome \<open>Panic\<close> stands for a call of it.
\<close>

definition panic_body :: "char list \<Rightarrow> ('z kout_scheme, unit) kop" where
  "panic_body msg =
     thn (upd (\<lambda>s. s\<lparr>panicking := True\<rparr>)) (
     thn (printf ''panic: '' []) (
     thn (printf (''%s'' @ [CHR 0x0A]) [VS (Some msg)]) (
     thn (upd (\<lambda>s. s\<lparr>panicked := True\<rparr>))
     hang)))"

definition printfinit :: "('z kout_scheme, unit) kop" where
  "printfinit = initlock L_pr ''pr''"

lemma env_le_printf [env_intros]:
  "env_le (uartputc_sync c)" "env_le (consputc c)" "env_le (printf fmt args)"
proof -
  show u: "env_le (uartputc_sync c)" for c
    unfolding uartputc_sync_def by (intro env_intros)
  show c: "env_le (consputc c)" for c
    unfolding consputc_def by (intro env_intros u)
  show "env_le (printf fmt args)"
    unfolding printf_def by (intro env_intros c)
qed

definition bytes_of :: "char list \<Rightarrow> byte list" where
  "bytes_of cs = map of_char cs"

lemma of_char_not_BACKSPACE: "(of_char c :: int) \<noteq> BACKSPACE"
proof -
  have "(of_char c :: int) = of_char c mod 256" by (rule of_char_mod_256[symmetric])
  also have "\<dots> < 256" by (rule pos_mod_bound) simp
  finally show ?thesis by (simp add: BACKSPACE_def)
qed

lemma uartputc_sync_Ret [kop_simps]:
  assumes "\<not> panicked s" "cpu_wf s"
  shows "uartputc_sync c s e = Ret () ((if panicking s then s else touch s)
           \<lparr>thr := thr s @ [word_of_int c]\<rparr>) e"
  using assms by (cases "panicking s")
    (simp_all add: uartputc_sync_def kop_simps push_off_def cpu_wf_def
      pop_push[unfolded cpu_wf_def])

lemma consputc_char_Ret [kop_simps]:
  assumes "\<not> panicked s" "cpu_wf s"
  shows "consputc (of_char ch) s e = Ret () ((if panicking s then s else touch s)
           \<lparr>thr := thr s @ [word_of_int (of_char ch)]\<rparr>) e"
  using assms by (simp add: consputc_def of_char_not_BACKSPACE uartputc_sync_Ret)

lemma word_of_int_of_char [simp]: "word_of_int (of_char c) = (of_char c :: byte)"
  by (rule of_int_of_char)

lemma print_chars_Ret [kop_simps]:
  assumes "\<not> panicked s" "cpu_wf s" "panicking s \<or> noff (mycpu s) \<noteq> 0"
  shows "foreach out (\<lambda>ch. consputc (of_char ch)) s e =
           Ret () (s\<lparr>thr := thr s @ bytes_of out\<rparr>) e"
  using assms
proof (induction out arbitrary: s)
  case Nil
  then show ?case by (simp add: bytes_of_def)
next
  case (Cons c out)
  have "consputc (of_char c) s e = Ret () (s\<lparr>thr := thr s @ [word_of_int (of_char c)]\<rparr>) e"
    using Cons.prems by (auto simp: kop_simps)
  then have "foreach (c # out) (\<lambda>ch. consputc (of_char ch)) s e =
      foreach out (\<lambda>ch. consputc (of_char ch)) (s\<lparr>thr := thr s @ [word_of_int (of_char c)]\<rparr>) e"
    by (rule foreach_Ret)
  also have "\<dots> = Ret () (s\<lparr>thr := thr s @ bytes_of (c # out)\<rparr>) e"
    using Cons.prems by (subst Cons.IH) (simp_all add: bytes_of_def)
  finally show ?case .
qed

lemma printf_Ret [kop_simps]:
  assumes "format fmt args = Some out" "\<not> panicked s" "\<not> panicking s"
    "cpu_wf s" "lock_free L_pr s"
  shows "printf fmt args s e = Ret 0 ((touch s)\<lparr>thr := thr s @ bytes_of out\<rparr>) e"
  using assms by (simp add: printf_def kop_simps lock_freeD cpu_wf_def[of s])

section \<open>Reading numbers back\<close>

definition hexval :: "char \<Rightarrow> nat" where
  "hexval c = the (find_index (\<lambda>i. hexdigits ! i = c) [0..<16])"

definition read_digits :: "nat \<Rightarrow> char list \<Rightarrow> nat" where
  "read_digits base cs = foldl (\<lambda>a c. a * base + hexval c) 0 cs"

definition read_int :: "nat \<Rightarrow> char list \<Rightarrow> int" where
  "read_int base cs =
     (if cs \<noteq> [] \<and> hd cs = CHR ''-'' then - int (read_digits base (tl cs))
      else int (read_digits base cs))"

lemma hexdigits_props: "distinct hexdigits" "length hexdigits = 16" "CHR ''-'' \<notin> set hexdigits"
  by (simp_all add: hexdigits_def)

lemma hexval_digit [simp]: "n < 16 \<Longrightarrow> hexval (hexdigits ! n) = n"
proof -
  assume n: "n < 16"
  have "find_index (\<lambda>i. hexdigits ! i = hexdigits ! n) [0..<16] = Some n"
    using n hexdigits_props(1,2) by (auto simp: find_index_upt nth_eq_iff_index_eq)
  then show ?thesis by (simp add: hexval_def)
qed

lemma digit_not_minus: "n < 16 \<Longrightarrow> hexdigits ! n \<noteq> CHR ''-''"
  using hexdigits_props(2,3) by (metis nth_mem)

lemma read_digit_loop:
  "2 \<le> base \<Longrightarrow> base \<le> 16 \<Longrightarrow> read_digits base (rev (digit_loop base x)) = x"
proof (induction base x rule: digit_loop.induct)
  case (1 base x)
  have m: "x mod base < 16" using "1.prems" mod_less_divisor[of base x] by linarith
  show ?case
  proof (cases "x div base \<noteq> 0")
    case True
    then have "read_digits base (rev (digit_loop base (x div base))) = x div base"
      using 1 by simp
    then show ?thesis using True m "1.prems"
      by (subst digit_loop.simps) (simp add: read_digits_def)
  next
    case False
    then show ?thesis using m "1.prems"
      by (subst digit_loop.simps) (simp add: read_digits_def div_eq_0_iff)
  qed
qed

lemma digit_loop_chars:
  "2 \<le> base \<Longrightarrow> base \<le> 16 \<Longrightarrow> CHR ''-'' \<notin> set (digit_loop base x) \<and> digit_loop base x \<noteq> []"
proof (induction base x rule: digit_loop.induct)
  case (1 base x)
  have m: "x mod base < 16" using "1.prems" mod_less_divisor[of base x] by linarith
  show ?case using 1 digit_not_minus[OF m]
    by (subst (1 2) digit_loop.simps) auto
qed

lemma length_digit_loop:
  "x < base ^ k \<Longrightarrow> 1 \<le> k \<Longrightarrow> length (digit_loop base x) \<le> k"
proof (induction base x arbitrary: k rule: digit_loop.induct)
  case (1 base x)
  show ?case
  proof (cases "x div base \<noteq> 0 \<and> 2 \<le> base")
    case True
    then have "k \<noteq> 1" using "1.prems" by (auto simp: div_eq_0_iff)
    then obtain j where k: "k = Suc j" "1 \<le> j" using "1.prems"(2) by (cases k) auto
    have "x div base < base ^ j"
      using "1.prems"(1) True by (simp add: k less_mult_imp_div_less mult.commute)
    then have "length (digit_loop base (x div base)) \<le> j" using True k by (intro "1.IH") auto
    then show ?thesis using True k by (subst digit_loop.simps) simp
  next
    case False
    then show ?thesis using "1.prems"(2) by (subst digit_loop.simps) auto
  qed
qed

lemma sint_uint_cases: "sint x = (if sint x < 0 then uint x - 2 ^ 64 else uint x)" for x :: addr
proof -
  have "sint x = signed_take_bit 63 (uint x)" by (simp add: sint_uint)
  also have "\<dots> = take_bit 64 (uint x) - 2 ^ 64 * of_bool (bit (uint x) 63)"
    using signed_take_bit_eq_take_bit_minus[of 63 "uint x"] by simp
  also have "take_bit 64 (uint x) = uint x" using uint_lt2p[of x] by (simp add: take_bit_int_eq_self_iff)
  finally have e: "sint x = uint x - 2 ^ 64 * of_bool (bit (uint x) 63)" .
  have "sint x < 0 \<longleftrightarrow> bit (uint x) 63"
    using signed_take_bit_negative_iff[of 63 "uint x"] by (simp add: sint_uint)
  with e show ?thesis by simp
qed

lemma unat_uminus: "sint x < 0 \<Longrightarrow> int (unat (- x)) = - sint x" for x :: addr
proof -
  assume n: "sint x < 0"
  then have e: "sint x = uint x - 2 ^ 64" using sint_uint_cases[of x] by simp
  have "uint x \<noteq> 0" using n by (auto simp: uint_0_iff)
  then have "uint (- x) = 2 ^ 64 - uint x"
    using uint_lt2p[of x] unsigned_greater_eq[of x]
    by (subst uint_word_ariths) (simp add: zmod_zminus1_eq_if)
  then show ?thesis using e by simp
qed

theorem printint_roundtrip:
  assumes "2 \<le> base" "base \<le> 16"
  shows "read_int base (printint xx base sign) = (if sign then sint xx else uint xx)"
proof -
  have d: "hd (rev (digit_loop base n)) \<noteq> CHR ''-''" for n
    using digit_loop_chars[OF assms, of n] by (metis hd_in_set rev_is_Nil_conv set_rev)
  show ?thesis
    using assms d sint_uint_cases[of xx] unat_uminus[of xx]
    by (auto simp: printint_def printint_buf_def read_int_def Let_def read_digit_loop
        digit_loop_chars)
qed

lemma magnitude_fits:
  assumes "base = 10 \<or> base = (16::nat)"
  shows "x \<le> 2 ^ 63 \<Longrightarrow> x < base ^ 19" "x < 2 ^ 64 \<Longrightarrow> x < base ^ 20"
  using assms by (elim disjE; simp)+

lemma printint_fits:
  assumes "base = 10 \<or> base = 16"
  shows "length (printint_buf xx base sign) \<le> 20"
proof (cases "sign \<and> sint xx < 0")
  case True
  have "- (2 ^ 63) \<le> sint xx" using sint_ge[of xx] by simp
  then have "int (unat (- xx)) \<le> 2 ^ 63" using unat_uminus[of xx] True by linarith
  then have "unat (- xx) \<le> 2 ^ 63"
    by (simp only: of_nat_le_iff[where 'a = int, symmetric] of_nat_power of_nat_numeral)
  then have "unat (- xx) < base ^ 19" by (rule magnitude_fits(1)[OF assms])
  then have "length (digit_loop base (unat (- xx))) \<le> 19" by (rule length_digit_loop) simp
  then show ?thesis using True by (simp add: printint_buf_def Let_def)
next
  case False
  have "unat xx < base ^ 20" by (rule magnitude_fits(2)[OF assms unat_lt64])
  then have "length (digit_loop base (unat xx)) \<le> 20" by (rule length_digit_loop) simp
  then show ?thesis using False by (auto simp: printint_buf_def Let_def)
qed

lemma unat_push_bit4: "unat (push_bit 4 x) = 16 * (unat x mod 2 ^ 60)" for x :: addr
proof -
  have "unat (push_bit 4 x) = take_bit 64 (push_bit 4 (unat x))"
    by (simp add: unsigned_push_bit_eq)
  also have "\<dots> = (unat x * 2 ^ 4) mod (2 ^ 60 * 2 ^ 4)"
    by (simp add: take_bit_eq_mod push_bit_eq_mult)
  also have "\<dots> = unat x mod 2 ^ 60 * 2 ^ 4" by (rule mult_mod_left[symmetric])
  finally show ?thesis by simp
qed

lemma unat_drop_bit60: "unat (drop_bit 60 x) = unat x div 2 ^ 60" for x :: addr
proof -
  have "unat (drop_bit 60 x) = drop_bit 60 (take_bit 64 (unat x))"
    by (simp add: unsigned_drop_bit_eq)
  then show ?thesis
    unfolding take_bit_nat_eq_self[OF unat_lt64[of x]] by (simp only: drop_bit_eq_div)
qed

lemma read_printptr_loop:
  "n \<le> 16 \<Longrightarrow>
   foldl (\<lambda>a c. a * 16 + hexval c) a (printptr_loop n x) = a * 16 ^ n + unat x div 16 ^ (16 - n)"
proof (induction n arbitrary: a x)
  case 0
  have "unat x div 16 ^ 16 = 0" using unat_lt64[of x] by (simp add: div_eq_0_iff)
  then show ?case by simp
next
  case (Suc n)
  define d r where "d = unat x div 2 ^ 60" and "r = unat x mod 2 ^ 60"
  have d16: "d < 16" using unat_lt64[of x] by (simp add: d_def less_mult_imp_div_less)
  have x: "unat x = d * 2 ^ 60 + r" by (simp add: d_def r_def)
  define k where "k = 15 - n"
  then have k: "15 = n + k" using Suc.prems by simp
  have k16: "16 - n = Suc k" "16 - Suc n = k" using k by simp_all
  have "(2::nat) ^ 60 = 16 ^ 15" by simp
  also have "\<dots> = 16 ^ n * 16 ^ k" by (simp only: k power_add)
  finally have p: "(2::nat) ^ 60 = 16 ^ n * 16 ^ k" .
  have "foldl (\<lambda>a c. a * 16 + hexval c) a (printptr_loop (Suc n) x)
      = (a * 16 + d) * 16 ^ n + (16 * r) div 16 ^ Suc k"
    using Suc d16 k16 by (simp add: unat_drop_bit60 unat_push_bit4 d_def r_def)
  also have "(16 * r) div 16 ^ Suc k = r div 16 ^ k" by simp
  finally have l: "foldl (\<lambda>a c. a * 16 + hexval c) a (printptr_loop (Suc n) x)
      = (a * 16 + d) * 16 ^ n + r div 16 ^ k" .
  have "unat x = r + d * 16 ^ n * 16 ^ k" by (simp only: x p mult.assoc add.commute)
  then have "unat x div 16 ^ k = d * 16 ^ n + r div 16 ^ k" by simp
  with l show ?case using k16 by (simp add: algebra_simps)
qed

lemma printptr_roundtrip:
  "length (printptr x) = 18 \<and> read_digits 16 (drop 2 (printptr x)) = unat x"
proof -
  have "length (printptr_loop n x) = n" for n by (induction n arbitrary: x) auto
  then show ?thesis using read_printptr_loop[of 16 0 x] by (simp add: printptr_def read_digits_def)
qed

text \<open>
  A panic prints its message without taking the print lock and freezes the machine's output.
\<close>

lemma format_plain: "CHR ''%'' \<notin> set cs \<Longrightarrow> format cs args = Some cs"
  by (induction cs) auto

lemma printf_panicking [kop_simps]:
  assumes "format fmt args = Some out" "\<not> panicked s" "panicking s" "cpu_wf s"
  shows "printf fmt args s e = Ret 0 (s\<lparr>thr := thr s @ bytes_of out\<rparr>) e"
  using assms by (simp add: printf_def kop_simps)

theorem panic_body_outcome:
  assumes "\<not> panicked s" "cpu_wf s"
  shows "panic_body msg s e =
    Hang (s\<lparr>panicking := True, panicked := True,
            thr := thr s @ bytes_of (''panic: '' @ msg @ [CHR 0x0A])\<rparr>)"
proof -
  have "format (''%s'' @ [CHR 0x0A]) [VS (Some msg)] = Some (msg @ [CHR 0x0A])"
    by (simp add: Let_def)
  moreover have "format ''panic: '' [] = Some ''panic: ''" by simp
  ultimately show ?thesis using assms
    by (simp add: panic_body_def kop_simps bytes_of_def cpu_wf_def)
qed

section \<open>Properties\<close>

text \<open>
  C37: a number printed by \<open>printint\<close> in base 10 or 16 reads back as the value it was given,
  signed or not, including the least signed number; and the digits fit the 20 bytes of its
  buffer.
\<close>

theorem printint_correct:
  assumes "base = 10 \<or> base = 16"
  shows "read_int base (printint xx base sign) = (if sign then sint xx else uint xx) \<and>
    length (printint_buf xx base sign) \<le> 20"
  using assms printint_fits[OF assms] printint_roundtrip[of base xx sign] by auto

theorem printint_correct_witness:
  "read_int 10 (printint (- 9223372036854775808) 10 True) = - 9223372036854775808"
  using printint_correct[of 10 "- 9223372036854775808" True] by simp

text \<open>
  C38: a panic prints its message whatever locks are held, and stops the hart with the console
  frozen: a later \<open>printf\<close> on any hart prints nothing.
\<close>

theorem panic_freezes_console:
  assumes "\<not> panicked s" "cpu_wf s"
  shows "\<exists>s'. panic_body msg s e = Hang s' \<and>
    thr s' = thr s @ bytes_of (''panic: '' @ msg @ [CHR 0x0A]) \<and>
    (\<forall>h fmt args c out. format fmt args = Some (c # out) \<longrightarrow>
       printf fmt args (s'\<lparr>hart := h\<rparr>) e = Hang (s'\<lparr>hart := h\<rparr>))"
  using assms
  by (auto simp: panic_body_outcome printf_def kop_simps uartputc_sync_def consputc_def
      of_char_not_BACKSPACE)

theorem panic_freezes_console_witness:
  "\<exists>s :: kout. \<exists>s'. panic_body ''kfree'' s [] = Hang s' \<and>
     thr s' = bytes_of (''panic: kfree'' @ [CHR 0x0A])"
proof -
  let ?s = "\<lparr>hart = 0,
     csr = (\<lambda>_. \<lparr>sstatus = 0, sepc = 0, stvec = 0, satp = 0, scause = 0, stval = 0, stimecmp = 0,
       mtime = 0\<rparr>),
     cpus = (\<lambda>_. \<lparr>cproc = None, noff = 0, intena = False\<rparr>),
     locks = (\<lambda>_. \<lparr>locked = False, lname = [], lcpu = None\<rparr>),
     thr = [], panicking = False, panicked = False\<rparr> :: kout"
  have "cpu_wf ?s" by (simp add: cpu_wf_def mycpu_def)
  then have "\<exists>s'. panic_body ''kfree'' ?s [] = Hang s' \<and>
     thr s' = bytes_of (''panic: kfree'' @ [CHR 0x0A])"
    using panic_freezes_console[of ?s "''kfree''" "[]"] by auto
  then show ?thesis by blast
qed

end
