(* ===== verification/Cstring.thy ===== *)
theory Cstring
  imports Prelude
begin

text \<open>
  kernel/string.c.  The memory functions work on a byte memory with pointers as numbers; the
  string functions on buffers, a buffer being the bytes from a pointer on.  Each loop is a
  recursive function that follows the C loop, with a closed form of what it computes.
\<close>

type_synonym mem = "nat \<Rightarrow> byte"
type_synonym buf = "nat \<Rightarrow> byte"

section \<open>Memory functions\<close>

fun memset_loop :: "mem \<Rightarrow> nat \<Rightarrow> byte \<Rightarrow> nat \<Rightarrow> nat \<Rightarrow> mem" where
  "memset_loop m dst c i 0 = m"
| "memset_loop m dst c i (Suc k) = memset_loop (m(dst + i := c)) dst c (Suc i) k"

definition memset :: "mem \<Rightarrow> nat \<Rightarrow> byte \<Rightarrow> nat \<Rightarrow> mem" where
  "memset m dst c n = memset_loop m dst c 0 n"

fun memcmp :: "mem \<Rightarrow> nat \<Rightarrow> nat \<Rightarrow> nat \<Rightarrow> int" where
  "memcmp m s1 s2 0 = 0"
| "memcmp m s1 s2 (Suc n) =
     (if m s1 \<noteq> m s2 then uint (m s1) - uint (m s2) else memcmp m (Suc s1) (Suc s2) n)"

fun copy_up :: "mem \<Rightarrow> nat \<Rightarrow> nat \<Rightarrow> nat \<Rightarrow> mem" where
  "copy_up m d s 0 = m"
| "copy_up m d s (Suc n) = copy_up (m(d := m s)) (Suc d) (Suc s) n"

fun copy_down :: "mem \<Rightarrow> nat \<Rightarrow> nat \<Rightarrow> nat \<Rightarrow> mem" where
  "copy_down m d s 0 = m"
| "copy_down m d s (Suc n) = copy_down (m(d - 1 := m (s - 1))) (d - 1) (s - 1) n"

definition memmove :: "mem \<Rightarrow> nat \<Rightarrow> nat \<Rightarrow> nat \<Rightarrow> mem" where
  "memmove m dst src n =
     (if n = 0 then m
      else if src < dst \<and> src + n > dst then copy_down m (dst + n) (src + n) n
      else copy_up m dst src n)"

definition memcpy :: "mem \<Rightarrow> nat \<Rightarrow> nat \<Rightarrow> nat \<Rightarrow> mem" where
  "memcpy m dst src n = memmove m dst src n"

lemma uint_eq_0 [simp]: "uint w = 0 \<longleftrightarrow> w = 0" by (rule uint_0_iff)

lemma uint_eq [simp]: "uint v = uint w \<longleftrightarrow> v = w" by (simp add: word_uint_eq_iff)

lemma memset_loop_eq:
  "memset_loop m dst c i k a = (if dst + i \<le> a \<and> a < dst + i + k then c else m a)"
  by (induction k arbitrary: m i) auto

lemma memset_eq: "memset m dst c n a = (if dst \<le> a \<and> a < dst + n then c else m a)"
  by (simp add: memset_def memset_loop_eq)

lemma memcmp_eq_0: "memcmp m p q n = 0 \<longleftrightarrow> (\<forall>i < n. m (p + i) = m (q + i))"
proof (induction n arbitrary: p q)
  case 0
  then show ?case by simp
next
  case (Suc n)
  have "(\<forall>i < Suc n. m (p + i) = m (q + i)) \<longleftrightarrow>
      m p = m q \<and> (\<forall>i < n. m (Suc p + i) = m (Suc q + i))"
    by (metis add_0_right add_Suc_shift less_Suc_eq_0_disj)
  then show ?case using Suc by auto
qed

lemma copy_up_eq:
  "\<not> (s < d \<and> d < s + n) \<Longrightarrow>
   copy_up m d s n a = (if d \<le> a \<and> a < d + n then m (s + (a - d)) else m a)"
proof (induction n arbitrary: m d s)
  case 0
  then show ?case by auto
next
  case (Suc n)
  have IH: "copy_up (m(d := m s)) (Suc d) (Suc s) n a =
      (if Suc d \<le> a \<and> a < Suc d + n then (m(d := m s)) (Suc s + (a - Suc d)) else (m(d := m s)) a)"
    using Suc.prems by (intro Suc.IH) auto
  show ?case using Suc.prems unfolding copy_up.simps IH
    by (cases "d = a") (auto simp: Suc_diff_Suc intro!: arg_cong[of _ _ m])
qed

lemma copy_down_eq:
  "n \<le> s \<Longrightarrow> s < d \<Longrightarrow>
   copy_down m d s n a = (if d - n \<le> a \<and> a < d then m (s - (d - a)) else m a)"
proof (induction n arbitrary: m d s)
  case 0
  then show ?case by auto
next
  case (Suc n)
  have IH: "copy_down (m(d - 1 := m (s - 1))) (d - 1) (s - 1) n a =
      (if d - 1 - n \<le> a \<and> a < d - 1 then (m(d - 1 := m (s - 1))) (s - 1 - (d - 1 - a))
       else (m(d - 1 := m (s - 1))) a)"
    using Suc.prems by (intro Suc.IH) auto
  show ?case using Suc.prems unfolding copy_down.simps IH by (cases "a = d - 1") auto
qed

theorem memmove_eq:
  "memmove m dst src n a = (if dst \<le> a \<and> a < dst + n then m (src + (a - dst)) else m a)"
  by (auto simp: memmove_def copy_up_eq copy_down_eq)

section \<open>String functions\<close>

fun strncmp_from :: "buf \<Rightarrow> buf \<Rightarrow> nat \<Rightarrow> nat \<Rightarrow> int" where
  "strncmp_from p q i 0 = 0"
| "strncmp_from p q i (Suc n) =
     (if p i \<noteq> 0 \<and> p i = q i then strncmp_from p q (Suc i) n else uint (p i) - uint (q i))"

definition strncmp :: "buf \<Rightarrow> buf \<Rightarrow> nat \<Rightarrow> int" where
  "strncmp p q n = strncmp_from p q 0 n"

function strncpy_copy :: "buf \<Rightarrow> buf \<Rightarrow> nat \<Rightarrow> int \<Rightarrow> buf \<times> nat \<times> int" where
  "strncpy_copy s t i n =
     (if n > 0 then
        (if t i \<noteq> 0 then strncpy_copy (s(i := t i)) t (Suc i) (n - 1)
         else (s(i := t i), Suc i, n - 1))
      else (s, i, n - 1))"
  by pat_completeness auto
termination by (relation "measure (\<lambda>(s, t, i, n). nat n)") auto

function strncpy_pad :: "buf \<Rightarrow> nat \<Rightarrow> int \<Rightarrow> buf" where
  "strncpy_pad s i n = (if n > 0 then strncpy_pad (s(i := 0)) (Suc i) (n - 1) else s)"
  by pat_completeness auto
termination by (relation "measure (\<lambda>(s, i, n). nat n)") auto

definition strncpy :: "buf \<Rightarrow> buf \<Rightarrow> int \<Rightarrow> buf" where
  "strncpy s t n = (case strncpy_copy s t 0 n of (s', i, n') \<Rightarrow> strncpy_pad s' i n')"

function safestrcpy_copy :: "buf \<Rightarrow> buf \<Rightarrow> nat \<Rightarrow> int \<Rightarrow> buf \<times> nat" where
  "safestrcpy_copy s t i n =
     (if n - 1 > 0 then
        (if t i \<noteq> 0 then safestrcpy_copy (s(i := t i)) t (Suc i) (n - 1)
         else (s(i := t i), Suc i))
      else (s, i))"
  by pat_completeness auto
termination by (relation "measure (\<lambda>(s, t, i, n). nat n)") auto

definition safestrcpy :: "buf \<Rightarrow> buf \<Rightarrow> int \<Rightarrow> buf" where
  "safestrcpy s t n =
     (if n \<le> 0 then s else (case safestrcpy_copy s t 0 n of (s', i) \<Rightarrow> s'(i := 0)))"

text \<open>A string without a terminating NUL has no length: the loop does not end.\<close>

partial_function (option) strlen_from :: "buf \<Rightarrow> nat \<Rightarrow> nat option" where
  "strlen_from s n = (if s n = 0 then Some n else strlen_from s (Suc n))"

definition strlen :: "buf \<Rightarrow> nat option" where
  "strlen s = strlen_from s 0"

declare strncpy_copy.simps [simp del] strncpy_pad.simps [simp del] safestrcpy_copy.simps [simp del]

text \<open>Equal up to \<open>n\<close> characters or up to a common NUL.\<close>

lemma strncmp_from_eq_0:
  "strncmp_from p q i n = 0 \<longleftrightarrow>
     (\<forall>k < n. p (i + k) = q (i + k) \<or> (\<exists>j < k. p (i + j) = 0 \<and> q (i + j) = 0))"
proof (induction n arbitrary: i)
  case 0
  then show ?case by simp
next
  case (Suc n)
  have split: "(\<forall>k < Suc n. P k) \<longleftrightarrow> P 0 \<and> (\<forall>k < n. P (Suc k))" for P
    by (metis less_Suc_eq_0_disj)
  have ex: "(\<exists>j < Suc k. Q j) \<longleftrightarrow> Q 0 \<or> (\<exists>j < k. Q (Suc j))" for k and Q :: "nat \<Rightarrow> bool"
    by (metis less_Suc_eq_0_disj)
  show ?case
    using Suc[of "Suc i"] by (auto simp: split ex)
qed

lemma strncpy_pad_eq:
  "strncpy_pad s i n a = (if i \<le> a \<and> int (a - i) < n then 0 else s a)"
proof (induction s i n rule: strncpy_pad.induct)
  case (1 s i n)
  show ?case
  proof (cases "n > 0")
    case True
    have "strncpy_pad s i n a = strncpy_pad (s(i := 0)) (Suc i) (n - 1) a"
      using True by (subst strncpy_pad.simps) simp
    also have "\<dots> = (if Suc i \<le> a \<and> int (a - Suc i) < n - 1 then 0 else (s(i := 0)) a)"
      by (rule "1.IH"[OF True])
    finally show ?thesis using True by (cases "a = i") (auto simp: of_nat_diff)
  next
    case False
    then show ?thesis by (subst strncpy_pad.simps) auto
  qed
qed

lemma strncpy_run_eq:
  "(case strncpy_copy s t i n of (s', i', n') \<Rightarrow> strncpy_pad s' i' n') a =
     (if i \<le> a \<and> int (a - i) < n
      then (if \<exists>j. i \<le> j \<and> j < a \<and> t j = 0 then 0 else t a) else s a)"
proof (induction s t i n rule: strncpy_copy.induct)
  case (1 s t i n)
  consider (stop) "n \<le> 0" | (nul) "n > 0" "t i = 0" | (go) "n > 0" "t i \<noteq> 0" by linarith
  then show ?case
  proof cases
    case stop
    then show ?thesis by (subst strncpy_copy.simps) (auto simp: strncpy_pad_eq)
  next
    case nul
    then show ?thesis
      by (subst strncpy_copy.simps) (cases "a = i", auto simp: strncpy_pad_eq of_nat_diff)
  next
    case go
    have ex: "(\<exists>j. i \<le> j \<and> j < a \<and> t j = 0) \<longleftrightarrow> (\<exists>j. Suc i \<le> j \<and> j < a \<and> t j = 0)"
      using go(2) by (metis Suc_leD Suc_leI le_neq_implies_less)
    have "(case strncpy_copy s t i n of (s', i', n') \<Rightarrow> strncpy_pad s' i' n') a =
        (case strncpy_copy (s(i := t i)) t (Suc i) (n - 1) of (s', i', n') \<Rightarrow> strncpy_pad s' i' n') a"
      using go by (subst strncpy_copy.simps) simp
    also note "1.IH"[OF go]
    finally show ?thesis using go by (cases "a = i") (auto simp: ex of_nat_diff)
  qed
qed

theorem strncpy_eq:
  "strncpy s t n a =
     (if int a < n then (if \<exists>j < a. t j = 0 then 0 else t a) else s a)"
  using strncpy_run_eq[of s t 0 n a] by (simp add: strncpy_def)

lemma safestrcpy_copy_eq:
  assumes "n > 0" "safestrcpy_copy s t i n = (s', i')"
  shows "i \<le> i' \<and> int (i' - i) < n \<and> (\<forall>a. s' a = (if i \<le> a \<and> a < i' then t a else s a)) \<and>
    (\<forall>a. i \<le> a \<and> Suc a < i' \<longrightarrow> t a \<noteq> 0) \<and> (int (i' - i) < n - 1 \<longrightarrow> i < i' \<and> t (i' - 1) = 0)"
  using assms
proof (induction s t i n arbitrary: s' i' rule: safestrcpy_copy.induct)
  case (1 s t i n)
  consider (stop) "n - 1 \<le> 0" | (nul) "n - 1 > 0" "t i = 0" | (go) "n - 1 > 0" "t i \<noteq> 0"
    by linarith
  then show ?case
  proof cases
    case stop
    then show ?thesis using "1.prems" by (auto simp: safestrcpy_copy.simps[of s t i n])
  next
    case nul
    then show ?thesis using "1.prems"
      by (auto simp: safestrcpy_copy.simps[of s t i n] less_Suc_eq)
  next
    case go
    have r: "safestrcpy_copy (s(i := t i)) t (Suc i) (n - 1) = (s', i')"
      using "1.prems"(2) go by (simp add: safestrcpy_copy.simps[of s t i n])
    note IH = "1.IH"[OF go go(1) r]
    have "t a \<noteq> 0" if "i \<le> a" "Suc a < i'" for a
      using IH go(2) that by (cases "a = i") auto
    moreover have "s' a = (if i \<le> a \<and> a < i' then t a else s a)" for a
      using IH by (cases "a = i") auto
    moreover have "i \<le> i'" "int (i' - i) < n" "int (i' - i) < n - 1 \<Longrightarrow> i < i' \<and> t (i' - 1) = 0"
      using IH by (auto simp: of_nat_diff)
    ultimately show ?thesis by blast
  qed
qed

text \<open>
  \<open>safestrcpy\<close> always terminates the destination within its \<open>n\<close> bytes, copies the source up to
  there, and leaves the bytes behind it alone.
\<close>

theorem safestrcpy_terminates:
  assumes "n > 0"
  shows "\<exists>k. int k < n \<and> safestrcpy s t n k = 0 \<and> (\<forall>a < k. safestrcpy s t n a = t a) \<and>
    (\<forall>a > k. safestrcpy s t n a = s a) \<and> (int k < n - 1 \<longrightarrow> (\<exists>j < k. t j = 0))"
proof -
  obtain s' k where r: "safestrcpy_copy s t 0 n = (s', k)" by fastforce
  note e = safestrcpy_copy_eq[OF assms r]
  have "int k < n - 1 \<longrightarrow> (\<exists>j < k. t j = 0)"
    using e by (metis diff_Suc_less diff_zero One_nat_def)
  then show ?thesis using e assms r
    by (intro exI[of _ k]) (auto simp: safestrcpy_def)
qed

lemma strlen_from_eq:
  "s k = 0 \<Longrightarrow> n \<le> k \<Longrightarrow> (\<forall>j. n \<le> j \<and> j < k \<longrightarrow> s j \<noteq> 0) \<Longrightarrow> strlen_from s n = Some k"
proof (induction "k - n" arbitrary: n)
  case 0
  then show ?case by (simp add: strlen_from.simps)
next
  case (Suc d)
  then have "s n \<noteq> 0" by (metis le_refl less_or_eq_imp_le nat_less_le zero_less_diff zero_less_Suc)
  moreover have "strlen_from s (Suc n) = Some k" using Suc by (intro Suc.hyps(1)) auto
  ultimately show ?case by (subst strlen_from.simps) simp
qed

theorem strlen_total:
  assumes "s k = 0"
  shows "\<exists>n \<le> k. strlen s = Some n \<and> s n = 0 \<and> (\<forall>j < n. s j \<noteq> 0)"
proof -
  define n where "n = (LEAST j. s j = 0)"
  have "s n = 0" "n \<le> k" "\<forall>j < n. s j \<noteq> 0"
    unfolding n_def using assms by (rule LeastI, rule Least_le) (auto dest: not_less_Least)
  moreover have "strlen s = Some n"
    unfolding strlen_def using calculation by (intro strlen_from_eq) auto
  ultimately show ?thesis by blast
qed

section \<open>Properties\<close>

text \<open>
  \<open>memmove\<close> copies the bytes that were in the source, however the two areas overlap, and
  writes nothing else.
\<close>

theorem memmove_overlap_safe:
  "memmove m dst src n a = (if dst \<le> a \<and> a < dst + n then m (src + (a - dst)) else m a)"
  by (rule memmove_eq)

text \<open>
  \<open>safestrcpy\<close> into a buffer of \<open>n > 0\<close> bytes always leaves a terminated string: a prefix
  of the source, all of it when it fits, with no byte written beyond the terminator.
\<close>

theorem safestrcpy_bounded:
  assumes "n > 0"
  shows "\<exists>k. int k < n \<and> safestrcpy s t n k = 0 \<and> (\<forall>a < k. safestrcpy s t n a = t a) \<and>
    (\<forall>a > k. safestrcpy s t n a = s a) \<and> (int k < n - 1 \<longrightarrow> (\<exists>j < k. t j = 0))"
  using safestrcpy_terminates[OF assms] .

theorem safestrcpy_bounded_witness:
  "\<exists>k < 16. safestrcpy (\<lambda>_. 7) (\<lambda>_. 65) 16 k = 0"
proof -
  obtain k where "int k < 16" "safestrcpy (\<lambda>_. 7) (\<lambda>_. 65) 16 k = 0"
    using safestrcpy_bounded[of 16 "\<lambda>_. 7" "\<lambda>_. 65"] by auto
  then show ?thesis by (intro exI[of _ k]) simp
qed

end
