(* ===== verification/Kalloc.thy ===== *)
theory Kalloc
  imports Printf Cstring
begin

text \<open>
  kernel/kalloc.c, the physical page allocator.  A free page holds in its first eight bytes the
  address of the next free page; the list hangs off \<open>freelist\<close>.  The allocator is shown to
  implement a stack of distinct page addresses (\<open>kmem_inv\<close>), which is the contract other
  components use (locale \<open>page_pool\<close>).
\<close>

section \<open>State\<close>

text \<open>\<open>kend\<close> is the linker's symbol \<open>end\<close>, the first address after the kernel.\<close>

record kmemst = kout +
  mem :: mem
  freelist :: addr
  kend :: addr

text \<open>A 64-bit cell in memory, least significant byte first.\<close>

definition load64 :: "mem \<Rightarrow> nat \<Rightarrow> addr" where
  "load64 m a = of_nat (\<Sum>i < 8. unat (m (a + i)) * 256 ^ i)"

definition store64 :: "mem \<Rightarrow> nat \<Rightarrow> addr \<Rightarrow> mem" where
  "store64 m a v =
     (\<lambda>x. if a \<le> x \<and> x < a + 8 then of_nat (unat v div 256 ^ (x - a)) else m x)"

section \<open>Operations\<close>

definition kfree :: "addr \<Rightarrow> ('z kmemst_scheme, unit) kop" where
  "kfree pa =
     bnd (rd (\<lambda>s. pa mod PGSIZE \<noteq> 0 \<or> pa < kend s \<or> pa \<ge> PHYSTOP)) (\<lambda>bad.
     if bad then panic ''kfree'' else
     thn (upd (\<lambda>s. s\<lparr>mem := memset (mem s) (unat pa) 1 (unat PGSIZE)\<rparr>)) (
     thn (acquire L_kmem) (
     thn (upd (\<lambda>s. s\<lparr>mem := store64 (mem s) (unat pa) (freelist s)\<rparr>)) (
     thn (upd (\<lambda>s. s\<lparr>freelist := pa\<rparr>))
     (release L_kmem)))))"

definition kalloc :: "('z kmemst_scheme, addr) kop" where
  "kalloc =
     thn (acquire L_kmem) (
     bnd (rd freelist) (\<lambda>r.
     thn (if r \<noteq> 0 then upd (\<lambda>s. s\<lparr>freelist := load64 (mem s) (unat r)\<rparr>) else ret ()) (
     thn (release L_kmem) (
     thn (if r \<noteq> 0 then upd (\<lambda>s. s\<lparr>mem := memset (mem s) (unat r) 5 (unat PGSIZE)\<rparr>) else ret ()) (
     ret r)))))"

text \<open>A pointer that would overflow the address space is undefined in C.\<close>

function freerange_loop :: "addr \<Rightarrow> addr \<Rightarrow> ('z kmemst_scheme, unit) kop" where
  "freerange_loop p pa_end =
     (if p + PGSIZE \<le> p then undefined_behaviour
      else if p + PGSIZE \<le> pa_end then thn (kfree p) (freerange_loop (p + PGSIZE) pa_end)
      else ret ())"
  by pat_completeness auto
termination
  by (relation "measure (\<lambda>(p, q). 2 ^ 64 - unat p)")
     (auto simp: word_less_nat_alt not_le intro!: diff_less_mono2 unat_lt64[simplified])

declare freerange_loop.simps [simp del]

definition freerange :: "addr \<Rightarrow> addr \<Rightarrow> ('z kmemst_scheme, unit) kop" where
  "freerange pa_start pa_end = freerange_loop (PGROUNDUP pa_start) pa_end"

definition kinit :: "('z kmemst_scheme, unit) kop" where
  "kinit =
     thn (initlock L_kmem ''kmem'')
     (bnd (rd kend) (\<lambda>k. freerange k PHYSTOP))"

lemma env_le_kalloc [env_intros]: "env_le kalloc" "env_le (kfree pa)"
  unfolding kalloc_def kfree_def by (intro env_intros)+

section \<open>Frame facts\<close>

lemma mem_frame [simp, frame_simps]:
  "cpuid (mem_update g s) = cpuid s" "mycpu (mem_update g s) = mycpu s"
  "intr_get (mem_update g s) = intr_get s"
  "is_holding L (mem_update g s) = is_holding L s" "lock_free L (mem_update g s) = lock_free L s"
  "cpu_wf (mem_update g s) = cpu_wf s" "touch (mem_update g s) = mem_update g (touch s)"
  "acq L (mem_update g s) = mem_update g (acq L s)"
  "rel L (mem_update g s) = mem_update g (rel L s)"
  by (simp_all add: base_defs intr_get_def r_sstatus_def intr_on_def intr_off_def w_sstatus_def)

lemma freelist_frame [simp, frame_simps]:
  "cpuid (freelist_update g s) = cpuid s" "mycpu (freelist_update g s) = mycpu s"
  "intr_get (freelist_update g s) = intr_get s"
  "is_holding L (freelist_update g s) = is_holding L s"
  "lock_free L (freelist_update g s) = lock_free L s"
  "cpu_wf (freelist_update g s) = cpu_wf s"
  "touch (freelist_update g s) = freelist_update g (touch s)"
  "acq L (freelist_update g s) = freelist_update g (acq L s)"
  "rel L (freelist_update g s) = freelist_update g (rel L s)"
  by (simp_all add: base_defs intr_get_def r_sstatus_def intr_on_def intr_off_def w_sstatus_def)

lemma kmemst_frame [simp, frame_simps]:
  "mem (touch s) = mem s" "freelist (touch s) = freelist s" "kend (touch s) = kend s"
  "mem (acq L s) = mem s" "freelist (acq L s) = freelist s" "kend (acq L s) = kend s"
  "mem (rel L s) = mem s" "freelist (rel L s) = freelist s" "kend (rel L s) = kend s"
  by (simp_all add: base_defs intr_on_def intr_off_def w_sstatus_def)

section \<open>Cells\<close>

lemma digits_sum: "(\<Sum>i < n. (v div b ^ i mod b) * b ^ i) = v mod b ^ n" for v b :: nat
proof (induction n)
  case 0
  then show ?case by simp
next
  case (Suc n)
  have "v mod b ^ Suc n = b ^ n * (v div b ^ n mod b) + v mod b ^ n"
    unfolding power_Suc2 by (rule mod_mult2_eq)
  then show ?case using Suc by simp
qed

lemma load64_store64 [simp]: "load64 (store64 m a v) a = v"
proof -
  have "(\<Sum>i < 8. unat (store64 m a v (a + i)) * 256 ^ i)
      = (\<Sum>i < 8. (unat v div 256 ^ i mod 256) * 256 ^ i)"
    by (rule sum.cong) (auto simp: store64_def unat_of_nat)
  also have "\<dots> = unat v mod 256 ^ 8" by (rule digits_sum)
  also have "\<dots> = unat v" using unat_lt64[of v] by simp
  finally show ?thesis by (simp add: load64_def)
qed

lemma load64_cong: "(\<And>i. i < 8 \<Longrightarrow> m (a + i) = m' (a + i)) \<Longrightarrow> load64 m a = load64 m' a"
  unfolding load64_def by (rule arg_cong[where f = of_nat], rule sum.cong) auto

text \<open>Distinct aligned pages do not overlap.\<close>

definition aligned :: "addr \<Rightarrow> bool" where "aligned x \<longleftrightarrow> unat x mod 4096 = 0"

lemma aligned_iff: "aligned x \<longleftrightarrow> x mod PGSIZE = 0"
  by (simp add: aligned_def PGSIZE_def word_unat_eq_iff unat_mod_distrib)

lemma alignedE:
  assumes "aligned x"
  obtains k where "unat x = 4096 * k"
proof -
  have "4096 dvd unat x" using assms by (simp add: aligned_def dvd_eq_mod_eq_0)
  then show ?thesis using that by (auto elim: dvdE)
qed

lemma pages_disjoint:
  assumes "aligned x" "aligned y" "x \<noteq> y"
  shows "unat x + 4096 \<le> unat y \<or> unat y + 4096 \<le> unat x"
proof -
  obtain a where "unat x = 4096 * a" using assms(1) by (rule alignedE)
  moreover obtain b where "unat y = 4096 * b" using assms(2) by (rule alignedE)
  moreover have "unat x \<noteq> unat y" using assms(3) by (metis word_unat_eq_iff)
  ultimately show ?thesis by auto
qed

lemma PGSIZE_nat [simp]: "unat PGSIZE = 4096"
  by (simp add: PGSIZE_def)

lemma load64_other_page:
  assumes "aligned x" "aligned y" "x \<noteq> y"
  shows "load64 (memset m (unat y) c 4096) (unat x) = load64 m (unat x)"
    and "load64 (store64 m (unat y) v) (unat x) = load64 m (unat x)"
  using pages_disjoint[OF assms]
  by (auto intro!: load64_cong simp: memset_eq store64_def)

section \<open>The free list as a stack of pages\<close>

fun chain :: "mem \<Rightarrow> addr \<Rightarrow> addr list \<Rightarrow> bool" where
  "chain m p [] \<longleftrightarrow> p = 0"
| "chain m p (x # xs) \<longleftrightarrow> p = x \<and> x \<noteq> 0 \<and> chain m (load64 m (unat x)) xs"

definition page_ok :: "'z kmemst_scheme \<Rightarrow> addr \<Rightarrow> bool" where
  "page_ok s x \<longleftrightarrow> aligned x \<and> kend s \<le> x \<and> x < PHYSTOP"

definition kmem_inv :: "'z kmemst_scheme \<Rightarrow> addr list \<Rightarrow> bool" where
  "kmem_inv s xs \<longleftrightarrow>
     chain (mem s) (freelist s) xs \<and> distinct xs \<and> (\<forall>x \<in> set xs. page_ok s x) \<and> 0 < kend s"

definition kmem_ready :: "'z kmemst_scheme \<Rightarrow> bool" where
  "kmem_ready s \<longleftrightarrow> lock_free L_kmem s \<and> cpu_wf s"

lemma chain_other_page:
  assumes "aligned y" "\<forall>x \<in> set xs. aligned x \<and> x \<noteq> y"
  shows "chain (memset m (unat y) c 4096) p xs = chain m p xs"
    and "chain (store64 m (unat y) v) p xs = chain m p xs"
  using assms by (induction xs arbitrary: p) (auto simp: load64_other_page)

lemma kmem_inv_frame [simp]:
  "kmem_inv (touch s) xs = kmem_inv s xs" "page_ok (touch s) = page_ok s"
  "kmem_ready (touch s) = kmem_ready s"
  by (simp_all add: kmem_inv_def page_ok_def fun_eq_iff kmem_ready_def)

definition kfree_st :: "addr \<Rightarrow> 'z kmemst_scheme \<Rightarrow> 'z kmemst_scheme" where
  "kfree_st pa s = (touch s)\<lparr>
     mem := store64 (memset (mem s) (unat pa) 1 4096) (unat pa) (freelist s), freelist := pa\<rparr>"

definition kalloc_st :: "'z kmemst_scheme \<Rightarrow> 'z kmemst_scheme" where
  "kalloc_st s =
     (if freelist s = 0 then touch s
      else (touch s)\<lparr>freelist := load64 (mem s) (unat (freelist s)),
                     mem := memset (mem s) (unat (freelist s)) 5 4096\<rparr>)"

lemma kfree_Ret [kop_simps]:
  assumes "page_ok s pa" "kmem_ready s"
  shows "kfree pa s e = Ret () (kfree_st pa s) e"
  using assms by (simp add: kfree_def kop_simps kmem_ready_def page_ok_def lock_freeD not_le
      not_less aligned_iff cpu_wf_def[of s] kfree_st_def)

lemma kalloc_Ret [kop_simps]:
  assumes "kmem_ready s"
  shows "kalloc s e = Ret (freelist s) (kalloc_st s) e"
  using assms by (auto simp: kalloc_def kop_simps kmem_ready_def lock_freeD cpu_wf_def[of s]
      kalloc_st_def)

lemma kfree_bad:
  assumes "\<not> page_ok s pa"
  shows "kfree pa s e = Panic ''kfree'' s"
proof -
  have "(pa mod PGSIZE \<noteq> 0 \<or> pa < kend s \<or> pa \<ge> PHYSTOP) = True"
    using assms unfolding page_ok_def aligned_iff by (metis not_le)
  then show ?thesis by (simp only: kfree_def bnd_def rd_app outcome.case if_True panic_app)
qed

lemma kfree_st_inv:
  assumes "kmem_inv s xs" "page_ok s pa" "pa \<notin> set xs"
  shows "kmem_inv (kfree_st pa s) (pa # xs)"
proof -
  have al: "aligned pa" "\<forall>x \<in> set xs. aligned x \<and> x \<noteq> pa"
    using assms by (auto simp: kmem_inv_def page_ok_def)
  have "pa \<noteq> 0" using assms by (auto simp: kmem_inv_def page_ok_def)
  then show ?thesis using assms chain_other_page[OF al]
    by (simp add: kmem_inv_def kfree_st_def page_ok_def)
qed

lemma kalloc_st_inv:
  assumes "kmem_inv s (x # xs)"
  shows "freelist s = x \<and> x \<noteq> 0 \<and> kmem_inv (kalloc_st s) xs"
proof -
  have al: "aligned x" "\<forall>y \<in> set xs. aligned y \<and> y \<noteq> x"
    using assms by (auto simp: kmem_inv_def page_ok_def)
  then show ?thesis using assms chain_other_page(1)[OF al]
    by (simp add: kmem_inv_def kalloc_st_def page_ok_def)
qed

lemma kalloc_st_empty: "kmem_inv s [] \<Longrightarrow> freelist s = 0 \<and> kmem_inv (kalloc_st s) []"
  by (simp add: kmem_inv_def kalloc_st_def)

lemma kst_frame [simp]:
  "kmem_ready (kfree_st pa s) = kmem_ready s" "kmem_ready (kalloc_st s) = kmem_ready s"
  "page_ok (kfree_st pa s) = page_ok s" "page_ok (kalloc_st s) = page_ok s"
  "kend (kfree_st pa s) = kend s" "kend (kalloc_st s) = kend s"
  by (simp_all add: kfree_st_def kalloc_st_def kmem_ready_def page_ok_def fun_eq_iff)

section \<open>The contract of the page allocator\<close>

text \<open>
  What the rest of the kernel relies on: a pool of pages, abstracted to the stack of those that
  are free.
\<close>

locale page_pool =
  fixes inv :: "'s \<Rightarrow> addr list \<Rightarrow> bool"
    and ready :: "'s \<Rightarrow> bool"
    and ok :: "'s \<Rightarrow> addr \<Rightarrow> bool"
    and alloc :: "('s, addr) kop"
    and free :: "addr \<Rightarrow> ('s, unit) kop"
  assumes inv_distinct: "inv s xs \<Longrightarrow> distinct xs \<and> 0 \<notin> set xs"
    and alloc_empty: "inv s [] \<Longrightarrow> ready s \<Longrightarrow>
      \<exists>s'. alloc s e = Ret 0 s' e \<and> inv s' [] \<and> ready s' \<and> ok s' = ok s"
    and alloc_page: "inv s (x # xs) \<Longrightarrow> ready s \<Longrightarrow>
      \<exists>s'. alloc s e = Ret x s' e \<and> inv s' xs \<and> ready s' \<and> ok s' = ok s"
    and free_page: "inv s xs \<Longrightarrow> ready s \<Longrightarrow> ok s x \<Longrightarrow> x \<notin> set xs \<Longrightarrow>
      \<exists>s'. free x s e = Ret () s' e \<and> inv s' (x # xs) \<and> ready s' \<and> ok s' = ok s"
begin

primrec allocs :: "nat \<Rightarrow> ('s, addr list) kop" where
  "allocs 0 = ret []"
| "allocs (Suc n) = bnd alloc (\<lambda>x. bnd (allocs n) (\<lambda>xs. ret (x # xs)))"

primrec frees :: "addr list \<Rightarrow> ('s, unit) kop" where
  "frees [] = ret ()"
| "frees (x # xs) = thn (free x) (frees xs)"

lemma allocs_exact:
  assumes "inv s (xs @ ys)" "ready s"
  shows "\<exists>s'. allocs (length xs) s e = Ret xs s' e \<and> inv s' ys \<and> ready s' \<and> ok s' = ok s"
  using assms
proof (induction xs arbitrary: s)
  case Nil
  then show ?case by auto
next
  case (Cons x xs)
  obtain s1 where s1: "alloc s e = Ret x s1 e" "inv s1 (xs @ ys)" "ready s1" "ok s1 = ok s"
    using alloc_page[of s x "xs @ ys" e] Cons.prems by auto
  from Cons.IH[OF s1(2,3)] obtain s2 where
    "allocs (length xs) s1 e = Ret xs s2 e" "inv s2 ys" "ready s2" "ok s2 = ok s1" by auto
  then show ?case using s1 by (auto simp: kop_simps)
qed

lemma frees_exact:
  assumes "inv s ys" "ready s" "\<forall>x \<in> set xs. ok s x" "distinct xs" "set xs \<inter> set ys = {}"
  shows "\<exists>s'. frees xs s e = Ret () s' e \<and> inv s' (rev xs @ ys) \<and> ready s' \<and> ok s' = ok s"
  using assms
proof (induction xs arbitrary: s ys)
  case Nil
  then show ?case by auto
next
  case (Cons x xs)
  obtain s1 where s1: "free x s e = Ret () s1 e" "inv s1 (x # ys)" "ready s1" "ok s1 = ok s"
    using free_page[of s ys x e] Cons.prems by auto
  have "\<forall>y \<in> set xs. ok s1 y" "distinct xs" "set xs \<inter> set (x # ys) = {}"
    using Cons.prems s1(4) by auto
  from Cons.IH[OF s1(2,3) this] obtain s2 where
    "frees xs s1 e = Ret () s2 e" "inv s2 (rev xs @ x # ys)" "ready s2" "ok s2 = ok s1" by auto
  then show ?case using s1 by (auto simp: kop_simps thn_def)
qed

text \<open>Allocating as many pages as were freed gives the same pages, last freed first.\<close>

lemma frees_allocs:
  assumes "inv s ys" "ready s" "\<forall>x \<in> set xs. ok s x" "distinct xs" "set xs \<inter> set ys = {}"
  shows "\<exists>s'. thn (frees xs) (allocs (length xs)) s e = Ret (rev xs) s' e \<and> inv s' ys"
proof -
  obtain s1 where s1: "frees xs s e = Ret () s1 e" "inv s1 (rev xs @ ys)" "ready s1"
    using frees_exact[OF assms] by blast
  from allocs_exact[OF s1(2,3)] obtain s2 where
    "allocs (length (rev xs)) s1 e = Ret (rev xs) s2 e" "inv s2 ys" by blast
  then show ?thesis using s1 by (auto simp: kop_simps)
qed

end

interpretation kmem: page_pool kmem_inv kmem_ready page_ok kalloc kfree
proof unfold_locales
  fix s :: "'z kmemst_scheme" and xs
  show "kmem_inv s xs \<Longrightarrow> distinct xs \<and> 0 \<notin> set xs"
    by (auto simp: kmem_inv_def page_ok_def)
next
  fix s :: "'z kmemst_scheme" and e
  show "kmem_inv s [] \<Longrightarrow> kmem_ready s \<Longrightarrow>
      \<exists>s'. kalloc s e = Ret 0 s' e \<and> kmem_inv s' [] \<and> kmem_ready s' \<and> page_ok s' = page_ok s"
    by (auto simp: kalloc_Ret dest!: kalloc_st_empty)
next
  fix s :: "'z kmemst_scheme" and x xs e
  show "kmem_inv s (x # xs) \<Longrightarrow> kmem_ready s \<Longrightarrow>
      \<exists>s'. kalloc s e = Ret x s' e \<and> kmem_inv s' xs \<and> kmem_ready s' \<and> page_ok s' = page_ok s"
    by (auto simp: kalloc_Ret dest!: kalloc_st_inv)
next
  fix s :: "'z kmemst_scheme" and x xs e
  show "kmem_inv s xs \<Longrightarrow> kmem_ready s \<Longrightarrow> page_ok s x \<Longrightarrow> x \<notin> set xs \<Longrightarrow>
      \<exists>s'. kfree x s e = Ret () s' e \<and> kmem_inv s' (x # xs) \<and> kmem_ready s' \<and> page_ok s' = page_ok s"
    by (auto simp: kfree_Ret intro: kfree_st_inv)
qed

section \<open>Initialisation\<close>

lemma PHYSTOP_nat [simp]: "unat PHYSTOP = 0x88000000"
  by (simp add: PHYSTOP_def KERNBASE_def)

lemma next_page:
  assumes "aligned p" "p < PHYSTOP"
  shows "unat (p + PGSIZE) = unat p + 4096" "aligned (p + PGSIZE)" "p + PGSIZE \<le> PHYSTOP"
    "\<not> p + PGSIZE \<le> p"
proof -
  have lt: "unat p < 0x88000000" using assms(2) by (simp add: word_less_nat_alt)
  show e: "unat (p + PGSIZE) = unat p + 4096" using lt
    by (simp add: unat_word_ariths)
  show "aligned (p + PGSIZE)" using assms(1) e by (simp add: aligned_def)
  obtain k where k: "unat p = 4096 * k"
    using assms(1) by (rule alignedE)
  then have "unat p + 4096 \<le> 0x88000000" using lt by simp
  then show "p + PGSIZE \<le> PHYSTOP" using e by (simp add: word_le_nat_alt)
  show "\<not> p + PGSIZE \<le> p" using e by (simp add: word_le_nat_alt)
qed

lemma aligned_above:
  assumes "aligned p" "p < PHYSTOP"
  shows "{x. aligned x \<and> p \<le> x \<and> x < PHYSTOP} =
    insert p {x. aligned x \<and> p + PGSIZE \<le> x \<and> x < PHYSTOP}"
proof -
  have "p + PGSIZE \<le> x \<longleftrightarrow> p \<le> x \<and> x \<noteq> p" if "aligned x" for x
    using pages_disjoint[OF assms(1) that] next_page(1)[OF assms]
    by (auto simp: word_le_nat_alt)
  then show ?thesis using assms by auto
qed

lemma freerange_loop_frees:
  assumes "aligned p" "p \<le> PHYSTOP" "kend s \<le> p" "kmem_ready s" "kmem_inv s xs" "\<forall>x \<in> set xs. x < p"
  shows "\<exists>s' ys. freerange_loop p PHYSTOP s e = Ret () s' e \<and> kmem_inv s' (ys @ xs) \<and>
    set ys = {x. aligned x \<and> p \<le> x \<and> x < PHYSTOP} \<and> kmem_ready s' \<and> kend s' = kend s"
  using assms
proof (induction "unat PHYSTOP - unat p" arbitrary: p s xs rule: less_induct)
  case less
  show ?case
  proof (cases "p < PHYSTOP")
    case True
    note n = next_page[OF less.prems(1) True]
    have ok: "page_ok s p" using less.prems True by (simp add: page_ok_def)
    have "freerange_loop p PHYSTOP s e = freerange_loop (p + PGSIZE) PHYSTOP (kfree_st p s) e"
      using n ok less.prems(4) by (subst freerange_loop.simps) (simp add: kop_simps thn_app)
    moreover have "\<exists>s' ys. freerange_loop (p + PGSIZE) PHYSTOP (kfree_st p s) e = Ret () s' e \<and>
        kmem_inv s' (ys @ p # xs) \<and>
        set ys = {x. aligned x \<and> p + PGSIZE \<le> x \<and> x < PHYSTOP} \<and> kmem_ready s' \<and>
        kend s' = kend (kfree_st p s)"
    proof (rule less.hyps)
      show "unat PHYSTOP - unat (p + PGSIZE) < unat PHYSTOP - unat p"
        using n(1) True by (simp add: word_less_nat_alt)
      show "kmem_inv (kfree_st p s) (p # xs)" using less.prems ok by (intro kfree_st_inv) auto
      show "\<forall>x \<in> set (p # xs). x < p + PGSIZE" using n(1) less.prems(6)
        by (auto simp: word_less_nat_alt)
      show "kend (kfree_st p s) \<le> p + PGSIZE" using less.prems(3) n(1)
        by (simp add: word_le_nat_alt)
    qed (use n less.prems in simp_all)
    ultimately obtain s' ys where
      r: "freerange_loop p PHYSTOP s e = Ret () s' e" "kmem_inv s' (ys @ p # xs)"
      "set ys = {x. aligned x \<and> p + PGSIZE \<le> x \<and> x < PHYSTOP}" "kmem_ready s'" "kend s' = kend s"
      by auto
    then have "kmem_inv s' ((ys @ [p]) @ xs)" "set (ys @ [p]) = {x. aligned x \<and> p \<le> x \<and> x < PHYSTOP}"
      using aligned_above[OF less.prems(1) True] by auto
    with r show ?thesis by blast
  next
    case False
    then have p: "p = PHYSTOP" using less.prems(2) by simp
    have "\<not> PHYSTOP + PGSIZE \<le> PHYSTOP" by (simp add: PHYSTOP_def KERNBASE_def PGSIZE_def)
    then have "freerange_loop p PHYSTOP s e = Ret () s e"
      by (subst freerange_loop.simps) (simp add: p)
    moreover have "{x. aligned x \<and> p \<le> x \<and> x < PHYSTOP} = {}" using p by auto
    ultimately show ?thesis using less.prems by (intro exI[of _ s] exI[of _ "[]"]) auto
  qed
qed

text \<open>After \<open>kinit\<close> every page between the kernel and \<open>PHYSTOP\<close> is in the pool, once.\<close>

theorem kinit_pool:
  assumes "0 < kend s" "kend s \<le> PHYSTOP" "freelist s = 0" "cpu_wf s"
  shows "\<exists>s' ys. kinit s e = Ret () s' e \<and> kmem_inv s' ys \<and> set ys = {x. page_ok s x} \<and>
    kmem_ready s'"
proof -
  define s1 where "s1 = set_lock L_kmem (\<lambda>k. \<lparr>locked = False, lname = ''kmem'', lcpu = None\<rparr>) s"
  have s1: "kend s1 = kend s" "kmem_ready s1" "kmem_inv s1 []"
    using assms by (simp_all add: s1_def base_defs kmem_ready_def kmem_inv_def)
  have k: "unat (kend s) \<le> 0x88000000" using assms(2) by (simp add: word_le_nat_alt)
  then have up: "unat (PGROUNDUP (kend s)) = (unat (kend s) + 4095) div 4096 * 4096"
    by (intro unat_PGROUNDUP) simp
  have al: "aligned (PGROUNDUP (kend s))" by (simp add: aligned_def up)
  have le: "PGROUNDUP (kend s) \<le> PHYSTOP" "kend s \<le> PGROUNDUP (kend s)"
    using k by (simp_all add: word_le_nat_alt up)
  have set: "{x. aligned x \<and> PGROUNDUP (kend s) \<le> x \<and> x < PHYSTOP} = {x. page_ok s x}"
  proof -
    have "PGROUNDUP (kend s) \<le> x \<longleftrightarrow> kend s \<le> x" if "aligned x" for x
    proof -
      obtain j where "unat x = 4096 * j"
        using \<open>aligned x\<close> by (rule alignedE)
      then show ?thesis by (simp add: word_le_nat_alt up) linarith
    qed
    then show ?thesis by (auto simp: page_ok_def)
  qed
  obtain s' ys where r: "freerange_loop (PGROUNDUP (kend s)) PHYSTOP s1 e = Ret () s' e"
    "kmem_inv s' (ys @ [])" "set ys = {x. aligned x \<and> PGROUNDUP (kend s) \<le> x \<and> x < PHYSTOP}"
    "kmem_ready s'"
    using freerange_loop_frees[OF al le(1), of s1 "[]" e] s1 le by auto
  then have "kinit s e = Ret () s' e"
    using s1(1) by (simp add: kinit_def kop_simps initlock_def freerange_def s1_def)
  then show ?thesis using r set by auto
qed

section \<open>Properties\<close>

text \<open>
  C31: after \<open>kinit\<close> every page between the kernel and \<open>PHYSTOP\<close> is in the allocator, once, and
  no other address is.
\<close>

theorem kinit_gives_all_pages:
  assumes "0 < kend s" "kend s \<le> PHYSTOP" "freelist s = 0" "cpu_wf s"
  shows "\<exists>s' ys. kinit s e = Ret () s' e \<and> kmem_inv s' ys \<and> set ys = {x. page_ok s x} \<and>
    kmem_ready s'"
  using kinit_pool[OF assms] .

definition boot_kmem :: kmemst where
  "boot_kmem = \<lparr>hart = 0,
     csr = (\<lambda>_. \<lparr>sstatus = 0, sepc = 0, stvec = 0, satp = 0, scause = 0, stval = 0, stimecmp = 0,
       mtime = 0\<rparr>),
     cpus = (\<lambda>_. \<lparr>cproc = None, noff = 0, intena = False\<rparr>),
     locks = (\<lambda>_. \<lparr>locked = False, lname = [], lcpu = None\<rparr>),
     thr = [], panicking = False, panicked = False,
     mem = (\<lambda>_. 0), freelist = 0, kend = 0x87fff800\<rparr>"

lemma boot_kmem_wf: "cpu_wf boot_kmem" "lock_free L boot_kmem"
  by (simp_all add: boot_kmem_def cpu_wf_def mycpu_def lock_free_def)

theorem kinit_gives_all_pages_witness:
  "\<exists>s' ys. kinit boot_kmem [] = Ret () s' [] \<and> kmem_inv s' ys"
  using kinit_gives_all_pages[OF _ _ _ boot_kmem_wf(1), of "[]"]
  by (auto simp: boot_kmem_def PHYSTOP_def KERNBASE_def)

text \<open>
  C30: the allocator never hands out a page twice.  Pages freed into the pool come back from as
  many allocations, last freed first, each exactly once, and the rest of the pool is untouched.
\<close>

theorem freed_pages_come_back:
  assumes "kmem_inv s ys" "kmem_ready s" "\<forall>x \<in> set xs. page_ok s x" "distinct xs"
    "set xs \<inter> set ys = {}"
  shows "\<exists>s'. thn (kmem.frees xs) (kmem.allocs (length xs)) s e = Ret (rev xs) s' e \<and>
    kmem_inv s' ys"
  using assms by (rule kmem.frees_allocs)

theorem freed_pages_come_back_witness:
  "\<exists>s'. thn (kmem.frees [0x87fff000, 0x87ffe000]) (kmem.allocs 2) (boot_kmem\<lparr>kend := 0x87000000\<rparr>) []
     = Ret [0x87ffe000, 0x87fff000] s' []"
proof -
  let ?s = "boot_kmem\<lparr>kend := 0x87000000\<rparr>"
  have "kmem_inv ?s []" "kmem_ready ?s"
    by (simp_all add: kmem_inv_def kmem_ready_def boot_kmem_def cpu_wf_def mycpu_def lock_free_def)
  moreover have "\<forall>x \<in> set [0x87fff000, 0x87ffe000]. page_ok ?s x"
    by (simp add: page_ok_def aligned_def PHYSTOP_def KERNBASE_def boot_kmem_def)
  moreover have "distinct [0x87fff000, 0x87ffe000 :: addr]" by simp
  moreover have "length [0x87fff000, 0x87ffe000 :: addr] = 2" "rev [0x87fff000, 0x87ffe000 :: addr]
      = [0x87ffe000, 0x87fff000]" by simp_all
  ultimately show ?thesis
    using freed_pages_come_back[of ?s "[]" "[0x87fff000, 0x87ffe000]" "[]"] by (metis inf_bot_right list.set(1))
qed

end
