(* ===== verification/Proc.thy ===== *)
theory Proc
  imports Kalloc
begin

text \<open>
  kernel/proc.h and the part of kernel/proc.c that runs on the process table alone: the table
  and its initialisation, pid allocation, giving up the CPU (\<open>sched\<close>, \<open>yield\<close>), sleeping and
  waking, and killing.  The scheduler is in Sched.
\<close>

section \<open>State (proc.h)\<close>

datatype procstate = UNUSED | USED | SLEEPING | RUNNABLE | RUNNING | ZOMBIE

datatype reg = R_ra | R_sp | R_gp | R_tp | R_t nat | R_s nat | R_a nat

record trapframe =
  kernel_satp :: addr
  kernel_sp :: addr
  kernel_trap :: addr
  epc :: addr
  kernel_hartid :: addr
  uregs :: "reg \<Rightarrow> addr"

record kcontext =
  ctx_ra :: addr
  ctx_sp :: addr
  ctx_s :: "nat \<Rightarrow> addr"

text \<open>
  A null pointer is \<open>None\<close> (\<open>chan\<close>, \<open>parent\<close>, \<open>ofile\<close>, \<open>cwd\<close>) or the address 0 (\<open>pagetable\<close>,
  \<open>trapframe\<close>).  An open file and a working directory are indices into the tables of file.c and
  fs.c.  Signed C counters are mathematical integers: their overflow is undefined in C.
\<close>

record proc =
  pstate :: procstate
  pchan :: "chan option"
  pkilled :: int
  xstate :: int
  pid :: int
  parent :: "nat option"
  queue_level :: int
  q_ticks :: int
  wait_time :: int
  n_run :: int
  total_ticks :: int
  kstack :: addr
  sz :: addr
  pagetable :: addr
  ptrapframe :: addr
  pcontext :: kcontext
  ofile :: "nat \<Rightarrow> nat option"
  cwd :: "nat option"
  pname :: buf

text \<open>\<open>tframes\<close> holds the trapframe stored at an address, \<open>syms\<close> the linker's addresses.\<close>

record pst = kmemst +
  procs :: "nat \<Rightarrow> proc"
  initproc :: "nat option"
  nextpid :: int
  ticks :: u32
  tframes :: "addr \<Rightarrow> trapframe"
  syms :: "string \<Rightarrow> addr"

lemma procs_frame [simp, frame_simps]:
  "cpuid (procs_update g s) = cpuid s" "mycpu (procs_update g s) = mycpu s"
  "intr_get (procs_update g s) = intr_get s"
  "is_holding L (procs_update g s) = is_holding L s" "lock_free L (procs_update g s) = lock_free L s"
  "cpu_wf (procs_update g s) = cpu_wf s" "touch (procs_update g s) = procs_update g (touch s)"
  "acq L (procs_update g s) = procs_update g (acq L s)" "rel L (procs_update g s) = procs_update g (rel L s)"
  "intr_on (procs_update g s) = procs_update g (intr_on s)"
  "intr_off (procs_update g s) = procs_update g (intr_off s)"
  "set_mycpu k (procs_update g s) = procs_update g (set_mycpu k s)"
  by (simp_all add: base_defs intr_get_def r_sstatus_def intr_on_def intr_off_def w_sstatus_def)

lemma initproc_frame [simp, frame_simps]:
  "cpuid (initproc_update g s) = cpuid s" "mycpu (initproc_update g s) = mycpu s"
  "intr_get (initproc_update g s) = intr_get s"
  "is_holding L (initproc_update g s) = is_holding L s" "lock_free L (initproc_update g s) = lock_free L s"
  "cpu_wf (initproc_update g s) = cpu_wf s" "touch (initproc_update g s) = initproc_update g (touch s)"
  "acq L (initproc_update g s) = initproc_update g (acq L s)" "rel L (initproc_update g s) = initproc_update g (rel L s)"
  "intr_on (initproc_update g s) = initproc_update g (intr_on s)"
  "intr_off (initproc_update g s) = initproc_update g (intr_off s)"
  "set_mycpu k (initproc_update g s) = initproc_update g (set_mycpu k s)"
  by (simp_all add: base_defs intr_get_def r_sstatus_def intr_on_def intr_off_def w_sstatus_def)

lemma nextpid_frame [simp, frame_simps]:
  "cpuid (nextpid_update g s) = cpuid s" "mycpu (nextpid_update g s) = mycpu s"
  "intr_get (nextpid_update g s) = intr_get s"
  "is_holding L (nextpid_update g s) = is_holding L s" "lock_free L (nextpid_update g s) = lock_free L s"
  "cpu_wf (nextpid_update g s) = cpu_wf s" "touch (nextpid_update g s) = nextpid_update g (touch s)"
  "acq L (nextpid_update g s) = nextpid_update g (acq L s)" "rel L (nextpid_update g s) = nextpid_update g (rel L s)"
  "intr_on (nextpid_update g s) = nextpid_update g (intr_on s)"
  "intr_off (nextpid_update g s) = nextpid_update g (intr_off s)"
  "set_mycpu k (nextpid_update g s) = nextpid_update g (set_mycpu k s)"
  by (simp_all add: base_defs intr_get_def r_sstatus_def intr_on_def intr_off_def w_sstatus_def)

lemma ticks_frame [simp, frame_simps]:
  "cpuid (ticks_update g s) = cpuid s" "mycpu (ticks_update g s) = mycpu s"
  "intr_get (ticks_update g s) = intr_get s"
  "is_holding L (ticks_update g s) = is_holding L s" "lock_free L (ticks_update g s) = lock_free L s"
  "cpu_wf (ticks_update g s) = cpu_wf s" "touch (ticks_update g s) = ticks_update g (touch s)"
  "acq L (ticks_update g s) = ticks_update g (acq L s)" "rel L (ticks_update g s) = ticks_update g (rel L s)"
  "intr_on (ticks_update g s) = ticks_update g (intr_on s)"
  "intr_off (ticks_update g s) = ticks_update g (intr_off s)"
  "set_mycpu k (ticks_update g s) = ticks_update g (set_mycpu k s)"
  by (simp_all add: base_defs intr_get_def r_sstatus_def intr_on_def intr_off_def w_sstatus_def)

lemma tframes_frame [simp, frame_simps]:
  "cpuid (tframes_update g s) = cpuid s" "mycpu (tframes_update g s) = mycpu s"
  "intr_get (tframes_update g s) = intr_get s"
  "is_holding L (tframes_update g s) = is_holding L s" "lock_free L (tframes_update g s) = lock_free L s"
  "cpu_wf (tframes_update g s) = cpu_wf s" "touch (tframes_update g s) = tframes_update g (touch s)"
  "acq L (tframes_update g s) = tframes_update g (acq L s)" "rel L (tframes_update g s) = tframes_update g (rel L s)"
  "intr_on (tframes_update g s) = tframes_update g (intr_on s)"
  "intr_off (tframes_update g s) = tframes_update g (intr_off s)"
  "set_mycpu k (tframes_update g s) = tframes_update g (set_mycpu k s)"
  by (simp_all add: base_defs intr_get_def r_sstatus_def intr_on_def intr_off_def w_sstatus_def)

lemma syms_frame [simp, frame_simps]:
  "cpuid (syms_update g s) = cpuid s" "mycpu (syms_update g s) = mycpu s"
  "intr_get (syms_update g s) = intr_get s"
  "is_holding L (syms_update g s) = is_holding L s" "lock_free L (syms_update g s) = lock_free L s"
  "cpu_wf (syms_update g s) = cpu_wf s" "touch (syms_update g s) = syms_update g (touch s)"
  "acq L (syms_update g s) = syms_update g (acq L s)" "rel L (syms_update g s) = syms_update g (rel L s)"
  "intr_on (syms_update g s) = syms_update g (intr_on s)"
  "intr_off (syms_update g s) = syms_update g (intr_off s)"
  "set_mycpu k (syms_update g s) = syms_update g (set_mycpu k s)"
  by (simp_all add: base_defs intr_get_def r_sstatus_def intr_on_def intr_off_def w_sstatus_def)

lemma pst_frame [simp, frame_simps]:
  "procs (touch s) = procs s" "initproc (touch s) = initproc s" "nextpid (touch s) = nextpid s" "ticks (touch s) = ticks s" "tframes (touch s) = tframes s" "syms (touch s) = syms s"
  "procs (acq L s) = procs s" "initproc (acq L s) = initproc s" "nextpid (acq L s) = nextpid s" "ticks (acq L s) = ticks s" "tframes (acq L s) = tframes s" "syms (acq L s) = syms s"
  "procs (rel L s) = procs s" "initproc (rel L s) = initproc s" "nextpid (rel L s) = nextpid s" "ticks (rel L s) = ticks s" "tframes (rel L s) = tframes s" "syms (rel L s) = syms s"
  "procs (intr_on s) = procs s" "initproc (intr_on s) = initproc s" "nextpid (intr_on s) = nextpid s" "ticks (intr_on s) = ticks s" "tframes (intr_on s) = tframes s" "syms (intr_on s) = syms s"
  "procs (intr_off s) = procs s" "initproc (intr_off s) = initproc s" "nextpid (intr_off s) = nextpid s" "ticks (intr_off s) = ticks s" "tframes (intr_off s) = tframes s" "syms (intr_off s) = syms s"
  "procs (set_mycpu k s) = procs s" "initproc (set_mycpu k s) = initproc s" "nextpid (set_mycpu k s) = nextpid s" "ticks (set_mycpu k s) = ticks s" "tframes (set_mycpu k s) = tframes s" "syms (set_mycpu k s) = syms s"
  by (simp_all add: base_defs intr_on_def intr_off_def w_sstatus_def)

definition set_proc :: "nat \<Rightarrow> (proc \<Rightarrow> proc) \<Rightarrow> 'z pst_scheme \<Rightarrow> 'z pst_scheme" where
  "set_proc i f s = s\<lparr>procs := (procs s)(i := f (procs s i))\<rparr>"

definition upd_proc :: "nat \<Rightarrow> (proc \<Rightarrow> proc) \<Rightarrow> ('z pst_scheme, unit) kop" where
  "upd_proc i f = upd (set_proc i f)"

text \<open>
  \<open>myproc()\<close> used as a pointer: dereferencing the null pointer faults, and a fault in kernel
  mode ends in \<open>kerneltrap\<close>'s panic.
\<close>

definition myproc_ptr :: "('z pst_scheme, nat) kop" where
  "myproc_ptr =
     bnd myproc (\<lambda>p. case p of None \<Rightarrow> panic ''kerneltrap'' | Some i \<Rightarrow> ret i)"

section \<open>Initialisation and pids\<close>

definition procinit :: "('z pst_scheme, unit) kop" where
  "procinit =
     thn (initlock L_pid ''nextpid'') (
     thn (initlock L_wait ''wait_lock'') (
     foreach [0..<NPROC] (\<lambda>i.
       thn (initlock (L_proc i) ''proc'') (
       thn (upd_proc i (\<lambda>p. p\<lparr>pstate := UNUSED\<rparr>))
       (upd_proc i (\<lambda>p. p\<lparr>kstack := KSTACK i\<rparr>))))))"

definition allocpid :: "('z pst_scheme, int) kop" where
  "allocpid =
     thn (acquire L_pid) (
     bnd (rd nextpid) (\<lambda>p.
     thn (upd (\<lambda>s. s\<lparr>nextpid := nextpid s + 1\<rparr>)) (
     thn (release L_pid) (
     ret p))))"

section \<open>Giving up the CPU\<close>

definition sched :: "('z pst_scheme, unit) kop" where
  "sched =
     bnd myproc_ptr (\<lambda>i.
     bnd (holding (L_proc i)) (\<lambda>h.
     if \<not> h then panic ''sched p->lock'' else
     bnd (rd (\<lambda>s. noff (mycpu s))) (\<lambda>n.
     if n \<noteq> 1 then panic ''sched locks'' else
     bnd (rd (\<lambda>s. pstate (procs s i))) (\<lambda>st.
     if st = RUNNING then panic ''sched RUNNING'' else
     bnd (rd intr_get) (\<lambda>on.
     if on then panic ''sched interruptible'' else
     bnd (rd (\<lambda>s. intena (mycpu s))) (\<lambda>ia.
     thn swtch
     (upd (set_mycpu (\<lambda>c. c\<lparr>intena := ia\<rparr>)))))))))"

definition yield :: "('z pst_scheme, unit) kop" where
  "yield =
     bnd myproc_ptr (\<lambda>i.
     thn (acquire (L_proc i)) (
     thn (upd_proc i (\<lambda>p. p\<lparr>pstate := RUNNABLE\<rparr>)) (
     thn sched
     (release (L_proc i)))))"

section \<open>Sleeping and waking\<close>

definition sleep :: "chan \<Rightarrow> lockid \<Rightarrow> ('z pst_scheme, unit) kop" where
  "sleep ch lk =
     bnd myproc_ptr (\<lambda>i.
     thn (acquire (L_proc i)) (
     thn (release lk) (
     thn (upd_proc i (\<lambda>p. p\<lparr>pchan := Some ch\<rparr>)) (
     thn (upd_proc i (\<lambda>p. p\<lparr>pstate := SLEEPING\<rparr>)) (
     thn sched (
     thn (upd_proc i (\<lambda>p. p\<lparr>pchan := None\<rparr>)) (
     thn (release (L_proc i))
     (acquire lk))))))))"

text \<open>The part of \<open>wakeup\<close> done under a process's lock.\<close>

definition wake_one :: "chan option \<Rightarrow> proc \<Rightarrow> proc" where
  "wake_one ch p =
     (if pstate p = SLEEPING \<and> pchan p = ch
      then p\<lparr>pstate := RUNNABLE, q_ticks := 0, wait_time := 0\<rparr> else p)"

definition wakeup :: "chan option \<Rightarrow> ('z pst_scheme, unit) kop" where
  "wakeup ch =
     foreach [0..<NPROC] (\<lambda>i.
       bnd myproc (\<lambda>me.
       if me \<noteq> Some i then
         thn (acquire (L_proc i)) (
         thn (upd_proc i (wake_one ch))
         (release (L_proc i)))
       else ret ()))"

section \<open>Killing\<close>

definition kill_one :: "proc \<Rightarrow> proc" where
  "kill_one p =
     (let p1 = p\<lparr>pkilled := 1\<rparr>
      in if pstate p1 = SLEEPING then p1\<lparr>pstate := RUNNABLE\<rparr> else p1)"

definition kkill :: "int \<Rightarrow> ('z pst_scheme, int) kop" where
  "kkill pd =
     bnd (for_until [0..<NPROC] (\<lambda>i.
       thn (acquire (L_proc i)) (
       bnd (rd (\<lambda>s. pid (procs s i) = pd)) (\<lambda>hit.
       if hit then
         thn (upd_proc i kill_one) (
         thn (release (L_proc i))
         (ret (Some 0)))
       else
         thn (release (L_proc i))
         (ret None)))))
     (\<lambda>r. case r of Some x \<Rightarrow> ret x | None \<Rightarrow> ret (- 1))"

definition setkilled :: "nat \<Rightarrow> ('z pst_scheme, unit) kop" where
  "setkilled i =
     thn (acquire (L_proc i)) (
     thn (upd_proc i (\<lambda>p. p\<lparr>pkilled := 1\<rparr>))
     (release (L_proc i)))"

definition killed :: "nat \<Rightarrow> ('z pst_scheme, int) kop" where
  "killed i =
     thn (acquire (L_proc i)) (
     bnd (rd (\<lambda>s. pkilled (procs s i))) (\<lambda>k.
     thn (release (L_proc i))
     (ret k)))"

text \<open>Give the children of \<open>i\<close> to init.\<close>

definition reparent :: "nat \<Rightarrow> ('z pst_scheme, unit) kop" where
  "reparent i =
     foreach [0..<NPROC] (\<lambda>j.
       bnd (rd (\<lambda>s. parent (procs s j) = Some i)) (\<lambda>mine.
       if mine then
         bnd (rd initproc) (\<lambda>ip.
         thn (upd_proc j (\<lambda>p. p\<lparr>parent := ip\<rparr>))
         (wakeup (map_option C_proc ip)))
       else ret ()))"

lemma env_le_proc [env_intros]:
  "env_le (upd_proc i f)" "env_le myproc_ptr" "env_le allocpid" "env_le (wakeup ch)"
  "env_le (setkilled i)" "env_le (killed i)" "env_le (kkill pd)" "env_le (reparent i)"
proof -
  show u: "env_le (upd_proc i f)" for i f unfolding upd_proc_def by (intro env_intros)
  show "env_le myproc_ptr" "env_le allocpid" "env_le (setkilled i)" "env_le (killed i)"
    unfolding myproc_ptr_def allocpid_def setkilled_def killed_def by (intro env_intros u)+
  show w: "env_le (wakeup ch)" for ch unfolding wakeup_def by (intro env_intros u)
  show "env_le (kkill pd)" "env_le (reparent i)"
    unfolding kkill_def reparent_def by (intro env_intros u w)+
qed

lemma env_less_sched: "env_less sched"
  unfolding sched_def
  by (intro env_less_bnd2 env_less_if env_less_panic env_less_thn1 env_less_swtch env_intros)

lemma env_less_sleep: "env_less (sleep ch lk)"
  unfolding sleep_def
  by (intro env_less_bnd2 env_less_thn2[OF env_le_spinlock(5)]
      env_less_thn2[OF env_le_spinlock(6)] env_less_thn2[OF env_le_proc(1)]
      env_less_thn1[OF env_less_sched] env_intros)

lemma env_le_sched [env_intros]: "env_le sched" "env_le (sleep ch lk)"
  by (intro env_less_le env_less_sched env_less_sleep)+

lemma env_le_yield [env_intros]: "env_le yield"
  unfolding yield_def by (intro env_intros)

section \<open>Loops over the process table\<close>

lemma foreach_append:
  "foreach (xs @ ys) body s e = bnd (foreach xs body) (\<lambda>_. foreach ys body) s e"
  by (induction xs arbitrary: s e)
     (auto simp: thn_def bnd_def split: outcome.split)

lemma procs_same [simp]: "s\<lparr>procs := procs s\<rparr> = s"
  by simp

text \<open>
  A loop that takes each process's lock in turn and applies \<open>h\<close> to it, computed at once.  The
  first iteration may leave \<open>touch\<close>'s trace.
\<close>

lemma proc_loop:
  assumes body: "\<And>i P t. i < n \<Longrightarrow> t = s \<or> t = touch s \<Longrightarrow>
      body i (t\<lparr>procs := P\<rparr>) e = Ret () ((touch s)\<lparr>procs := P(i := h i (P i))\<rparr>) e"
    and n: "0 < n"
  shows "foreach [0..<n] body s e =
    Ret () ((touch s)\<lparr>procs := (\<lambda>i. if i < n then h i (procs s i) else procs s i)\<rparr>) e"
proof -
  have "foreach [0..<k] body s e = Ret () ((if k = 0 then s else touch s)
      \<lparr>procs := (\<lambda>i. if i < k then h i (procs s i) else procs s i)\<rparr>) e" if "k \<le> n" for k
    using that
  proof (induction k)
    case 0
    then show ?case by simp
  next
    case (Suc k)
    define P where "P = (\<lambda>i. if i < k then h i (procs s i) else procs s i)"
    have "foreach [0..<Suc k] body s e
        = bnd (body k) (\<lambda>_. ret ()) ((if k = 0 then s else touch s)\<lparr>procs := P\<rparr>) e"
      using Suc by (simp add: foreach_append bnd_def thn_def P_def)
    also have "\<dots> = Ret () ((touch s)\<lparr>procs := P(k := h k (P k))\<rparr>) e"
      using body[of k _ P] Suc.prems by (simp add: bnd_def)
    also have "P(k := h k (P k)) = (\<lambda>i. if i < Suc k then h i (procs s i) else procs s i)"
      by (auto simp: P_def fun_eq_iff less_Suc_eq)
    finally show ?case by simp
  qed
  from this[of n] n show ?thesis by simp
qed

definition plocks_free :: "'z pst_scheme \<Rightarrow> bool" where
  "plocks_free s \<longleftrightarrow> (\<forall>i < NPROC. lock_free (L_proc i) s)"

definition other_plocks_free :: "'z pst_scheme \<Rightarrow> bool" where
  "other_plocks_free s \<longleftrightarrow>
     (\<forall>i < NPROC. cproc (mycpu s) \<noteq> Some i \<longrightarrow> lock_free (L_proc i) s)"

lemma other_plocks_freeD:
  "other_plocks_free s \<Longrightarrow> i < NPROC \<Longrightarrow> cproc (mycpu s) \<noteq> Some i \<Longrightarrow> lock_free (L_proc i) s"
  by (simp add: other_plocks_free_def)

lemma plocks_free_other: "plocks_free s \<Longrightarrow> other_plocks_free s"
  by (simp add: plocks_free_def other_plocks_free_def)

lemma plocks_frame [simp]:
  "plocks_free (touch s) = plocks_free s" "other_plocks_free (touch s) = other_plocks_free s"
  "plocks_free (procs_update g s) = plocks_free s"
  "other_plocks_free (procs_update g s) = other_plocks_free s"
  "plocks_free (mem_update h s) = plocks_free s" "plocks_free (freelist_update k s) = plocks_free s"
  "plocks_free (set_mycpu m s) = plocks_free s"
  "plocks_free (thr_update w s) = plocks_free s" "other_plocks_free (thr_update w s) = other_plocks_free s"
  by (simp_all add: plocks_free_def other_plocks_free_def)

lemma upd_proc_app [kop_simps, simp]:
  "upd_proc i f s e = Ret () (s\<lparr>procs := (procs s)(i := f (procs s i))\<rparr>) e"
  by (simp add: upd_proc_def set_proc_def)

lemma myproc_ptr_Ret [kop_simps]:
  "cpu_wf s \<Longrightarrow> cproc (mycpu s) = Some i \<Longrightarrow> myproc_ptr s e = Ret i (touch s) e"
  by (simp add: myproc_ptr_def kop_simps)

text \<open>One process updated under its lock.\<close>

lemma locked_update:
  assumes "lock_free (L_proc i) s" "cpu_wf s"
  shows "thn (acquire (L_proc i)) (thn (upd_proc i f) (release (L_proc i))) s e
    = Ret () ((touch s)\<lparr>procs := (procs s)(i := f (procs s i))\<rparr>) e"
  using assms by (simp add: kop_simps lock_freeD cpu_wf_def[of s])

section \<open>Functional behaviour\<close>

lemma allocpid_Ret [kop_simps]:
  assumes "lock_free L_pid s" "cpu_wf s"
  shows "allocpid s e = Ret (nextpid s) ((touch s)\<lparr>nextpid := nextpid s + 1\<rparr>) e"
  using assms by (simp add: allocpid_def kop_simps lock_freeD cpu_wf_def[of s])

definition woken :: "nat option \<Rightarrow> chan option \<Rightarrow> (nat \<Rightarrow> proc) \<Rightarrow> nat \<Rightarrow> proc" where
  "woken me ch P = (\<lambda>i. if i < NPROC \<and> me \<noteq> Some i then wake_one ch (P i) else P i)"

definition wakeup_st :: "chan option \<Rightarrow> 'z pst_scheme \<Rightarrow> 'z pst_scheme" where
  "wakeup_st ch s = (touch s)\<lparr>procs := woken (cproc (mycpu s)) ch (procs s)\<rparr>"

lemma wakeup_Ret:
  assumes "other_plocks_free s" "cpu_wf s"
  shows "wakeup ch s e = Ret () (wakeup_st ch s) e"
proof -
  define h where "h i p = (if cproc (mycpu s) \<noteq> Some i then wake_one ch p else p)" for i p
  have "wakeup ch s e =
    Ret () ((touch s)\<lparr>procs := (\<lambda>i. if i < NPROC then h i (procs s i) else procs s i)\<rparr>) e"
    unfolding wakeup_def
  proof (rule proc_loop)
    fix i P t
    assume i: "i < NPROC" and t: "t = s \<or> t = touch s"
    then have wf: "cpu_wf t" "cproc (mycpu t) = cproc (mycpu s)" "touch t = touch s"
      "\<And>L. lock_free L t = lock_free L s"
      using assms by auto
    have fr: "cproc (mycpu s) \<noteq> Some i \<Longrightarrow> lock_free (L_proc i) s"
      using assms i by (simp add: other_plocks_freeD)
    show "bnd myproc (\<lambda>me. if me \<noteq> Some i then thn (acquire (L_proc i))
        (thn (upd_proc i (wake_one ch)) (release (L_proc i))) else ret ()) (t\<lparr>procs := P\<rparr>) e
      = Ret () ((touch s)\<lparr>procs := P(i := h i (P i))\<rparr>) e"
      using wf fr assms(2) by (cases "cproc (mycpu s) = Some i")
        (simp_all add: kop_simps locked_update h_def del: thn_app)
  qed simp
  also have "(\<lambda>i. if i < NPROC then h i (procs s i) else procs s i) =
    woken (cproc (mycpu s)) ch (procs s)"
    by (auto simp: h_def woken_def)
  finally show ?thesis by (simp add: wakeup_st_def)
qed

lemma woken_self [simp]: "woken (Some i) ch P i = P i"
  by (simp add: woken_def)

lemma woken_wf [simp]:
  "pid (woken me ch P i) = pid (P i)" "pkilled (woken me ch P i) = pkilled (P i)"
  "pagetable (woken me ch P i) = pagetable (P i)" "parent (woken me ch P i) = parent (P i)"
  "sz (woken me ch P i) = sz (P i)" "ofile (woken me ch P i) = ofile (P i)"
  "cwd (woken me ch P i) = cwd (P i)" "ptrapframe (woken me ch P i) = ptrapframe (P i)"
  by (simp_all add: woken_def wake_one_def)

lemma woken_wakes:
  "i < NPROC \<Longrightarrow> me \<noteq> Some i \<Longrightarrow> pstate (P i) = SLEEPING \<Longrightarrow> pchan (P i) = ch \<Longrightarrow>
   pstate (woken me ch P i) = RUNNABLE"
  by (simp add: woken_def wake_one_def)

text \<open>The current process, outside every lock and with no process lock taken.\<close>

definition running :: "nat \<Rightarrow> 'z pst_scheme \<Rightarrow> bool" where
  "running i s \<longleftrightarrow> i < NPROC \<and> cproc (mycpu s) = Some i \<and> noff (mycpu s) = 0 \<and> plocks_free s"

lemma runningD:
  assumes "running i s"
  shows "i < NPROC" "cproc (mycpu s) = Some i" "noff (mycpu s) = 0" "plocks_free s" "cpu_wf s"
    "other_plocks_free s" "lock_free (L_proc i) s"
  using assms by (auto simp: running_def cpu_wf_def plocks_free_other plocks_free_def)

lemma running_frame [simp]:
  "running i (touch s) = running i s" "running i (procs_update g s) = running i s"
  by (simp_all add: running_def)

lemma plocks_acq [simp]:
  "(\<And>i. L \<noteq> L_proc i) \<Longrightarrow> plocks_free (acq L s) = plocks_free s"
  "(\<And>i. L \<noteq> L_proc i) \<Longrightarrow> other_plocks_free (acq L s) = other_plocks_free s"
  by (simp_all add: plocks_free_def other_plocks_free_def)

lemma wakeup_nested [kop_simps]:
  assumes "other_plocks_free s" "cpu_wf s" "noff (mycpu s) \<noteq> 0"
  shows "wakeup ch s e = Ret () (s\<lparr>procs := woken (cproc (mycpu s)) ch (procs s)\<rparr>) e"
  using assms by (simp add: wakeup_Ret wakeup_st_def)

lemma setkilled_Ret [kop_simps]:
  assumes "lock_free (L_proc i) s" "cpu_wf s"
  shows "setkilled i s e = Ret () ((touch s)\<lparr>procs := (procs s)(i := (procs s i)\<lparr>pkilled := 1\<rparr>)\<rparr>) e"
  using assms by (simp add: setkilled_def locked_update)

lemma killed_Ret [kop_simps]:
  assumes "lock_free (L_proc i) s" "cpu_wf s"
  shows "killed i s e = Ret (pkilled (procs s i)) (touch s) e"
  using assms by (simp add: killed_def kop_simps lock_freeD cpu_wf_def[of s])

text \<open>
  A search that takes each lock in turn: it ends at the least index where \<open>Q\<close> holds, in the
  state \<open>H\<close> the hit leaves, or after the last process.
\<close>

lemma proc_search:
  assumes miss: "\<And>i t. i < n \<Longrightarrow> t = s \<or> t = touch s \<Longrightarrow> \<not> Q i \<Longrightarrow> body i t e = Ret None (touch s) e"
    and hit: "\<And>i t. i < n \<Longrightarrow> t = s \<or> t = touch s \<Longrightarrow> Q i \<Longrightarrow> body i t e = Ret (Some (r i)) (H i) e"
    and n: "0 < n" and t0: "t0 = s \<or> t0 = touch s"
  shows "for_until [0..<n] body t0 e =
    (case find_index Q [0..<n] of None \<Rightarrow> Ret None (touch s) e | Some i \<Rightarrow> Ret (Some (r i)) (H i) e)"
proof -
  have "for_until is body t e = (case find_index Q is of
      None \<Rightarrow> Ret None (if is = [] then t else touch s) e | Some i \<Rightarrow> Ret (Some (r i)) (H i) e)"
    if "\<forall>i \<in> set is. i < n" "t = s \<or> t = touch s" for "is" t
    using that
  proof (induction "is" arbitrary: t)
    case Nil
    then show ?case by simp
  next
    case (Cons i "is")
    then show ?case using hit[of i t] miss[of i t] by (auto simp: bnd_def)
  qed
  from this[of "[0..<n]" t0] n t0 show ?thesis by (auto split: option.split)
qed

lemma kkill_Ret [kop_simps]:
  assumes "plocks_free s" "cpu_wf s"
  shows "kkill pd s e = (case find_index (\<lambda>i. pid (procs s i) = pd) [0..<NPROC] of
      None \<Rightarrow> Ret (- 1) (touch s) e
    | Some i \<Rightarrow> Ret 0 ((touch s)\<lparr>procs := (procs s)(i := kill_one (procs s i))\<rparr>) e)"
proof -
  define body where "body = (\<lambda>i.
       thn (acquire (L_proc i)) (
       bnd (rd (\<lambda>s :: 'a pst_scheme. pid (procs s i) = pd)) (\<lambda>hit.
       if hit then
         thn (upd_proc i kill_one) (
         thn (release (L_proc i))
         (ret (Some (0::int))))
       else
         thn (release (L_proc i))
         (ret None))))"
  have free: "lock_free (L_proc i) s" if "i < NPROC" for i
    using assms that by (simp add: plocks_free_def)
  have "for_until [0..<NPROC] body s e = (case find_index (\<lambda>i. pid (procs s i) = pd) [0..<NPROC] of
      None \<Rightarrow> Ret None (touch s) e
    | Some i \<Rightarrow> Ret (Some 0) ((touch s)\<lparr>procs := (procs s)(i := kill_one (procs s i))\<rparr>) e)"
  proof (rule proc_search[where s = s])
    fix i t assume "i < NPROC" "t = s \<or> t = touch s" "pid (procs s i) \<noteq> pd"
    then show "body i t e = Ret None (touch s) e"
      using free[of i] assms(2) by (auto simp: body_def kop_simps lock_freeD cpu_wf_def[of s])
  next
    fix i t assume "i < NPROC" "t = s \<or> t = touch s" "pid (procs s i) = pd"
    then show "body i t e =
        Ret (Some 0) ((touch s)\<lparr>procs := (procs s)(i := kill_one (procs s i))\<rparr>) e"
      using free[of i] assms(2) by (auto simp: body_def kop_simps lock_freeD cpu_wf_def[of s])
  qed simp_all
  then show ?thesis
    unfolding kkill_def body_def[symmetric] by (simp add: bnd_def split: option.split)
qed

section \<open>Context switches\<close>

text \<open>
  The states in which \<open>sched\<close> hands the CPU over (\<open>sched_ready\<close>) and in which a thread gets it
  back (\<open>resumed\<close>): the process's own lock is held by the hart, and is the only one.
\<close>

definition own_lock_only :: "nat \<Rightarrow> 'z pst_scheme \<Rightarrow> bool" where
  "own_lock_only i s \<longleftrightarrow>
     cproc (mycpu s) = Some i \<and> is_holding (L_proc i) s \<and> noff (mycpu s) = 1 \<and> \<not> intr_get s"

definition sched_ready :: "nat \<Rightarrow> 'z pst_scheme \<Rightarrow> bool" where
  "sched_ready i s \<longleftrightarrow> own_lock_only i s \<and> pstate (procs s i) \<noteq> RUNNING"

definition resumed :: "nat \<Rightarrow> 'z pst_scheme \<Rightarrow> bool" where
  "resumed i s \<longleftrightarrow> own_lock_only i s \<and> pstate (procs s i) = RUNNING"

lemma own_lock_onlyD:
  assumes "own_lock_only i s"
  shows "cproc (mycpu s) = Some i" "is_holding (L_proc i) s" "noff (mycpu s) = 1"
    "\<not> intr_get s" "cpu_wf s" "touch s = s"
  using assms by (auto simp: own_lock_only_def cpu_wf_def)

lemma sched_switch [kop_simps]:
  assumes "sched_ready i s"
  shows "sched s e = bnd swtch (\<lambda>_. upd (set_mycpu (\<lambda>c. c\<lparr>intena := intena (mycpu s)\<rparr>))) s e"
  using assms own_lock_onlyD[of i s]
  by (simp add: sched_def sched_ready_def kop_simps holding_def)

text \<open>\<open>sched\<close> refuses every other state of a running process.\<close>

lemma sched_panics:
  assumes "cpu_wf s" "cproc (mycpu s) = Some i" "\<not> sched_ready i s"
  shows "\<exists>msg. sched s e = Panic msg (touch s)"
  using assms
  by (auto simp: sched_def kop_simps holding_def sched_ready_def own_lock_only_def)

text \<open>The state a sleeping thread leaves behind.\<close>

definition sleep_st :: "chan \<Rightarrow> lockid \<Rightarrow> nat \<Rightarrow> 'z pst_scheme \<Rightarrow> 'z pst_scheme" where
  "sleep_st ch lk i s = (rel lk (acq (L_proc i) s))\<lparr>procs :=
     (procs s)(i := (procs s i)\<lparr>pchan := Some ch, pstate := SLEEPING\<rparr>)\<rparr>"

definition sleep_call :: "lockid \<Rightarrow> nat \<Rightarrow> 'z pst_scheme \<Rightarrow> bool" where
  "sleep_call lk i s \<longleftrightarrow>
     cproc (mycpu s) = Some i \<and> is_holding lk s \<and> noff (mycpu s) = 1 \<and> \<not> intr_get s \<and>
     lock_free (L_proc i) s \<and> lk \<noteq> L_proc i"

lemma sleep_callD:
  assumes "sleep_call lk i s"
  shows "cproc (mycpu s) = Some i" "is_holding lk s" "noff (mycpu s) = 1" "\<not> intr_get s"
    "lock_free (L_proc i) s" "lk \<noteq> L_proc i" "L_proc i \<noteq> lk" "cpu_wf s"
  using assms by (auto simp: sleep_call_def cpu_wf_def)

lemma sleep_st_ready:
  assumes "sleep_call lk i s"
  shows "sched_ready i (sleep_st ch lk i s)" "lock_free lk (sleep_st ch lk i s)"
    "pstate (procs (sleep_st ch lk i s) i) = SLEEPING" "pchan (procs (sleep_st ch lk i s) i) = Some ch"
  using sleep_callD[OF assms]
  by (auto simp: sched_ready_def own_lock_only_def sleep_st_def intr_get_rel)

lemma sleep_upto_switch:
  assumes "sleep_call lk i s"
  shows "sleep ch lk s e =
    bnd sched (\<lambda>_. thn (upd_proc i (\<lambda>p. p\<lparr>pchan := None\<rparr>)) (thn (release (L_proc i)) (acquire lk)))
      (sleep_st ch lk i s) e"
proof -
  note d = sleep_callD[OF assms]
  have "release lk (acq (L_proc i) s) e = Ret () (rel lk (acq (L_proc i) s)) e"
    using d by (intro release_Ret) auto
  then show ?thesis using d
    by (simp add: sleep_def kop_simps lock_freeD sleep_st_def)
qed

text \<open>
  A thread that sleeps and is not resumed has released \<open>lk\<close>, is marked \<open>SLEEPING\<close> on the channel
  and still holds its own lock, which its scheduler will release.
\<close>

lemma sleep_Off:
  assumes "sleep_call lk i s"
  shows "sleep ch lk s [] = Off (sleep_st ch lk i s)"
  using assms
  by (simp add: sleep_upto_switch kop_simps sched_switch[OF sleep_st_ready(1)[OF assms]])

text \<open>When it is resumed, it holds \<open>lk\<close> again and no process lock.\<close>

definition woke_st :: "lockid \<Rightarrow> nat \<Rightarrow> bool \<Rightarrow> 'z pst_scheme \<Rightarrow> 'z pst_scheme" where
  "woke_st lk i ia t = acq lk (rel (L_proc i) ((set_mycpu (\<lambda>c. c\<lparr>intena := ia\<rparr>) t)
     \<lparr>procs := (procs t)(i := (procs t i)\<lparr>pchan := None\<rparr>)\<rparr>))"

lemma sleep_woke:
  assumes call: "sleep_call lk i s" and s2: "s2 = f (sleep_st ch lk i s)"
    and res: "resumed i s2" and free: "lock_free lk s2"
  shows "sleep ch lk s (f # fs) = Ret () (woke_st lk i (intena (mycpu (sleep_st ch lk i s))) s2) fs"
proof -
  define ia where "ia = intena (mycpu (sleep_st ch lk i s))"
  define s3 where "s3 = (set_mycpu (\<lambda>c. c\<lparr>intena := ia\<rparr>) s2)
     \<lparr>procs := (procs s2)(i := (procs s2 i)\<lparr>pchan := None\<rparr>)\<rparr>"
  have o: "own_lock_only i s2" using res by (simp add: resumed_def)
  note d = own_lock_onlyD[OF o] sleep_callD[OF call]
  have "sleep ch lk s (f # fs) = thn (release (L_proc i)) (acquire lk) s3 fs"
    by (simp add: sleep_upto_switch[OF call] sched_switch[OF sleep_st_ready(1)[OF call]] kop_simps
        s2 s3_def ia_def bnd_def)
  also have "\<dots> = acquire lk (rel (L_proc i) s3) fs"
    using d by (simp add: kop_simps s3_def)
  also have "\<dots> = Ret () (acq lk (rel (L_proc i) s3)) fs"
    using d free by (intro acquire_Ret) (simp add: s3_def lock_freeD)
  finally show ?thesis by (simp add: woke_st_def s3_def ia_def)
qed

lemma woke_st_call:
  assumes "resumed i t" "lock_free lk t" "lk \<noteq> L_proc i"
  shows "sleep_call lk i (woke_st lk i ia t)" "hart (woke_st lk i ia t) = hart t"
    "procs (woke_st lk i ia t) = (procs t)(i := (procs t i)\<lparr>pchan := None\<rparr>)"
    "L \<noteq> lk \<Longrightarrow> L \<noteq> L_proc i \<Longrightarrow> lock_free L (woke_st lk i ia t) = lock_free L t"
  using own_lock_onlyD[of i t] assms
  by (auto simp: woke_st_def resumed_def sleep_call_def)

lemma pst_slept [simp]:
  "thr (sleep_st ch lk i s) = thr s" "thr (woke_st lk i ia s) = thr s"
  "panicked (sleep_st ch lk i s) = panicked s" "panicked (woke_st lk i ia s) = panicked s"
  "panicking (sleep_st ch lk i s) = panicking s" "panicking (woke_st lk i ia s) = panicking s"
  "hart (sleep_st ch lk i s) = hart s"
  by (simp_all add: sleep_st_def woke_st_def)

section \<open>Under a lock\<close>

text \<open>
  Process \<open>i\<close> holds the lock \<open>lk\<close> and nothing else, and no other process's lock is taken: what
  holds inside the critical sections of the kernel that wait and wake.
\<close>

definition under :: "lockid \<Rightarrow> nat \<Rightarrow> 'z pst_scheme \<Rightarrow> bool" where
  "under lk i s \<longleftrightarrow> sleep_call lk i s \<and> other_plocks_free s"

lemma underD:
  assumes "under lk i s"
  shows "sleep_call lk i s" "other_plocks_free s" "cproc (mycpu s) = Some i" "is_holding lk s"
    "noff (mycpu s) = 1" "\<not> intr_get s" "lock_free (L_proc i) s" "cpu_wf s" "touch s = s"
  using assms sleep_callD[of lk i s] by (auto simp: under_def)

lemma under_frame [simp]:
  "under lk i (procs_update g s) = under lk i s" "under lk i (mem_update h s) = under lk i s"
  "under lk i (freelist_update k s) = under lk i s" "under lk i (thr_update w s) = under lk i s"
  by (simp_all add: under_def sleep_call_def other_plocks_free_def)

lemma under_acq:
  assumes "running i s" "lock_free lk s" "\<And>j. lk \<noteq> L_proc j"
  shows "under lk i (acq lk s)"
  using runningD[OF assms(1)] assms(2,3) by (simp add: under_def sleep_call_def)

lemma under_killed: "under lk i s \<Longrightarrow> killed i s e = Ret (pkilled (procs s i)) s e"
  using underD[of lk i s] by (simp add: killed_Ret)

lemma under_wakeup:
  "under lk i s \<Longrightarrow> wakeup ch s e = Ret () (s\<lparr>procs := woken (Some i) ch (procs s)\<rparr>) e"
  using underD[of lk i s] by (simp add: wakeup_nested)

lemma under_release: "under lk i s \<Longrightarrow> release lk s e = Ret () (rel lk s) e"
  using underD[of lk i s] by (simp add: release_Ret)

lemma mem_slept [simp]:
  "mem (sleep_st ch lk i s) = mem s" "mem (woke_st lk i ia s) = mem s"
  "freelist (sleep_st ch lk i s) = freelist s" "freelist (woke_st lk i ia s) = freelist s"
  by (simp_all add: sleep_st_def woke_st_def base_defs intr_on_def intr_off_def w_sstatus_def)

text \<open>Sleeping under \<open>lk\<close>: the next entry of the environment resumes the process.\<close>

lemma under_sleep:
  assumes "under lk i s" "\<And>j. lk \<noteq> L_proc j"
    and "resumed i t" "lock_free lk t" "other_plocks_free t"
    and "t = f (sleep_st ch lk i s)"
  shows "\<exists>ia. sleep ch lk s (f # fs) = Ret () (woke_st lk i ia t) fs \<and> under lk i (woke_st lk i ia t)"
proof -
  note s = underD[OF assms(1)]
  have "other_plocks_free (woke_st lk i ia t)" for ia
    using assms(2,5) own_lock_onlyD[of i t] assms(3) woke_st_call(4)[OF assms(3,4,2)]
    by (auto simp: other_plocks_free_def woke_st_def resumed_def)
  moreover have "sleep ch lk s (f # fs) = Ret () (woke_st lk i (intena (mycpu (sleep_st ch lk i s))) t) fs"
    by (rule sleep_woke) (use s(1) assms(3,4,6) in simp_all)
  ultimately show ?thesis using woke_st_call(1)[OF assms(3,4,2)] by (auto simp: under_def)
qed

section \<open>What does not change while a process waits\<close>

text \<open>
  What identifies a process, as opposed to its scheduling state.  \<open>calm s s'\<close>: the hart is back
  where it was, the same locks are free, and nothing but scheduling states has changed.
\<close>

definition proc_id :: "proc \<Rightarrow> int \<times> int \<times> nat option \<times> addr \<times> addr \<times> addr \<times> addr \<times>
    (nat \<Rightarrow> nat option) \<times> nat option \<times> (nat \<Rightarrow> byte)" where
  "proc_id p = (pid p, pkilled p, parent p, kstack p, sz p, pagetable p, ptrapframe p, ofile p, cwd p, pname p)"

definition calm :: "'z pst_scheme \<Rightarrow> 'z pst_scheme \<Rightarrow> bool" where
  "calm s s' \<longleftrightarrow> hart s' = hart s \<and> cproc (mycpu s') = cproc (mycpu s) \<and> noff (mycpu s') = noff (mycpu s) \<and>
     (\<forall>L. lock_free L s' = lock_free L s) \<and> (\<forall>j. proc_id (procs s' j) = proc_id (procs s j)) \<and>
     mem s' = mem s \<and> freelist s' = freelist s \<and> thr s' = thr s \<and> panicked s' = panicked s \<and>
     panicking s' = panicking s \<and> syms s' = syms s \<and> initproc s' = initproc s"

lemma calm_refl [simp]: "calm s s"
  by (simp add: calm_def)

lemma calm_trans [trans]: "calm s t \<Longrightarrow> calm t u \<Longrightarrow> calm s u"
  by (simp add: calm_def)

lemma calmD:
  assumes "calm s s'"
  shows "lock_free L s' = lock_free L s" "running i s' = running i s" "mem s' = mem s"
    "proc_id (procs s' j) = proc_id (procs s j)" "pid (procs s' j) = pid (procs s j)"
    "pagetable (procs s' j) = pagetable (procs s j)" "pkilled (procs s' j) = pkilled (procs s j)"
    "ofile (procs s' j) = ofile (procs s j)" "cwd (procs s' j) = cwd (procs s j)"
  using assms by (auto simp: calm_def running_def plocks_free_def proc_id_def)

lemma proc_id_slept [simp]:
  "proc_id (woken me ch P j) = proc_id (P j)" "proc_id (p\<lparr>pchan := c\<rparr>) = proc_id p"
  "proc_id (p\<lparr>pstate := x\<rparr>) = proc_id p"
  by (simp_all add: proc_id_def) (simp_all add: woken_def wake_one_def)

lemma calm_procs: "(\<And>j. proc_id (P j) = proc_id (procs s j)) \<Longrightarrow> calm s (s\<lparr>procs := P\<rparr>)"
  by (simp add: calm_def)

lemma calm_touch [simp]: "calm s (touch s)"
  by (simp add: calm_def)

text \<open>A critical section that is calm inside is calm.\<close>

lemma calm_critical:
  assumes "running i s" "lock_free lk s" "calm (acq lk s) t" "under lk i t" "\<And>j. lk \<noteq> L_proc j"
  shows "calm s (rel lk t)"
proof -
  have "lock_free L (rel lk t) = lock_free L s" for L
    using assms(2) calmD(1)[OF assms(3), of L] by (cases "L = lk") simp_all
  then show ?thesis
    using assms(3) underD(5)[OF assms(4)] runningD(3)[OF assms(1)] by (simp add: calm_def)
qed

lemma yield_Off:
  assumes "cpu_wf s" "cproc (mycpu s) = Some i" "noff (mycpu s) = 0" "lock_free (L_proc i) s"
  shows "yield s [] =
    Off ((acq (L_proc i) s)\<lparr>procs := (procs s)(i := (procs s i)\<lparr>pstate := RUNNABLE\<rparr>)\<rparr>)"
proof -
  have "sched_ready i ((acq (L_proc i) s)\<lparr>procs := (procs s)(i := (procs s i)\<lparr>pstate := RUNNABLE\<rparr>)\<rparr>)"
    using assms by (simp add: sched_ready_def own_lock_only_def)
  then show ?thesis using assms by (simp add: yield_def kop_simps lock_freeD)
qed

section \<open>A concrete kernel state\<close>

text \<open>The table before any process exists, on hart 0 with every lock free; used in examples.\<close>

definition zero_trapframe :: trapframe where
  "zero_trapframe = \<lparr>kernel_satp = 0, kernel_sp = 0, kernel_trap = 0, epc = 0, kernel_hartid = 0,
     uregs = (\<lambda>_. 0)\<rparr>"

definition zero_proc :: proc where
  "zero_proc = \<lparr>pstate = UNUSED, pchan = None, pkilled = 0, xstate = 0, pid = 0, parent = None,
     queue_level = 0, q_ticks = 0, wait_time = 0, n_run = 0, total_ticks = 0, kstack = 0, sz = 0,
     pagetable = 0, ptrapframe = 0, pcontext = \<lparr>ctx_ra = 0, ctx_sp = 0, ctx_s = (\<lambda>_. 0)\<rparr>,
     ofile = (\<lambda>_. None), cwd = None, pname = (\<lambda>_. 0)\<rparr>"

definition zero_csrs :: csrs where
  "zero_csrs = \<lparr>sstatus = 0, sepc = 0, stvec = 0, satp = 0, scause = 0, stval = 0, stimecmp = 0,
     mtime = 0\<rparr>"

definition zero_pst :: pst where
  "zero_pst = \<lparr>hart = 0, csr = (\<lambda>_. zero_csrs),
     cpus = (\<lambda>_. \<lparr>cproc = None, noff = 0, intena = False\<rparr>),
     locks = (\<lambda>_. \<lparr>locked = False, lname = [], lcpu = None\<rparr>),
     thr = [], panicking = False, panicked = False, mem = (\<lambda>_. 0), freelist = 0, kend = KERNBASE,
     procs = (\<lambda>_. zero_proc), initproc = None, nextpid = 1, ticks = 0,
     tframes = (\<lambda>_. zero_trapframe), syms = (\<lambda>_. 0)\<rparr>"

lemma zero_pst_simps [simp]:
  "procs zero_pst = (\<lambda>_. zero_proc)" "hart zero_pst = 0" "noff (mycpu zero_pst) = 0"
  "cproc (mycpu zero_pst) = None" "lock_free L zero_pst" "plocks_free zero_pst" "cpu_wf zero_pst"
  "\<not> panicked zero_pst" "\<not> panicking zero_pst" "nextpid zero_pst = 1" "\<not> intr_get zero_pst"
  by (simp_all add: zero_pst_def base_defs plocks_free_def intr_get_def r_sstatus_def zero_csrs_def)

lemma zero_proc_simps [simp]:
  "pstate zero_proc = UNUSED" "pid zero_proc = 0" "queue_level zero_proc = 0" "q_ticks zero_proc = 0"
  "wait_time zero_proc = 0" "pkilled zero_proc = 0" "total_ticks zero_proc = 0" "pchan zero_proc = None"
  by (simp_all add: zero_proc_def)

section \<open>Properties\<close>

text \<open>
  \<open>kill\<close> marks the first process with the given pid, and makes it runnable when it sleeps;
  every other process is left alone.  Without such a process it fails and changes nothing.
\<close>

theorem kkill_effect:
  assumes "plocks_free s" "cpu_wf s"
  shows "(\<forall>i < NPROC. pid (procs s i) \<noteq> pd) \<and> kkill pd s e = Ret (- 1) (touch s) e \<or>
    (\<exists>i < NPROC. pid (procs s i) = pd \<and> (\<forall>j < i. pid (procs s j) \<noteq> pd) \<and>
       (\<exists>s'. kkill pd s e = Ret 0 s' e \<and> pkilled (procs s' i) = 1 \<and>
          pstate (procs s' i) = (if pstate (procs s i) = SLEEPING then RUNNABLE else pstate (procs s i)) \<and>
          (\<forall>j. j \<noteq> i \<longrightarrow> procs s' j = procs s j)))"
proof (cases "find_index (\<lambda>i. pid (procs s i) = pd) [0..<NPROC]")
  case None
  then have "kkill pd s e = Ret (- 1) (touch s) e" using assms by (simp add: kkill_Ret)
  moreover have "\<forall>i < NPROC. pid (procs s i) \<noteq> pd" using None by (auto simp: find_index_None)
  ultimately show ?thesis by blast
next
  case (Some i)
  then have "i < NPROC \<and> pid (procs s i) = pd \<and> (\<forall>j < i. pid (procs s j) \<noteq> pd)"
    by (rule find_index_upt[THEN iffD1])
  moreover have "kkill pd s e = Ret 0 ((touch s)\<lparr>procs := (procs s)(i := kill_one (procs s i))\<rparr>) e"
    using assms Some by (simp add: kkill_Ret)
  then have "\<exists>s'. kkill pd s e = Ret 0 s' e \<and> pkilled (procs s' i) = 1 \<and>
      pstate (procs s' i) = (if pstate (procs s i) = SLEEPING then RUNNABLE else pstate (procs s i)) \<and>
      (\<forall>j. j \<noteq> i \<longrightarrow> procs s' j = procs s j)"
    by (simp add: kill_one_def)
  ultimately show ?thesis by blast
qed

theorem kkill_effect_witness:
  "\<exists>s'. kkill 5 (zero_pst\<lparr>procs := (\<lambda>_. zero_proc)(9 := zero_proc\<lparr>pid := 5, pstate := SLEEPING\<rparr>)\<rparr>) []
     = Ret 0 s' [] \<and> pstate (procs s' 9) = RUNNABLE"
proof -
  let ?s = "zero_pst\<lparr>procs := (\<lambda>_. zero_proc)(9 := zero_proc\<lparr>pid := 5, pstate := SLEEPING\<rparr>)\<rparr>"
  have "plocks_free ?s" "cpu_wf ?s" by simp_all
  moreover have "(9::nat) < NPROC" by simp
  ultimately show ?thesis using kkill_effect[of ?s 5 "[]"] by (auto split: if_splits)
qed

text \<open>A waker that finds a process's lock taken by another hart waits for it.\<close>

lemma wakeup_spins:
  fixes s :: "'z pst_scheme"
  assumes i: "i < NPROC" "cproc (mycpu s) \<noteq> Some i" "locked (locks s (L_proc i))"
    "\<not> is_holding (L_proc i) s" "cpu_wf s"
    and below: "\<And>j. j < i \<Longrightarrow> cproc (mycpu s) \<noteq> Some j \<Longrightarrow> lock_free (L_proc j) s"
  shows "\<exists>t. wakeup ch s e = Spin (L_proc i) t"
proof -
  define body where "body = (\<lambda>i. bnd myproc (\<lambda>me. if me \<noteq> Some i then thn (acquire (L_proc i))
      (thn (upd_proc i (wake_one ch)) (release (L_proc i) :: ('z pst_scheme, unit) kop)) else ret ()))"
  define h where "h j p = (if cproc (mycpu s) \<noteq> Some j then wake_one ch p else p)" for j p
  have up: "\<exists>P. foreach [0..<i] body s e = Ret () ((if i = 0 then s else touch s)\<lparr>procs := P\<rparr>) e"
  proof (cases "i = 0")
    case True
    then show ?thesis by (intro exI[of _ "procs s"]) simp
  next
    case False
    have "foreach [0..<i] body s e =
        Ret () ((touch s)\<lparr>procs := (\<lambda>j. if j < i then h j (procs s j) else procs s j)\<rparr>) e"
    proof (rule proc_loop)
      fix j P t
      assume j: "j < i" and t: "t = s \<or> t = touch s"
      then have wf: "cpu_wf t" "cproc (mycpu t) = cproc (mycpu s)" "touch t = touch s"
        "\<And>L. lock_free L t = lock_free L s"
        using i by auto
      have fr: "cproc (mycpu s) \<noteq> Some j \<Longrightarrow> lock_free (L_proc j) s" using below j by simp
      show "body j (t\<lparr>procs := P\<rparr>) e = Ret () ((touch s)\<lparr>procs := P(j := h j (P j))\<rparr>) e"
        using wf fr i by (cases "cproc (mycpu s) = Some j")
          (simp_all add: body_def kop_simps locked_update h_def del: thn_app)
    qed (use False in simp)
    then show ?thesis using False by auto
  qed
  then obtain P where P: "foreach [0..<i] body s e = Ret () ((if i = 0 then s else touch s)\<lparr>procs := P\<rparr>) e"
    by blast
  define u where "u = (if i = 0 then s else touch s)\<lparr>procs := P\<rparr>"
  have u: "cpu_wf u" "cproc (mycpu u) = cproc (mycpu s)" "locks (touch u) = locks s"
    "is_holding (L_proc i) (touch u) = is_holding (L_proc i) s"
    using i by (auto simp: u_def)
  have "acquire (L_proc i) (touch u) e = Spin (L_proc i) (push_off_st (touch u))"
    using u i by (intro acquire_Spin) simp_all
  then have bi: "body i u e = Spin (L_proc i) (push_off_st (touch u))"
    using u i by (simp add: body_def kop_simps)
  have "wakeup ch s e = bnd (foreach [0..<i] body) (\<lambda>_. foreach (i # [Suc i..<NPROC]) body) s e"
    unfolding wakeup_def body_def[symmetric] upt_split_at[OF i(1)] by (rule foreach_append)
  also have "\<dots> = Spin (L_proc i) (push_off_st (touch u))"
    using bi P by (simp add: bnd_def u_def[symmetric] thn_def)
  finally show ?thesis by blast
qed



text \<open>Process 2 sleeps on hart 0 until hart 1 wakes it.\<close>

definition sleeper_st :: pst where
  "sleeper_st = (acq L_ticks (set_mycpu (\<lambda>c. c\<lparr>cproc := Some 2\<rparr>) zero_pst))
     \<lparr>procs := (\<lambda>_. zero_proc)(2 := zero_proc\<lparr>pstate := RUNNING, pid := 1\<rparr>)\<rparr>"


end
