(* ===== verification/Sched.thy ===== *)
theory Sched
  imports Proc
begin

text \<open>
  The multi-level feedback queue scheduler of kernel/proc.c: \<open>scheduler\<close>, one pass of its
  endless loop at a time.  A pass scans the levels for a runnable process, switches to it,
  charges it for the ticks it used, and ages every process that waits.
\<close>

section \<open>The code\<close>

abbreviation MLFQ_LEVELS :: nat where "MLFQ_LEVELS \<equiv> 3"

definition mlfq_quantum :: "int list" where "mlfq_quantum = [1, 2, 4]"

definition AGING_THRESHOLD :: int where "AGING_THRESHOLD = 200"

text \<open>\<open>c\<close>, the CPU the scheduler runs on, is read once, before the loop.\<close>

definition set_cpu :: "nat \<Rightarrow> (cpu \<Rightarrow> cpu) \<Rightarrow> 'z kbase_scheme \<Rightarrow> 'z kbase_scheme" where
  "set_cpu c f s = s\<lparr>cpus := (cpus s)(c := f (cpus s c))\<rparr>"

text \<open>The first runnable process of a level, returned with its lock held.\<close>

definition scan_level :: "nat \<Rightarrow> ('z pst_scheme, nat option) kop" where
  "scan_level level =
     for_until [0..<NPROC] (\<lambda>i.
       thn (acquire (L_proc i)) (
       bnd (rd (\<lambda>s. pstate (procs s i) = RUNNABLE \<and> queue_level (procs s i) = int level)) (\<lambda>hit.
       if hit then ret (Some i)
       else
         thn (release (L_proc i))
         (ret None))))"

definition mlfq_scan :: "('z pst_scheme, nat option) kop" where
  "mlfq_scan = for_until [0..<MLFQ_LEVELS] scan_level"

definition sched_fmt :: "char list" where
  "sched_fmt =
     ''Scheduler: pid=%d, queue_level=%d, times scheduled=%d, CPU_ticks=%d'' @ [CHR 0x0A]"

definition sched_args :: "proc \<Rightarrow> vaarg list" where
  "sched_args p =
     [VW (word_of_int (pid p)), VW (word_of_int (queue_level p)),
      VW (word_of_int (n_run p)), VW (word_of_int (total_ticks p))]"

text \<open>Demotion at the end of a quantum.\<close>

definition demote :: "int \<Rightarrow> proc \<Rightarrow> proc" where
  "demote quantum p =
     (if quantum \<le> q_ticks p then
        (if queue_level p < int MLFQ_LEVELS - 1 then p\<lparr>queue_level := queue_level p + 1\<rparr> else p)
          \<lparr>q_ticks := 0\<rparr>
      else p)"

definition run_chosen :: "nat \<Rightarrow> nat \<Rightarrow> ('z pst_scheme, unit) kop" where
  "run_chosen c i =
     bnd (rd (\<lambda>s. sched_args (procs s i))) (\<lambda>args.
     thn (printf sched_fmt args) (
     bnd (rd (\<lambda>s. total_ticks (procs s i))) (\<lambda>prev_total.
     thn (upd_proc i (\<lambda>p. p\<lparr>pstate := RUNNING\<rparr>)) (
     thn (upd (set_cpu c (\<lambda>k. k\<lparr>cproc := Some i\<rparr>))) (
     thn (upd_proc i (\<lambda>p. p\<lparr>n_run := n_run p + 1\<rparr>)) (
     thn swtch (
     thn (upd (set_cpu c (\<lambda>k. k\<lparr>cproc := None\<rparr>))) (
     bnd (rd (\<lambda>s. total_ticks (procs s i) - prev_total)) (\<lambda>d.
     let used = (if d < 0 then 0 else d) in
     thn (upd_proc i (\<lambda>p. p\<lparr>q_ticks := q_ticks p + used\<rparr>)) (
     bnd (rd (\<lambda>s. queue_level (procs s i))) (\<lambda>l.
     if l < 0 \<or> int MLFQ_LEVELS \<le> l then undefined_behaviour else
     thn (upd_proc i (demote (mlfq_quantum ! nat l))) (
     thn (upd_proc i (\<lambda>p. p\<lparr>wait_time := 0\<rparr>))
     (release (L_proc i))))))))))))))"

definition age_one :: "proc \<Rightarrow> proc" where
  "age_one p =
     (if pstate p = RUNNABLE then
        (let p1 = p\<lparr>wait_time := wait_time p + 1\<rparr> in
         if AGING_THRESHOLD \<le> wait_time p1 \<and> 0 < queue_level p1
         then p1\<lparr>queue_level := queue_level p1 - 1, q_ticks := 0, wait_time := 0\<rparr> else p1)
      else p\<lparr>wait_time := 0\<rparr>)"

definition age_all :: "('z pst_scheme, unit) kop" where
  "age_all =
     foreach [0..<NPROC] (\<lambda>i.
       thn (acquire (L_proc i)) (
       thn (upd_proc i age_one)
       (release (L_proc i))))"

text \<open>One pass of \<open>for(;;)\<close>, and the scheduler up to its \<open>n\<close>-th pass.\<close>

definition sched_pass :: "nat \<Rightarrow> ('z pst_scheme, unit) kop" where
  "sched_pass c =
     thn (upd intr_on) (
     bnd mlfq_scan (\<lambda>chosen.
     thn (case chosen of None \<Rightarrow> ret () | Some i \<Rightarrow> run_chosen c i)
     age_all))"

definition scheduler :: "nat \<Rightarrow> ('z pst_scheme, unit) kop" where
  "scheduler n =
     bnd (rd cpuid) (\<lambda>c.
     thn (upd (set_cpu c (\<lambda>k. k\<lparr>cproc := None\<rparr>))) (
     foreach [0..<n] (\<lambda>_. sched_pass c)))"

section \<open>Which process is picked\<close>

definition at_level :: "(nat \<Rightarrow> proc) \<Rightarrow> nat \<Rightarrow> nat \<Rightarrow> bool" where
  "at_level P l i \<longleftrightarrow> pstate (P i) = RUNNABLE \<and> queue_level (P i) = int l"

definition mlfq_pick :: "(nat \<Rightarrow> proc) \<Rightarrow> nat option" where
  "mlfq_pick P =
     (case find_index (at_level P 0) [0..<NPROC] of Some i \<Rightarrow> Some i | None \<Rightarrow>
     (case find_index (at_level P 1) [0..<NPROC] of Some i \<Rightarrow> Some i | None \<Rightarrow>
      find_index (at_level P 2) [0..<NPROC]))"

definition sched_wf :: "(nat \<Rightarrow> proc) \<Rightarrow> bool" where
  "sched_wf P \<longleftrightarrow> (\<forall>i < NPROC. 0 \<le> queue_level (P i) \<and> queue_level (P i) < int MLFQ_LEVELS)"

lemma level_cases:
  assumes "0 \<le> queue_level p" "queue_level p < int MLFQ_LEVELS"
  obtains "queue_level p = 0" | "queue_level p = 1" | "queue_level p = 2"
  using assms by force

text \<open>The pick is the least process, by level and then by index, that can run.\<close>

lemma mlfq_pick_levels:
  "mlfq_pick P = Some i \<longleftrightarrow> (\<exists>l < MLFQ_LEVELS.
     (\<forall>k < l. find_index (at_level P k) [0..<NPROC] = None) \<and>
     find_index (at_level P l) [0..<NPROC] = Some i)"
proof -
  have "(\<exists>l < (3::nat). (\<forall>k < l. F k = None) \<and> F l = Some i) \<longleftrightarrow>
      (case F 0 of Some i \<Rightarrow> Some i | None \<Rightarrow> (case F 1 of Some i \<Rightarrow> Some i | None \<Rightarrow> F 2)) = Some i"
    for F :: "nat \<Rightarrow> nat option"
    by (cases "F 0"; cases "F 1") (auto simp: numeral_3_eq_3 numeral_2_eq_2 less_Suc_eq)
  then show ?thesis unfolding mlfq_pick_def by simp
qed

lemma mlfq_pick_Some:
  "mlfq_pick P = Some i \<longleftrightarrow>
     i < NPROC \<and> (\<exists>l < MLFQ_LEVELS. at_level P l i \<and> (\<forall>j < i. \<not> at_level P l j) \<and>
       (\<forall>k < l. \<forall>j < NPROC. \<not> at_level P k j))"
proof -
  have n: "find_index Q [0..<n] = None \<longleftrightarrow> (\<forall>j < n. \<not> Q j)" for Q and n :: nat
    by (auto simp: find_index_None)
  show ?thesis unfolding mlfq_pick_levels n find_index_upt by blast
qed

lemma mlfq_pick_None:
  assumes "sched_wf P"
  shows "mlfq_pick P = None \<longleftrightarrow> (\<forall>i < NPROC. pstate (P i) \<noteq> RUNNABLE)"
proof
  assume none: "mlfq_pick P = None"
  show "\<forall>i < NPROC. pstate (P i) \<noteq> RUNNABLE"
  proof (intro allI impI)
    fix i :: nat assume i: "i < NPROC"
    have "\<not> at_level P 0 i" "\<not> at_level P 1 i" "\<not> at_level P 2 i"
      using none i by (auto simp: mlfq_pick_def find_index_None split: option.splits)
    moreover have "0 \<le> queue_level (P i)" "queue_level (P i) < int MLFQ_LEVELS"
      using assms i by (auto simp: sched_wf_def)
    ultimately show "pstate (P i) \<noteq> RUNNABLE"
      by (auto simp: at_level_def elim: level_cases)
  qed
next
  assume "\<forall>i < NPROC. pstate (P i) \<noteq> RUNNABLE"
  then have "find_index (at_level P l) [0..<NPROC] = None" for l
    by (simp add: find_index_None at_level_def)
  then show "mlfq_pick P = None" by (simp add: mlfq_pick_def)
qed

section \<open>What one pass does\<close>

definition sched_msg :: "proc \<Rightarrow> char list" where
  "sched_msg p = (case format sched_fmt (sched_args p) of Some out \<Rightarrow> out | None \<Rightarrow> [])"

text \<open>The state in which the chosen process starts to run.\<close>

definition dispatched :: "nat \<Rightarrow> 'z pst_scheme \<Rightarrow> 'z pst_scheme" where
  "dispatched i s = (set_cpu (hart s) (\<lambda>k. k\<lparr>cproc := Some i\<rparr>) (acq (L_proc i) (intr_on s)))
     \<lparr>thr := thr s @ bytes_of (sched_msg (procs s i)),
      procs := (procs s)(i := (procs s i)\<lparr>pstate := RUNNING, n_run := n_run (procs s i) + 1\<rparr>)\<rparr>"

text \<open>What the scheduler does to the process that ran, \<open>used\<close> ticks later.\<close>

definition charge :: "int \<Rightarrow> proc \<Rightarrow> proc" where
  "charge used p =
     (demote (mlfq_quantum ! nat (queue_level p)) (p\<lparr>q_ticks := q_ticks p + max 0 used\<rparr>))
       \<lparr>wait_time := 0\<rparr>"

definition settled :: "nat \<Rightarrow> int \<Rightarrow> 'z pst_scheme \<Rightarrow> 'z pst_scheme" where
  "settled i prev t = (rel (L_proc i) (set_cpu (hart t) (\<lambda>k. k\<lparr>cproc := None\<rparr>) t))
     \<lparr>procs := (procs t)(i := charge (total_ticks (procs t i) - prev) (procs t i))\<rparr>"

definition aged :: "'z pst_scheme \<Rightarrow> 'z pst_scheme" where
  "aged s = (touch s)\<lparr>procs := (\<lambda>i. if i < NPROC then age_one (procs s i) else procs s i)\<rparr>"

text \<open>
  The state the scheduler starts a pass in, and the one in which a process gives the CPU back:
  it has the process's lock and no other.
\<close>

definition sched_idle :: "'z pst_scheme \<Rightarrow> bool" where
  "sched_idle s \<longleftrightarrow> noff (mycpu s) = 0 \<and> cproc (mycpu s) = None \<and> plocks_free s \<and>
     lock_free L_pr s \<and> \<not> panicked s \<and> \<not> panicking s"

definition given_back :: "nat \<Rightarrow> 'z pst_scheme \<Rightarrow> bool" where
  "given_back i t \<longleftrightarrow> sched_ready i t \<and> (\<forall>j < NPROC. j \<noteq> i \<longrightarrow> lock_free (L_proc j) t) \<and>
     0 \<le> queue_level (procs t i) \<and> queue_level (procs t i) < int MLFQ_LEVELS"

lemma set_cpu_mycpu: "c = hart s \<Longrightarrow> set_cpu c f s = set_mycpu f s"
  by (simp add: set_cpu_def set_mycpu_def mycpu_def cpuid_def r_tp_def)

lemma set_cpu_frame [simp]:
  "set_cpu c f (thr_update g s) = thr_update g (set_cpu c f s)"
  "set_cpu c f (procs_update h u) = procs_update h (set_cpu c f u)"
  "thr (set_cpu c f s) = thr s" "procs (set_cpu c f u) = procs u" "hart (set_cpu c f s) = hart s"
  "locks (set_cpu c f s) = locks s"
  by (simp_all add: set_cpu_def)

lemma set_cpu_kout [simp]: "panicked (set_cpu c f s) = panicked s"
  "panicking (set_cpu c f s) = panicking s"
  by (simp_all add: set_cpu_def)

lemma intr_on_simps [simp]:
  "hart (intr_on s) = hart s" "mycpu (intr_on s) = mycpu s" "lock_free L (intr_on s) = lock_free L s"
  "is_holding L (intr_on s) = is_holding L s" "intr_get (intr_on s)" "plocks_free (intr_on s) = plocks_free s"
  by (simp_all add: base_defs plocks_free_def)

lemma intr_on_kout [simp]:
  "thr (intr_on s) = thr s" "panicked (intr_on s) = panicked s" "panicking (intr_on s) = panicking s"
  by (simp_all add: intr_on_def w_sstatus_def)

lemma sched_msg_format: "format sched_fmt (sched_args p) = Some (sched_msg p)"
  by (simp add: sched_msg_def sched_fmt_def sched_args_def fmt_at_def nul_def)

lemma scan_level_Ret:
  assumes "plocks_free s" "cpu_wf s" "t = s \<or> t = touch s"
  shows "scan_level l t e = (case find_index (at_level (procs s) l) [0..<NPROC] of
      None \<Rightarrow> Ret None (touch s) e | Some i \<Rightarrow> Ret (Some i) (acq (L_proc i) s) e)"
proof -
  have free: "i < NPROC \<Longrightarrow> lock_free (L_proc i) s" for i
    using assms by (simp add: plocks_free_def)
  show ?thesis
    unfolding scan_level_def
    by (rule proc_search[where s = s])
      (use assms free in \<open>auto simp: kop_simps lock_freeD cpu_wf_def[of s] at_level_def\<close>)
qed

lemma mlfq_scan_Ret:
  assumes "plocks_free s" "cpu_wf s"
  shows "mlfq_scan s e = (case mlfq_pick (procs s) of
      None \<Rightarrow> Ret None (touch s) e | Some i \<Rightarrow> Ret (Some i) (acq (L_proc i) s) e)"
proof -
  have 3: "[0..<3] = [0, 1, 2::nat]" by (simp add: upt_rec)
  show ?thesis
    using scan_level_Ret[OF assms]
    by (simp add: mlfq_scan_def 3 mlfq_pick_def bnd_def split: option.split)
qed

text \<open>Every level \<open>l\<close> in range has a quantum.\<close>

lemma run_chosen_dispatch:
  assumes "lock_free (L_proc i) s" "lock_free L_pr s" "\<not> panicked s" "\<not> panicking s"
    "noff (mycpu s) = 0" and c: "c = hart s"
  shows "run_chosen c i (acq (L_proc i) (intr_on s)) e =
    bnd swtch (\<lambda>_. 
     thn (upd (set_cpu c (\<lambda>k. k\<lparr>cproc := None\<rparr>))) (
     bnd (rd (\<lambda>t. total_ticks (procs t i) - total_ticks (procs s i))) (\<lambda>d.
     let used = (if d < 0 then 0 else d) in
     thn (upd_proc i (\<lambda>p. p\<lparr>q_ticks := q_ticks p + used\<rparr>)) (
     bnd (rd (\<lambda>s. queue_level (procs s i))) (\<lambda>l.
     if l < 0 \<or> int MLFQ_LEVELS \<le> l then undefined_behaviour else
     thn (upd_proc i (demote (mlfq_quantum ! nat l))) (
     thn (upd_proc i (\<lambda>p. p\<lparr>wait_time := 0\<rparr>))
     (release (L_proc i)))))))) (dispatched i s) e"
proof -
  let ?s = "acq (L_proc i) (intr_on s)"
  have "printf sched_fmt (sched_args (procs s i)) ?s e =
      Ret 0 (?s\<lparr>thr := thr s @ bytes_of (sched_msg (procs s i))\<rparr>) e"
    using assms printf_Ret[OF sched_msg_format, of ?s "procs s i" e] by (simp add: cpu_wf_def)
  then show ?thesis
    by (simp add: run_chosen_def kop_simps dispatched_def c)
qed

lemma given_backD:
  assumes "given_back i t"
  shows "is_holding (L_proc i) t" "noff (mycpu t) = 1" "\<not> intr_get t"
    "0 \<le> queue_level (procs t i)" "queue_level (procs t i) < int MLFQ_LEVELS"
    "j < NPROC \<Longrightarrow> j \<noteq> i \<Longrightarrow> lock_free (L_proc j) t"
  using assms by (auto simp: given_back_def sched_ready_def own_lock_only_def)

lemma run_chosen_Ret:
  assumes "lock_free (L_proc i) s" "lock_free L_pr s" "\<not> panicked s" "\<not> panicking s"
    "noff (mycpu s) = 0" "c = hart s"
    and gb: "given_back i (f (dispatched i s))" "hart (f (dispatched i s)) = c"
  shows "run_chosen c i (acq (L_proc i) (intr_on s)) (f # fs) =
    Ret () (settled i (total_ticks (procs s i)) (f (dispatched i s))) fs"
proof -
  define t where "t = f (dispatched i s)"
  define t' where "t' = set_mycpu (\<lambda>k. k\<lparr>cproc := None\<rparr>) t"
  note b = given_backD[OF gb(1), folded t_def]
  have h: "hart t = c" using gb(2) by (simp add: t_def)
  have rl: "release (L_proc i) (t'\<lparr>procs := P\<rparr>) fs = Ret () (rel (L_proc i) (t'\<lparr>procs := P\<rparr>)) fs" for P
    using b(1-3) by (intro release_Ret) (simp_all add: t'_def)
  show ?thesis
    unfolding run_chosen_dispatch[OF assms(1-6)] settled_def t_def[symmetric]
    using b(4,5) h rl unfolding t'_def
    by (simp add: kop_simps t_def[symmetric] set_cpu_mycpu Let_def charge_def max_def not_le not_less
        undefined_behaviour_def)
qed

lemma age_all_Ret:
  assumes "plocks_free s" "cpu_wf s"
  shows "age_all s e = Ret () (aged s) e"
  unfolding age_all_def aged_def
proof (rule proc_loop)
  fix i P t assume "i < NPROC" "t = s \<or> t = touch s"
  then show "thn (acquire (L_proc i)) (thn (upd_proc i age_one) (release (L_proc i)))
      (t\<lparr>procs := P\<rparr>) e = Ret () ((touch s)\<lparr>procs := P(i := age_one (P i))\<rparr>) e"
    using assms by (subst locked_update) (auto simp: plocks_free_def)
qed simp

lemma sched_idleD:
  assumes "sched_idle s"
  shows "noff (mycpu s) = 0" "cproc (mycpu s) = None" "plocks_free s" "lock_free L_pr s"
    "\<not> panicked s" "\<not> panicking s" "cpu_wf s" "cpu_wf (intr_on s)"
    "i < NPROC \<Longrightarrow> lock_free (L_proc i) s"
  using assms by (auto simp: sched_idle_def cpu_wf_def plocks_free_def)

lemma mlfq_pick_less: "mlfq_pick P = Some i \<Longrightarrow> i < NPROC"
  by (auto simp: mlfq_pick_Some)

lemma aged_touch [simp]: "aged (touch s) = aged s"
proof -
  have "procs (touch s) = procs s" by simp
  then show ?thesis unfolding aged_def by (simp only: touch_simps)
qed

text \<open>A pass with nothing to run only ages; a pass with a pick runs it, charges it and ages.\<close>

lemma pass_nothing:
  assumes "sched_idle s" "mlfq_pick (procs s) = None"
  shows "sched_pass c s e = Ret () (aged (intr_on s)) e"
  using assms sched_idleD[OF assms(1)]
  by (simp add: sched_pass_def kop_simps mlfq_scan_Ret age_all_Ret)

lemma pass_dispatch:
  assumes "sched_idle s" "mlfq_pick (procs s) = Some i"
  shows "sched_pass (hart s) s [] = Off (dispatched i s)"
  using assms sched_idleD[OF assms(1)] mlfq_pick_less[OF assms(2)]
  by (simp add: sched_pass_def kop_simps mlfq_scan_Ret run_chosen_dispatch)

lemma settled_frame:
  assumes "given_back i t" "i < NPROC"
  shows "plocks_free (settled i prev t)" "noff (mycpu (settled i prev t)) = 0"
    "cproc (mycpu (settled i prev t)) = None" "hart (settled i prev t) = hart t"
    "lock_free L_pr (settled i prev t) = lock_free L_pr t"
  using assms given_backD[OF assms(1)]
  by (auto simp: settled_def plocks_free_def set_cpu_mycpu lock_free_def)

lemma pass_run:
  assumes "sched_idle s" "mlfq_pick (procs s) = Some i"
    and gb: "given_back i (f (dispatched i s))" "hart (f (dispatched i s)) = hart s"
  shows "sched_pass (hart s) s (f # fs) =
    Ret () (aged (settled i (total_ticks (procs s i)) (f (dispatched i s)))) fs"
proof -
  note d = sched_idleD[OF assms(1)] mlfq_pick_less[OF assms(2)]
  have p: "plocks_free (intr_on s)" using d by simp
  have wf: "cpu_wf (settled i prev (f (dispatched i s)))" for prev
    using settled_frame[OF gb(1) d(10)] by (simp add: cpu_wf_def)
  have pick: "mlfq_pick (procs (intr_on s)) = Some i" using assms(2) by simp
  have "mlfq_scan (intr_on s) (f # fs) = Ret (Some i) (acq (L_proc i) (intr_on s)) (f # fs)"
    using mlfq_scan_Ret[OF p d(8)] pick by simp
  moreover have "run_chosen (hart s) i (acq (L_proc i) (intr_on s)) (f # fs) =
      Ret () (settled i (total_ticks (procs s i)) (f (dispatched i s))) fs"
    using d gb by (intro run_chosen_Ret) auto
  moreover have "age_all (settled i (total_ticks (procs s i)) (f (dispatched i s))) fs =
      Ret () (aged (settled i (total_ticks (procs s i)) (f (dispatched i s)))) fs"
    using settled_frame(1)[OF gb(1) d(10)] wf by (rule age_all_Ret)
  ultimately show ?thesis by (simp add: sched_pass_def thn_app bnd_Ret)
qed

lemma aged_frame [simp]:
  "noff (mycpu (aged s)) = noff (mycpu s)" "cproc (mycpu (aged s)) = cproc (mycpu s)"
  "plocks_free (aged s) = plocks_free s" "lock_free L (aged s) = lock_free L s"
  "panicked (aged s) = panicked s" "panicking (aged s) = panicking s" "hart (aged s) = hart s"
  by (simp_all add: aged_def)

lemma settled_kout [simp]:
  "panicked (settled i prev t) = panicked t" "panicking (settled i prev t) = panicking t"
  by (simp_all add: settled_def)

text \<open>A pass ends in a state in which the next one can start.\<close>

lemma pass_idle:
  assumes "sched_idle s" "mlfq_pick (procs s) = None"
  shows "sched_idle (aged (intr_on s))"
  using assms by (simp add: sched_idle_def)

lemma pass_idle_run:
  assumes "given_back i t" "i < NPROC" "lock_free L_pr t" "\<not> panicked t" "\<not> panicking t"
  shows "sched_idle (aged (settled i prev t))"
  using assms settled_frame[OF assms(1,2)] by (simp add: sched_idle_def)

text \<open>
  The two halves of a context switch fit: the process is entered holding its own lock and no
  other, with interrupts off, and marked \<open>RUNNING\<close>.
\<close>

lemma dispatched_resumed:
  assumes "sched_idle s" "mlfq_pick (procs s) = Some i"
  shows "resumed i (dispatched i s)" "j \<noteq> i \<Longrightarrow> j < NPROC \<Longrightarrow> lock_free (L_proc j) (dispatched i s)"
    "hart (dispatched i s) = hart s"
  using sched_idleD[OF assms(1)]
  by (auto simp: resumed_def own_lock_only_def dispatched_def set_cpu_mycpu)

section \<open>The scheduling data stays in range\<close>

definition mlfq_ok :: "proc \<Rightarrow> bool" where
  "mlfq_ok p \<longleftrightarrow> 0 \<le> queue_level p \<and> queue_level p < int MLFQ_LEVELS \<and>
     0 \<le> q_ticks p \<and> q_ticks p < mlfq_quantum ! nat (queue_level p) \<and>
     0 \<le> wait_time p \<and> (0 < queue_level p \<longrightarrow> wait_time p < AGING_THRESHOLD)"

definition mlfq_inv :: "(nat \<Rightarrow> proc) \<Rightarrow> bool" where
  "mlfq_inv P \<longleftrightarrow> (\<forall>i < NPROC. mlfq_ok (P i))"

lemma mlfq_ok_level:
  assumes "mlfq_ok p"
  obtains "queue_level p = 0" | "queue_level p = 1" | "queue_level p = 2"
  using assms by (auto simp: mlfq_ok_def elim: level_cases)

lemma mlfq_ok_charge:
  assumes "mlfq_ok p"
  shows "mlfq_ok (charge used p)"
  using assms by (rule mlfq_ok_level)
    (use assms in \<open>auto simp: mlfq_ok_def charge_def demote_def max_def mlfq_quantum_def AGING_THRESHOLD_def\<close>)

lemma mlfq_ok_age_one:
  assumes "mlfq_ok p"
  shows "mlfq_ok (age_one p)"
  using assms by (rule mlfq_ok_level)
    (use assms in \<open>auto simp: mlfq_ok_def age_one_def Let_def mlfq_quantum_def AGING_THRESHOLD_def\<close>)

lemma mlfq_ok_wake_one:
  assumes "mlfq_ok p"
  shows "mlfq_ok (wake_one ch p)"
  using assms by (rule mlfq_ok_level)
    (use assms in \<open>auto simp: mlfq_ok_def wake_one_def mlfq_quantum_def AGING_THRESHOLD_def\<close>)

lemma mlfq_ok_irrelevant [simp]:
  "mlfq_ok (p\<lparr>pstate := st\<rparr>) = mlfq_ok p" "mlfq_ok (p\<lparr>n_run := n\<rparr>) = mlfq_ok p"
  "mlfq_ok (p\<lparr>pchan := ch\<rparr>) = mlfq_ok p" "mlfq_ok (p\<lparr>pkilled := k\<rparr>) = mlfq_ok p"
  "mlfq_ok (p\<lparr>total_ticks := k\<rparr>) = mlfq_ok p"
  by (simp_all add: mlfq_ok_def)

lemma mlfq_inv_wf: "mlfq_inv P \<Longrightarrow> sched_wf P"
  by (simp add: mlfq_inv_def sched_wf_def mlfq_ok_def)

lemma mlfq_inv_aged: "mlfq_inv (procs s) \<Longrightarrow> mlfq_inv (procs (aged s))"
  by (simp add: mlfq_inv_def aged_def mlfq_ok_age_one)

lemma mlfq_inv_settled: "mlfq_inv (procs t) \<Longrightarrow> mlfq_inv (procs (settled i prev t))"
  by (auto simp: mlfq_inv_def settled_def mlfq_ok_charge)

lemma mlfq_inv_dispatched: "mlfq_inv (procs s) \<Longrightarrow> mlfq_inv (procs (dispatched i s))"
  by (auto simp: mlfq_inv_def dispatched_def)

lemma mlfq_inv_wakeup: "mlfq_inv (procs s) \<Longrightarrow> mlfq_inv (procs (wakeup_st ch s))"
  by (auto simp: mlfq_inv_def wakeup_st_def woken_def mlfq_ok_wake_one)

section \<open>Aging\<close>

text \<open>
  \<open>waits j n s u\<close>: process \<open>j\<close> is not picked in any of the \<open>n\<close> passes that lead from \<open>s\<close> to
  \<open>u\<close>, and the processes that run in between leave it alone.
\<close>

definition leaves :: "nat \<Rightarrow> ('z pst_scheme \<Rightarrow> 'z pst_scheme) \<Rightarrow> bool" where
  "leaves j f \<longleftrightarrow> (\<forall>t. procs (f t) j = procs t j)"

definition gives_back :: "('z pst_scheme \<Rightarrow> 'z pst_scheme) \<Rightarrow> bool" where
  "gives_back f \<longleftrightarrow> (\<forall>i t. given_back i (f (dispatched i t)) \<and> hart (f (dispatched i t)) = hart t)"

inductive waits :: "nat \<Rightarrow> nat \<Rightarrow> 'z pst_scheme \<Rightarrow> 'z pst_scheme \<Rightarrow> bool" where
  none: "waits j 0 s s"
| idle: "waits j n s t \<Longrightarrow> sched_idle t \<Longrightarrow> mlfq_pick (procs t) = None \<Longrightarrow>
     sched_pass (hart t) t [] = Ret () u [] \<Longrightarrow> waits j (Suc n) s u"
| other: "waits j n s t \<Longrightarrow> sched_idle t \<Longrightarrow> mlfq_pick (procs t) = Some i \<Longrightarrow> i \<noteq> j \<Longrightarrow>
     given_back i (f (dispatched i t)) \<Longrightarrow> hart (f (dispatched i t)) = hart t \<Longrightarrow>
     procs (f (dispatched i t)) j = procs (dispatched i t) j \<Longrightarrow>
     sched_pass (hart t) t [f] = Ret () u [] \<Longrightarrow> waits j (Suc n) s u"

lemma waits_age: "waits j n s u \<Longrightarrow> j < NPROC \<Longrightarrow> procs u j = (age_one ^^ n) (procs s j)"
proof (induction rule: waits.induct)
  case (none j s)
  then show ?case by simp
next
  case (idle j n s t u)
  then have "u = aged (intr_on t)" by (simp add: pass_nothing)
  then show ?case using idle by (simp add: aged_def)
next
  case (other j n s t i f u)
  then have "u = aged (settled i (total_ticks (procs t i)) (f (dispatched i t)))"
    by (simp add: pass_run)
  then show ?case using other by (simp add: aged_def settled_def dispatched_def)
qed

lemma age_one_RUNNABLE: "pstate (age_one p) = pstate p"
  by (simp add: age_one_def Let_def)

lemma age_n_RUNNABLE: "pstate ((age_one ^^ n) p) = pstate p"
  by (induction n) (simp_all add: age_one_RUNNABLE)

lemma age_below:
  assumes "pstate p = RUNNABLE" "wait_time p + int n < AGING_THRESHOLD"
  shows "(age_one ^^ n) p = p\<lparr>wait_time := wait_time p + int n\<rparr>"
  using assms
proof (induction n)
  case 0
  then show ?case by simp
next
  case (Suc n)
  then show ?case by (simp add: age_one_def algebra_simps)
qed

text \<open>The pass at which the threshold is reached.\<close>

lemma age_promotes:
  assumes "pstate p = RUNNABLE" "0 < queue_level p" "wait_time p + int n = AGING_THRESHOLD" "0 < n"
  shows "(age_one ^^ n) p = p\<lparr>queue_level := queue_level p - 1, q_ticks := 0, wait_time := 0\<rparr>"
proof -
  obtain m where n: "n = Suc m" using assms(4) by (cases n) auto
  have "(age_one ^^ m) p = p\<lparr>wait_time := wait_time p + int m\<rparr>"
    using assms n by (intro age_below) auto
  then show ?thesis using assms n by (simp add: age_one_def algebra_simps)
qed

lemma age_level_mono: "0 \<le> queue_level p \<Longrightarrow>
    0 \<le> queue_level (age_one p) \<and> queue_level (age_one p) \<le> queue_level p"
  by (simp add: age_one_def Let_def)

lemma age_n_level_0:
  assumes "queue_level p = 0"
  shows "queue_level ((age_one ^^ n) p) = 0"
  using assms by (induction n) (simp_all add: age_one_def)

lemma age_level_reach:
  assumes "mlfq_ok p" "pstate p = RUNNABLE" "0 < queue_level p"
  shows "\<exists>n \<le> 200. queue_level ((age_one ^^ n) p) = queue_level p - 1"
proof -
  define n where "n = nat (AGING_THRESHOLD - wait_time p)"
  have n: "wait_time p + int n = AGING_THRESHOLD" "0 < n" "n \<le> 200"
    using assms by (auto simp: n_def mlfq_ok_def AGING_THRESHOLD_def)
  have "(age_one ^^ n) p = p\<lparr>queue_level := queue_level p - 1, q_ticks := 0, wait_time := 0\<rparr>"
    using assms n by (intro age_promotes) auto
  then show ?thesis using n(3) by (intro exI[of _ n]) simp
qed

lemma mlfq_ok_age_n: "mlfq_ok p \<Longrightarrow> mlfq_ok ((age_one ^^ n) p)"
  by (induction n) (simp_all add: mlfq_ok_age_one)

lemma age_split: "k \<le> m \<Longrightarrow> (age_one ^^ m) p = (age_one ^^ (m - k)) ((age_one ^^ k) p)"
  by (metis comp_apply funpow_add le_add_diff_inverse2)

text \<open>From level \<open>l\<close>, the top is reached within \<open>200 * l\<close> passes.\<close>

lemma age_top_level:
  assumes "mlfq_ok p" "pstate p = RUNNABLE" "queue_level p = int l" "200 * l \<le> n"
  shows "queue_level ((age_one ^^ n) p) = 0"
  using assms
proof (induction l arbitrary: p n)
  case 0
  then show ?case by (simp add: age_n_level_0)
next
  case (Suc l)
  have pos: "0 < queue_level p" using Suc.prems(3) by simp
  obtain k where k: "k \<le> 200" "queue_level ((age_one ^^ k) p) = queue_level p - 1"
    using age_level_reach[OF Suc.prems(1,2) pos] by blast
  have "queue_level ((age_one ^^ (n - k)) ((age_one ^^ k) p)) = 0"
    using Suc.prems k by (intro Suc.IH) (simp_all add: mlfq_ok_age_n age_n_RUNNABLE)
  moreover have "k \<le> n" using k(1) Suc.prems(4) by simp
  ultimately show ?case by (simp add: age_split)
qed

lemma age_top:
  assumes "mlfq_ok p" "pstate p = RUNNABLE" "400 \<le> n"
  shows "queue_level ((age_one ^^ n) p) = 0"
proof -
  have "0 \<le> queue_level p" "queue_level p < 3" using assms(1) by (auto simp: mlfq_ok_def)
  then show ?thesis using assms by (intro age_top_level[where l = "nat (queue_level p)"]) auto
qed

section \<open>No rotation inside a level\<close>

text \<open>
  The scan starts at the first process in every pass, so a process that stays runnable on its
  level is picked again, until another one is promoted or woken.
\<close>

lemma mlfq_pick_cong:
  assumes "\<And>j l. j < NPROC \<Longrightarrow> at_level P l j = at_level Q l j"
  shows "mlfq_pick P = mlfq_pick Q"
proof -
  have "find_index (at_level P l) xs = find_index (at_level Q l) xs"
    if "set xs \<subseteq> {..<NPROC}" for l xs
    using that assms by (induction xs) auto
  then have "find_index (at_level P l) [0..<NPROC] = find_index (at_level Q l) [0..<NPROC]" for l
    by (simp add: atLeast0LessThan)
  then show ?thesis by (simp add: mlfq_pick_def split: option.split)
qed

lemma age_one_level:
  "pstate p \<noteq> RUNNABLE \<or> wait_time p + 1 < AGING_THRESHOLD \<Longrightarrow> queue_level (age_one p) = queue_level p"
  by (auto simp: age_one_def Let_def)

lemma pick_again:
  assumes pick: "mlfq_pick (procs s) = Some i"
    and st: "pstate (procs t i) = RUNNABLE"
    and lv: "queue_level (charge (total_ticks (procs t i) - prev) (procs t i)) = queue_level (procs s i)"
    and others: "\<And>j. j \<noteq> i \<Longrightarrow> procs t j = procs s j"
    and young: "\<And>j. j < NPROC \<Longrightarrow> pstate (procs s j) = RUNNABLE \<Longrightarrow> wait_time (procs s j) + 1 < AGING_THRESHOLD"
  shows "mlfq_pick (procs (aged (settled i prev t))) = Some i"
proof -
  have si: "pstate (procs s i) = RUNNABLE" using pick by (auto simp: mlfq_pick_Some at_level_def)
  have ci: "pstate (charge u p) = pstate p" "wait_time (charge u p) = 0" for u p
    by (simp_all add: charge_def demote_def)
  have "mlfq_pick (procs (aged (settled i prev t))) = mlfq_pick (procs s)"
  proof (rule mlfq_pick_cong)
    fix j l assume j: "j < NPROC"
    define q where "q = procs (settled i prev t) j"
    have q: "pstate q = pstate (procs s j)" "queue_level q = queue_level (procs s j)"
      "pstate q \<noteq> RUNNABLE \<or> wait_time q + 1 < AGING_THRESHOLD"
      using others[of j] young[OF j] st lv si
      by (cases "j = i"; simp add: q_def settled_def ci AGING_THRESHOLD_def; blast)+
    have "procs (aged (settled i prev t)) j = age_one q" using j by (simp add: aged_def q_def)
    then show "at_level (procs (aged (settled i prev t))) l j = at_level (procs s) l j"
      using q by (simp add: at_level_def age_one_RUNNABLE age_one_level)
  qed
  then show ?thesis using pick by simp
qed

section \<open>Properties\<close>

text \<open>The example: two runnable processes, the second on a better level.\<close>

definition two_procs :: "nat \<Rightarrow> proc" where
  "two_procs = (\<lambda>_. zero_proc)(0 := zero_proc\<lparr>pstate := RUNNABLE, pid := 1, queue_level := 2\<rparr>,
     1 := zero_proc\<lparr>pstate := RUNNABLE, pid := 2, queue_level := 1\<rparr>)"

definition two_st :: pst where
  "two_st = zero_pst\<lparr>procs := two_procs\<rparr>"

text \<open>The process that runs is interrupted by its first tick and yields.\<close>

definition tick_yield :: "nat \<Rightarrow> pst \<Rightarrow> pst" where
  "tick_yield i t = t\<lparr>procs := (procs t)(i :=
     (procs t i)\<lparr>total_ticks := total_ticks (procs t i) + 1, pstate := RUNNABLE\<rparr>)\<rparr>"

lemma two_st_idle: "sched_idle two_st"
  by (simp add: two_st_def sched_idle_def zero_pst_def plocks_free_def base_defs)

lemma two_st_pick: "mlfq_pick (procs two_st) = Some 1"
  by (simp add: two_st_def mlfq_pick_def two_procs_def at_level_def upt_rec)

lemma two_st_inv: "mlfq_inv (procs two_st)"
  by (simp add: two_st_def mlfq_inv_def two_procs_def mlfq_ok_def mlfq_quantum_def
      AGING_THRESHOLD_def)

lemma tick_yield_back:
  assumes "sched_idle s" "mlfq_pick (procs s) = Some i" "mlfq_inv (procs s)"
  shows "given_back i (tick_yield i (dispatched i s))" "hart (tick_yield i (dispatched i s)) = hart s"
    "mlfq_inv (procs (tick_yield i (dispatched i s)))"
proof -
  have i: "i < NPROC" using assms(2) by (rule mlfq_pick_less)
  have "mlfq_ok (procs s i)" using assms(3) i by (simp add: mlfq_inv_def)
  then show "given_back i (tick_yield i (dispatched i s))"
    "hart (tick_yield i (dispatched i s)) = hart s"
    using dispatched_resumed[OF assms(1,2)] i
    by (auto simp: given_back_def sched_ready_def resumed_def own_lock_only_def tick_yield_def
        dispatched_def mlfq_ok_def)
  show "mlfq_inv (procs (tick_yield i (dispatched i s)))"
    using mlfq_inv_dispatched[OF assms(3), of i] by (simp add: mlfq_inv_def tick_yield_def)
qed

text \<open>
  One pass of the scheduler, from a state in which the hart is idle, has exactly the effect
  its parts describe.  With nothing to run it only ages the table; otherwise it leaves the CPU
  to the picked process, and when that process gives the CPU back it is charged, its lock is
  released and the table is aged.
\<close>

theorem scheduler_pass_effect:
  assumes "sched_idle s"
  shows "(mlfq_pick (procs s) = None \<longrightarrow> sched_pass (hart s) s e = Ret () (aged (intr_on s)) e) \<and>
    (\<forall>i. mlfq_pick (procs s) = Some i \<longrightarrow>
       sched_pass (hart s) s [] = Off (dispatched i s) \<and>
       (\<forall>f fs. given_back i (f (dispatched i s)) \<and> hart (f (dispatched i s)) = hart s \<longrightarrow>
          sched_pass (hart s) s (f # fs) =
            Ret () (aged (settled i (total_ticks (procs s i)) (f (dispatched i s)))) fs))"
  using assms by (auto simp: pass_nothing pass_dispatch pass_run)

theorem scheduler_pass_effect_witness:
  "sched_pass 0 two_st [tick_yield 1] =
     Ret () (aged (settled 1 0 (tick_yield 1 (dispatched 1 two_st)))) []"
  using scheduler_pass_effect[OF two_st_idle] two_st_pick
    tick_yield_back[OF two_st_idle two_st_pick two_st_inv]
  by (simp add: two_st_def two_procs_def)





text \<open>
  Process 0 gives the CPU back before its first tick, every time: it stays first on level 0.
\<close>

definition early_yield :: "nat \<Rightarrow> 'z pst_scheme \<Rightarrow> 'z pst_scheme" where
  "early_yield i t = t\<lparr>procs := (procs t)(i := (procs t i)\<lparr>pstate := RUNNABLE\<rparr>)\<rparr>"

definition first_on_top :: "'z pst_scheme \<Rightarrow> bool" where
  "first_on_top s \<longleftrightarrow> sched_idle s \<and> pstate (procs s 0) = RUNNABLE \<and> queue_level (procs s 0) = 0 \<and>
     q_ticks (procs s 0) = 0"

lemma first_on_top_pick: "first_on_top s \<Longrightarrow> mlfq_pick (procs s) = Some 0"
  by (simp add: first_on_top_def mlfq_pick_def at_level_def upt_rec)

lemma early_yield_back:
  assumes "first_on_top s"
  shows "given_back 0 (early_yield 0 (dispatched 0 s))" "hart (early_yield 0 (dispatched 0 s)) = hart s"
  using assms dispatched_resumed[OF _ first_on_top_pick[OF assms]]
  by (auto simp: first_on_top_def given_back_def sched_ready_def resumed_def own_lock_only_def
      early_yield_def dispatched_def)

lemma first_on_top_stays:
  assumes "first_on_top s"
  shows "\<exists>u. sched_pass (hart s) s (early_yield 0 # fs) = Ret () u fs \<and> first_on_top u"
proof -
  define t where "t = early_yield 0 (dispatched 0 s)"
  have idle: "sched_idle s" using assms by (simp add: first_on_top_def)
  note gb = early_yield_back[OF assms, folded t_def]
  have "lock_free L_pr t" "\<not> panicked t" "\<not> panicking t"
    using idle by (auto simp: t_def early_yield_def dispatched_def sched_idle_def lock_free_def)
  then have "sched_idle (aged (settled 0 (total_ticks (procs s 0)) t))"
    using gb by (intro pass_idle_run) auto
  moreover have "procs t 0 = (procs s 0)\<lparr>n_run := n_run (procs s 0) + 1, pstate := RUNNABLE\<rparr>"
    using assms by (simp add: t_def early_yield_def dispatched_def)
  then have "procs (aged (settled 0 (total_ticks (procs s 0)) t)) 0 =
      age_one (charge 0 ((procs s 0)\<lparr>n_run := n_run (procs s 0) + 1, pstate := RUNNABLE\<rparr>))"
    by (simp add: aged_def settled_def)
  ultimately have "first_on_top (aged (settled 0 (total_ticks (procs s 0)) t))"
    using assms by (simp add: first_on_top_def charge_def demote_def mlfq_quantum_def age_one_def)
  moreover have "sched_pass (hart s) s (early_yield 0 # fs) =
      Ret () (aged (settled 0 (total_ticks (procs s 0)) t)) fs"
    using pass_run[where f = "early_yield 0", OF idle first_on_top_pick[OF assms]] gb t_def by simp
  ultimately show ?thesis by blast
qed

lemma first_on_top_waits:
  assumes "first_on_top s" "j \<noteq> 0"
  shows "\<exists>u. waits j n s u \<and> first_on_top u"
proof (induction n)
  case 0
  then show ?case using assms waits.none by blast
next
  case (Suc n)
  then obtain t where t: "waits j n s t" "first_on_top t" by blast
  obtain u where u: "sched_pass (hart t) t [early_yield 0] = Ret () u []" "first_on_top u"
    using first_on_top_stays[OF t(2)] by blast
  have "waits j (Suc n) s u"
  proof (rule waits.other[OF t(1) _ first_on_top_pick[OF t(2)]])
    show "sched_idle t" using t(2) by (simp add: first_on_top_def)
    show "procs (early_yield 0 (dispatched 0 t)) j = procs (dispatched 0 t) j"
      using assms(2) by (simp add: early_yield_def)
  qed (use assms(2) early_yield_back[OF t(2)] u in auto)
  then show ?case using u(2) by blast
qed

definition starving_st :: pst where
  "starving_st = zero_pst\<lparr>procs := (\<lambda>_. zero_proc)(0 := zero_proc\<lparr>pstate := RUNNABLE, pid := 1\<rparr>,
     1 := zero_proc\<lparr>pstate := RUNNABLE, pid := 2, queue_level := 2\<rparr>)\<rparr>"

lemma starving_first: "first_on_top starving_st"
  by (simp add: starving_st_def first_on_top_def sched_idle_def zero_pst_def plocks_free_def base_defs)

text \<open>
  C3: aging bounds the wait for the top level.  A runnable process that is not picked in 400
  passes, whatever the processes picked instead do, is at level 0 after them.
\<close>

theorem aging_reaches_top:
  assumes "waits j n s u" "j < NPROC" "mlfq_ok (procs s j)" "pstate (procs s j) = RUNNABLE"
    "400 \<le> n"
  shows "queue_level (procs u j) = 0 \<and> pstate (procs u j) = RUNNABLE"
  using assms by (simp add: waits_age age_top age_n_RUNNABLE)

theorem aging_reaches_top_witness:
  "\<exists>u. waits 1 400 starving_st u \<and> queue_level (procs u 1) = 0"
proof -
  obtain u where u: "waits 1 400 starving_st u"
    using first_on_top_waits[OF starving_first, of 1 400] by auto
  have "mlfq_ok (procs starving_st 1)" "pstate (procs starving_st 1) = RUNNABLE"
    by (simp_all add: starving_st_def mlfq_ok_def mlfq_quantum_def AGING_THRESHOLD_def)
  then show ?thesis using aging_reaches_top[OF u] u by auto
qed



text \<open>
  No rotation inside a level.  A process that gives the CPU back runnable and on its level
  is picked again in the next pass, as long as no other process is about to be promoted.
\<close>

theorem no_rotation:
  assumes "sched_idle s" "mlfq_pick (procs s) = Some i"
    and "t = f (dispatched i s)" "given_back i t" "hart t = hart s"
    and "pstate (procs t i) = RUNNABLE" "\<forall>j. j \<noteq> i \<longrightarrow> procs t j = procs s j"
    and "queue_level (charge (total_ticks (procs t i) - total_ticks (procs s i)) (procs t i)) =
      queue_level (procs s i)"
    and "\<forall>j < NPROC. pstate (procs s j) = RUNNABLE \<longrightarrow> wait_time (procs s j) + 1 < AGING_THRESHOLD"
  shows "\<exists>u. sched_pass (hart s) s (f # fs) = Ret () u fs \<and> mlfq_pick (procs u) = Some i"
proof -
  have "sched_pass (hart s) s (f # fs) = Ret () (aged (settled i (total_ticks (procs s i)) t)) fs"
    using assms(4,5) unfolding assms(3) by (rule pass_run[OF assms(1,2)])
  moreover have "mlfq_pick (procs (aged (settled i (total_ticks (procs s i)) t))) = Some i"
    using assms(6-9) by (intro pick_again[OF assms(2)]) auto
  ultimately show ?thesis by blast
qed

definition bottom_st :: pst where
  "bottom_st = zero_pst\<lparr>procs := (\<lambda>_. zero_proc)
     (3 := zero_proc\<lparr>pstate := RUNNABLE, pid := 1, queue_level := 2, q_ticks := 3\<rparr>,
      4 := zero_proc\<lparr>pstate := RUNNABLE, pid := 2, queue_level := 2\<rparr>)\<rparr>"

theorem no_rotation_witness:
  "\<exists>u. sched_pass 0 bottom_st [tick_yield 3] = Ret () u [] \<and> mlfq_pick (procs u) = Some 3"
proof -
  have p: "mlfq_pick (procs bottom_st) = Some 3"
    by (simp add: bottom_st_def mlfq_pick_def at_level_def upt_rec)
  have idle: "sched_idle bottom_st"
    by (simp add: bottom_st_def sched_idle_def zero_pst_def plocks_free_def base_defs)
  have inv: "mlfq_inv (procs bottom_st)"
    by (simp add: bottom_st_def mlfq_inv_def mlfq_ok_def mlfq_quantum_def AGING_THRESHOLD_def)
  show ?thesis
    using no_rotation[OF idle p refl, of "tick_yield 3" "[]"] tick_yield_back[OF idle p inv]
    by (auto simp: bottom_st_def tick_yield_def dispatched_def charge_def demote_def
        mlfq_quantum_def AGING_THRESHOLD_def)
qed

end
