(* ===== verification/Vm.thy ===== *)
theory Vm
  imports Proc
begin

unbundle bit_operations_syntax

text \<open>
  kernel/vm.c and kernel/vm.h are not part of the repository: the functions of vm.c that the
  rest of the kernel calls are a parameter, the record \<open>vm\<close> of operations.  This theory holds
  it, the two copy functions of kernel/proc.c that choose between user and kernel memory, and
  the address-space functions of kernel/proc.c.
\<close>

section \<open>The operations of vm.c\<close>

text \<open>
  Page tables are addresses.  \<open>copyin\<close> and \<open>copyinstr\<close> give the result and the bytes they have
  written to the kernel buffer, which on failure may be some of them.  \<open>SBRK_EAGER\<close> is a constant
  of vm.h.
\<close>

record 's vm =
  v_kvmmap :: "addr \<Rightarrow> addr \<Rightarrow> addr \<Rightarrow> addr \<Rightarrow> addr \<Rightarrow> ('s, unit) kop"
  v_uvmcreate :: "('s, addr) kop"
  v_mappages :: "addr \<Rightarrow> addr \<Rightarrow> addr \<Rightarrow> addr \<Rightarrow> addr \<Rightarrow> ('s, int) kop"
  v_uvmfree :: "addr \<Rightarrow> addr \<Rightarrow> ('s, unit) kop"
  v_uvmunmap :: "addr \<Rightarrow> addr \<Rightarrow> addr \<Rightarrow> int \<Rightarrow> ('s, unit) kop"
  v_uvmalloc :: "addr \<Rightarrow> addr \<Rightarrow> addr \<Rightarrow> addr \<Rightarrow> ('s, addr) kop"
  v_uvmdealloc :: "addr \<Rightarrow> addr \<Rightarrow> addr \<Rightarrow> ('s, addr) kop"
  v_uvmcopy :: "addr \<Rightarrow> addr \<Rightarrow> addr \<Rightarrow> ('s, int) kop"
  v_uvmclear :: "addr \<Rightarrow> addr \<Rightarrow> ('s, unit) kop"
  v_walkaddr :: "addr \<Rightarrow> addr \<Rightarrow> ('s, addr) kop"
  v_copyout :: "addr \<Rightarrow> addr \<Rightarrow> byte list \<Rightarrow> ('s, int) kop"
  v_copyin :: "addr \<Rightarrow> addr \<Rightarrow> nat \<Rightarrow> ('s, int \<times> byte list) kop"
  v_copyinstr :: "addr \<Rightarrow> addr \<Rightarrow> nat \<Rightarrow> ('s, int \<times> byte list) kop"
  v_vmfault :: "addr \<Rightarrow> addr \<Rightarrow> int \<Rightarrow> ('s, addr) kop"
  v_kvminit :: "('s, unit) kop"
  v_kvminithart :: "('s, unit) kop"
  v_SBRK_EAGER :: int

section \<open>Bytes of numbers\<close>

primrec le_bytes :: "nat \<Rightarrow> nat \<Rightarrow> byte list" where
  "le_bytes 0 x = []"
| "le_bytes (Suc n) x = of_nat x # le_bytes n (x div 256)"

definition le_nat :: "byte list \<Rightarrow> nat" where
  "le_nat bs = foldr (\<lambda>b a. unat b + 256 * a) bs 0"

lemma length_le_bytes [simp]: "length (le_bytes n x) = n"
  by (induction n arbitrary: x) auto

lemma unat_byte: "unat (of_nat x :: byte) = x mod 256"
  by (simp add: unsigned_of_nat take_bit_eq_mod)

lemma le_nat_bytes: "le_nat (le_bytes n x) = x mod 256 ^ n"
proof (induction n arbitrary: x)
  case 0
  show ?case by (simp add: le_nat_def)
next
  case (Suc n)
  have "le_nat (le_bytes (Suc n) x) = x mod 256 + 256 * (x div 256 mod 256 ^ n)"
    using Suc[of "x div 256"] by (simp add: le_nat_def unat_byte)
  then show ?case by (simp add: mod_mult2_eq)
qed

lemma le_nat_less: "le_nat bs < 256 ^ length bs"
proof (induction bs)
  case Nil
  then show ?case by (simp add: le_nat_def)
next
  case (Cons b bs)
  have "unat b \<le> 255" using unsigned_less[of b, where ?'a = nat] by simp
  then show ?case using Cons by (simp add: le_nat_def)
qed

text \<open>The bytes of a signed 32-bit integer.\<close>

definition int_bytes :: "int \<Rightarrow> byte list" where
  "int_bytes x = le_bytes 4 (unat (word_of_int x :: u32))"

section \<open>Copying to and from user or kernel memory (proc.c)\<close>

text \<open>
  The C code names user and kernel addresses by a flag and an address.  A kernel address of a
  caller's local variable is \<open>DLocal\<close> and \<open>SLocal\<close>: the bytes go to the caller as the result of
  the copying function, and come from it as an argument.
\<close>

datatype dest = DUser addr | DKernel addr | DLocal
datatype src = SUser addr | SLocal "byte list"

fun dest_add :: "dest \<Rightarrow> nat \<Rightarrow> dest" where
  "dest_add (DUser a) n = DUser (a + of_nat n)"
| "dest_add (DKernel a) n = DKernel (a + of_nat n)"
| "dest_add DLocal n = DLocal"

fun src_add :: "src \<Rightarrow> nat \<Rightarrow> src" where
  "src_add (SUser a) n = SUser (a + of_nat n)"
| "src_add (SLocal bs) n = SLocal (drop n bs)"

definition store_bytes :: "mem \<Rightarrow> nat \<Rightarrow> byte list \<Rightarrow> mem" where
  "store_bytes m a bs = (\<lambda>x. if a \<le> x \<and> x < a + length bs then bs ! (x - a) else m x)"

definition either_copyout :: "('z pst_scheme) vm \<Rightarrow> dest \<Rightarrow> byte list \<Rightarrow> ('z pst_scheme, int) kop"
  where
  "either_copyout V d bs =
     bnd myproc (\<lambda>me.
     case d of
       DUser a \<Rightarrow>
         (case me of None \<Rightarrow> panic ''kerneltrap''
          | Some i \<Rightarrow> bnd (rd (\<lambda>s. pagetable (procs s i))) (\<lambda>pt. v_copyout V pt a bs))
     | DKernel a \<Rightarrow> thn (upd (\<lambda>s. s\<lparr>mem := store_bytes (mem s) (unat a) bs\<rparr>)) (ret 0)
     | DLocal \<Rightarrow> ret 0)"

definition either_copyin :: "('z pst_scheme) vm \<Rightarrow> src \<Rightarrow> nat \<Rightarrow> ('z pst_scheme, int \<times> byte list) kop"
  where
  "either_copyin V sr n =
     bnd myproc (\<lambda>me.
     case sr of
       SUser a \<Rightarrow>
         (case me of None \<Rightarrow> panic ''kerneltrap''
          | Some i \<Rightarrow> bnd (rd (\<lambda>s. pagetable (procs s i))) (\<lambda>pt. v_copyin V pt a n))
     | SLocal bs \<Rightarrow> ret (0, take n bs))"

section \<open>Address spaces of processes (proc.c)\<close>

definition proc_mapstacks :: "('z pst_scheme) vm \<Rightarrow> addr \<Rightarrow> ('z pst_scheme, unit) kop" where
  "proc_mapstacks V kpgtbl =
     foreach [0..<NPROC] (\<lambda>i.
       bnd kalloc (\<lambda>pa.
       if pa = 0 then panic ''kalloc'' else
       v_kvmmap V kpgtbl (KSTACK i) pa PGSIZE (PTE_R OR PTE_W)))"

definition proc_pagetable :: "('z pst_scheme) vm \<Rightarrow> nat \<Rightarrow> ('z pst_scheme, addr) kop" where
  "proc_pagetable V i =
     bnd (v_uvmcreate V) (\<lambda>pt.
     if pt = 0 then ret 0 else
     bnd (rd (\<lambda>s. syms s ''trampoline'')) (\<lambda>tr.
     bnd (v_mappages V pt TRAMPOLINE PGSIZE tr (PTE_R OR PTE_X)) (\<lambda>r1.
     if r1 < 0 then thn (v_uvmfree V pt 0) (ret 0) else
     bnd (rd (\<lambda>s. ptrapframe (procs s i))) (\<lambda>tf.
     bnd (v_mappages V pt TRAPFRAME PGSIZE tf (PTE_R OR PTE_W)) (\<lambda>r2.
     if r2 < 0 then
       thn (v_uvmunmap V pt TRAMPOLINE 1 0) (
       thn (v_uvmfree V pt 0)
       (ret 0))
     else ret pt)))))"

definition proc_freepagetable :: "('z pst_scheme) vm \<Rightarrow> addr \<Rightarrow> addr \<Rightarrow> ('z pst_scheme, unit) kop"
  where
  "proc_freepagetable V pt n =
     thn (v_uvmunmap V pt TRAMPOLINE 1 0) (
     thn (v_uvmunmap V pt TRAPFRAME 1 0)
     (v_uvmfree V pt n))"

text \<open>The increment \<open>n\<close> is a C \<open>int\<close>, sign-extended when it is added to the size.\<close>

definition growproc :: "('z pst_scheme) vm \<Rightarrow> int \<Rightarrow> ('z pst_scheme, int) kop" where
  "growproc V n =
     bnd myproc_ptr (\<lambda>i.
     bnd (rd (\<lambda>s. procs s i)) (\<lambda>p.
     if n > 0 then
       bnd (v_uvmalloc V (pagetable p) (sz p) (sz p + word_of_int n) PTE_W) (\<lambda>sz'.
       if sz' = 0 then ret (- 1)
       else thn (upd_proc i (\<lambda>p. p\<lparr>sz := sz'\<rparr>)) (ret 0))
     else if n < 0 then
       bnd (v_uvmdealloc V (pagetable p) (sz p) (sz p + word_of_int n)) (\<lambda>sz'.
       thn (upd_proc i (\<lambda>p. p\<lparr>sz := sz'\<rparr>)) (ret 0))
     else thn (upd_proc i (\<lambda>q. q\<lparr>sz := sz p\<rparr>)) (ret 0)))"

section \<open>A concrete instance\<close>

text \<open>Operations that succeed and touch nothing; used in examples.\<close>

definition simple_vm :: "('z pst_scheme) vm" where
  "simple_vm = \<lparr>v_kvmmap = (\<lambda>_ _ _ _ _. ret ()), v_uvmcreate = ret 0x87000000,
     v_mappages = (\<lambda>_ _ _ _ _. ret 0), v_uvmfree = (\<lambda>_ _. ret ()),
     v_uvmunmap = (\<lambda>_ _ _ _. ret ()), v_uvmalloc = (\<lambda>_ _ n _. ret n),
     v_uvmdealloc = (\<lambda>_ _ n. ret n), v_uvmcopy = (\<lambda>_ _ _. ret 0), v_uvmclear = (\<lambda>_ _. ret ()),
     v_walkaddr = (\<lambda>_ a. ret a), v_copyout = (\<lambda>_ _ _. ret 0),
     v_copyin = (\<lambda>_ _ n. ret (0, replicate n 65)), v_copyinstr = (\<lambda>_ _ n. ret (0, [65, 0])),
     v_vmfault = (\<lambda>_ _ _. ret 0), v_kvminit = ret (), v_kvminithart = ret (), v_SBRK_EAGER = 1\<rparr>"

lemma simple_vm_simps [simp]:
  "v_kvmmap simple_vm = (\<lambda>_ _ _ _ _. ret ())" "v_uvmcreate simple_vm = ret 0x87000000"
  "v_mappages simple_vm = (\<lambda>_ _ _ _ _. ret 0)" "v_uvmfree simple_vm = (\<lambda>_ _. ret ())"
  "v_uvmunmap simple_vm = (\<lambda>_ _ _ _. ret ())" "v_uvmalloc simple_vm = (\<lambda>_ _ n _. ret n)"
  "v_uvmdealloc simple_vm = (\<lambda>_ _ n. ret n)" "v_uvmcopy simple_vm = (\<lambda>_ _ _. ret 0)"
  "v_uvmclear simple_vm = (\<lambda>_ _. ret ())" "v_walkaddr simple_vm = (\<lambda>_ a. ret a)"
  "v_copyout simple_vm = (\<lambda>_ _ _. ret 0)" "v_copyin simple_vm = (\<lambda>_ _ n. ret (0, replicate n 65))"
  "v_copyinstr simple_vm = (\<lambda>_ _ n. ret (0, [65, 0]))" "v_vmfault simple_vm = (\<lambda>_ _ _. ret 0)"
  "v_kvminit simple_vm = ret ()" "v_kvminithart simple_vm = ret ()" "v_SBRK_EAGER simple_vm = 1"
  by (simp_all add: simple_vm_def)

section \<open>What the copying code relies on\<close>

text \<open>
  \<open>U pt m\<close> is the user memory that page table \<open>pt\<close> describes in memory \<open>m\<close>.  Where the pages
  are mapped, \<open>copyout\<close> stores the bytes into it and \<open>copyin\<close> reads them from it; both may
  allocate pages on the way.
\<close>

definition user_store :: "(addr \<Rightarrow> byte) \<Rightarrow> addr \<Rightarrow> byte list \<Rightarrow> addr \<Rightarrow> byte" where
  "user_store u a bs = (\<lambda>x. if unat (x - a) < length bs then bs ! unat (x - a) else u x)"

definition user_load :: "(addr \<Rightarrow> byte) \<Rightarrow> addr \<Rightarrow> nat \<Rightarrow> byte list" where
  "user_load u a n = map (\<lambda>i. u (a + of_nat i)) [0..<n]"

definition vm_copies :: "('z pst_scheme) vm \<Rightarrow> (addr \<Rightarrow> mem \<Rightarrow> addr \<Rightarrow> byte) \<Rightarrow> bool" where
  "vm_copies V U \<longleftrightarrow>
     (\<forall>pt a bs s e. kmem_ready s \<and> noff (mycpu s) \<noteq> 0 \<longrightarrow>
        (\<exists>M F. v_copyout V pt a bs s e = Ret 0 (s\<lparr>mem := M, freelist := F\<rparr>) e \<and>
           U pt M = user_store (U pt (mem s)) a bs)) \<and>
     (\<forall>pt a n s e. kmem_ready s \<and> noff (mycpu s) \<noteq> 0 \<longrightarrow>
        (\<exists>M F. v_copyin V pt a n s e = Ret (0, user_load (U pt (mem s)) a n) (s\<lparr>mem := M, freelist := F\<rparr>) e \<and>
           U pt M = U pt (mem s)))"

lemma user_store_Nil [simp]: "user_store u a [] = u"
  by (simp add: user_store_def)

lemma length_user_load [simp]: "length (user_load u a n) = n"
  by (simp add: user_load_def)

lemma user_load_Suc: "user_load u a (Suc n) = u a # user_load u (a + 1) n"
proof -
  have "[0..<Suc n] = 0 # map Suc [0..<n]" by (simp add: upt_conv_Cons map_Suc_upt del: upt_Suc)
  then show ?thesis by (simp add: user_load_def o_def add.assoc del: upt_Suc)
qed

text \<open>Storing byte by byte, upwards from \<open>a\<close>, is storing the list.\<close>

lemma user_store_snoc:
  assumes "length bs < 2 ^ 64"
  shows "user_store (user_store u a bs) (a + of_nat (length bs)) [b] = user_store u a (bs @ [b])"
proof
  fix x
  have l: "unat (of_nat (length bs) :: addr) = length bs"
    using assms by (simp add: unsigned_of_nat take_bit_nat_eq_self)
  define k :: addr where "k = of_nat (length bs)"
  have "unat (x - (a + k)) = 0 \<longleftrightarrow> x - a = k"
    by (simp only: unat_eq_0) (metis add.commute add_diff_cancel_left' diff_add_cancel right_minus_eq)
  also have "\<dots> \<longleftrightarrow> unat (x - a) = length bs"
    using l unfolding word_unat_eq_iff k_def[symmetric] by (simp only:)
  finally have "unat (x - (a + of_nat (length bs))) = 0 \<longleftrightarrow> unat (x - a) = length bs"
    unfolding k_def .
  then show "user_store (user_store u a bs) (a + of_nat (length bs)) [b] x = user_store u a (bs @ [b]) x"
    by (auto simp: user_store_def nth_append)
qed

text \<open>The same, downwards: the first byte and then the rest.\<close>

lemma user_store_Cons:
  assumes "Suc (length bs) < 2 ^ 64"
  shows "user_store (user_store u a [b]) (a + 1) bs = user_store u a (b # bs)"
proof
  fix x
  define d where "d = x - a"
  have d1: "x - (a + 1) = d - 1" by (simp add: d_def)
  show "user_store (user_store u a [b]) (a + 1) bs x = user_store u a (b # bs) x"
  proof (cases "d = 0")
    case True
    have "unat (- 1 :: addr) = 2 ^ 64 - 1"
      by (simp add: unsigned_minus_1_eq_mask mask_eq_exp_minus_1)
    then have "\<not> unat (d - 1) < length bs" using True assms by simp
    then show ?thesis unfolding user_store_def d1 d_def[symmetric] using True by simp
  next
    case False
    then have n: "unat (d - 1) = unat d - 1" by (rule unat_minus_one)
    have "unat d \<noteq> 0" using False by (simp add: unat_eq_0)
    then show ?thesis unfolding user_store_def d1 d_def[symmetric] n by (auto simp: nth_Cons')
  qed
qed

lemma vm_copiesD:
  assumes "vm_copies V U" "kmem_ready s" "noff (mycpu s) \<noteq> 0"
  shows "\<exists>M F. v_copyout V pt a bs s e = Ret 0 (s\<lparr>mem := M, freelist := F\<rparr>) e \<and>
      U pt M = user_store (U pt (mem s)) a bs"
    "\<exists>M F. v_copyin V pt a n s e = Ret (0, user_load (U pt (mem s)) a n) (s\<lparr>mem := M, freelist := F\<rparr>) e \<and>
      U pt M = U pt (mem s)"
  using assms unfolding vm_copies_def by blast+

lemma user_load_1: "user_load u a (Suc 0) = [u a]"
  by (simp add: user_load_def)

lemma user_load_snoc: "user_load u a (Suc k) = user_load u a k @ [u (a + of_nat k)]"
  by (simp add: user_load_def)

text \<open>The two copying functions on the current process's user memory, under some lock.\<close>

lemma either_copyout_user:
  assumes "vm_copies V U" "kmem_ready s" "noff (mycpu s) \<noteq> 0" "cproc (mycpu s) = Some i"
    and "pt = pagetable (procs s i)"
  shows "\<exists>M F. either_copyout V (DUser a) bs s e = Ret 0 (s\<lparr>mem := M, freelist := F\<rparr>) e \<and>
    U pt M = user_store (U pt (mem s)) a bs"
proof -
  have "cpu_wf s" using assms(2) by (simp add: kmem_ready_def)
  then have "either_copyout V (DUser a) bs s e = v_copyout V pt a bs s e"
    using assms(3-5) by (simp add: either_copyout_def kop_simps)
  then show ?thesis using assms(1-3) unfolding vm_copies_def by simp
qed

lemma either_copyin_user:
  assumes "vm_copies V U" "kmem_ready s" "noff (mycpu s) \<noteq> 0" "cproc (mycpu s) = Some i"
    and "pt = pagetable (procs s i)"
  shows "\<exists>M F. either_copyin V (SUser a) n s e =
      Ret (0, user_load (U pt (mem s)) a n) (s\<lparr>mem := M, freelist := F\<rparr>) e \<and> U pt M = U pt (mem s)"
proof -
  have "cpu_wf s" using assms(2) by (simp add: kmem_ready_def)
  then have "either_copyin V (SUser a) n s e = v_copyin V pt a n s e"
    using assms(3-5) by (simp add: either_copyin_def kop_simps)
  then show ?thesis using assms(1-3) unfolding vm_copies_def by simp
qed

text \<open>The instance in which user addresses are physical ones.\<close>

definition flat_vm :: "('z pst_scheme) vm" where
  "flat_vm = simple_vm\<lparr>
     v_copyout := (\<lambda>pt a bs. thn (upd (\<lambda>s. s\<lparr>mem := (\<lambda>x. user_store (mem s \<circ> unat) a bs (of_nat x))\<rparr>)) (ret 0)),
     v_copyin := (\<lambda>pt a n. bnd (rd (\<lambda>s. user_load (mem s \<circ> unat) a n)) (\<lambda>bs. ret (0, bs)))\<rparr>"

lemma flat_vm_copies: "vm_copies flat_vm (\<lambda>pt m. m \<circ> unat)"
  unfolding vm_copies_def
proof (intro conjI allI impI)
  fix pt a bs and s :: "'z pst_scheme" and e
  let ?M = "\<lambda>x. user_store (mem s \<circ> unat) a bs (of_nat x)"
  show "\<exists>M F. v_copyout flat_vm pt a bs s e = Ret 0 (s\<lparr>mem := M, freelist := F\<rparr>) e \<and>
      M \<circ> unat = user_store (mem s \<circ> unat) a bs"
    by (intro exI[of _ ?M] exI[of _ "freelist s"]) (simp add: flat_vm_def kop_simps o_def)
next
  fix pt a n and s :: "'z pst_scheme" and e
  show "\<exists>M F. v_copyin flat_vm pt a n s e = Ret (0, user_load (mem s \<circ> unat) a n)
      (s\<lparr>mem := M, freelist := F\<rparr>) e \<and> M \<circ> unat = mem s \<circ> unat"
    by (intro exI[of _ "mem s"] exI[of _ "freelist s"]) (simp add: flat_vm_def kop_simps)
qed

end
