(* ===== verification/Proc_Life.thy ===== *)
theory Proc_Life
  imports Vm
begin

unbundle bit_operations_syntax

text \<open>
  The life of a table slot in kernel/proc.c: \<open>allocproc\<close>, \<open>freeproc\<close>, waiting for a child
  (\<open>kwait\<close>) and the listing \<open>procdump\<close>.  Creating and ending a process (\<open>kfork\<close>, \<open>kexit\<close>)
  needs files, and is in Fork.
\<close>

section \<open>The code\<close>

definition freeproc :: "('z pst_scheme) vm \<Rightarrow> nat \<Rightarrow> ('z pst_scheme, unit) kop" where
  "freeproc V i =
     bnd (rd (\<lambda>s. ptrapframe (procs s i))) (\<lambda>tf.
     thn (whenm (tf \<noteq> 0) (kfree tf)) (
     thn (upd_proc i (\<lambda>p. p\<lparr>ptrapframe := 0\<rparr>)) (
     bnd (rd (\<lambda>s. procs s i)) (\<lambda>p.
     thn (whenm (pagetable p \<noteq> 0) (proc_freepagetable V (pagetable p) (sz p)))
     (upd_proc i (\<lambda>p. p\<lparr>pagetable := 0, sz := 0, pid := 0, parent := None,
        pname := (pname p)(0 := 0), pchan := None, pkilled := 0, xstate := 0,
        pstate := UNUSED\<rparr>))))))"

definition find_unused :: "('z pst_scheme, nat option) kop" where
  "find_unused =
     for_until [0..<NPROC] (\<lambda>i.
       thn (acquire (L_proc i)) (
       bnd (rd (\<lambda>s. pstate (procs s i) = UNUSED)) (\<lambda>hit.
       if hit then ret (Some i)
       else
         thn (release (L_proc i))
         (ret None))))"

text \<open>The failure exits of \<open>allocproc\<close>.\<close>

definition alloc_fail :: "('z pst_scheme) vm \<Rightarrow> nat \<Rightarrow> ('z pst_scheme, nat option) kop" where
  "alloc_fail V i =
     thn (freeproc V i) (
     thn (release (L_proc i))
     (ret None))"

definition allocproc :: "('z pst_scheme) vm \<Rightarrow> ('z pst_scheme, nat option) kop" where
  "allocproc V =
     bnd find_unused (\<lambda>r. case r of None \<Rightarrow> ret None | Some i \<Rightarrow>
     bnd allocpid (\<lambda>n.
     thn (upd_proc i (\<lambda>p. p\<lparr>pid := n\<rparr>)) (
     thn (upd_proc i (\<lambda>p. p\<lparr>pstate := USED\<rparr>)) (
     bnd kalloc (\<lambda>tf.
     thn (upd_proc i (\<lambda>p. p\<lparr>ptrapframe := tf\<rparr>)) (
     if tf = 0 then alloc_fail V i else
     bnd (proc_pagetable V i) (\<lambda>pt.
     thn (upd_proc i (\<lambda>p. p\<lparr>pagetable := pt\<rparr>)) (
     if pt = 0 then alloc_fail V i else
     bnd (rd (\<lambda>s. syms s ''forkret'')) (\<lambda>fr.
     thn (upd_proc i (\<lambda>p. p\<lparr>pcontext := \<lparr>ctx_ra = fr, ctx_sp = kstack p + PGSIZE,
        ctx_s = (\<lambda>_. 0)\<rparr>\<rparr>)) (
     thn (upd_proc i (\<lambda>p. p\<lparr>queue_level := 0, q_ticks := 0, wait_time := 0, n_run := 0,
        total_ticks := 0\<rparr>))
     (ret (Some i))))))))))))"

text \<open>
  The scan of \<open>kwait\<close> for an exited child.  \<open>Inl\<close>: the call returns; \<open>Inr\<close>: whether a child
  was seen.
\<close>

fun kwait_scan ::
  "('z pst_scheme) vm \<Rightarrow> nat \<Rightarrow> addr \<Rightarrow> nat list \<Rightarrow> bool \<Rightarrow> ('z pst_scheme, int + bool) kop"
  where
  "kwait_scan V me a [] havekids = ret (Inr havekids)"
| "kwait_scan V me a (j # js) havekids =
     bnd (rd (\<lambda>s. parent (procs s j) = Some me)) (\<lambda>mine.
     if mine then
       thn (acquire (L_proc j)) (
       bnd (rd (\<lambda>s. pstate (procs s j) = ZOMBIE)) (\<lambda>z.
       if z then
         bnd (rd (\<lambda>s. procs s j)) (\<lambda>pp.
         bnd (rd (\<lambda>s. pagetable (procs s me))) (\<lambda>pt.
         bnd (if a \<noteq> 0 then v_copyout V pt a (int_bytes (xstate pp)) else ret 0) (\<lambda>r.
         if a \<noteq> 0 \<and> r < 0 then
           thn (release (L_proc j)) (
           thn (release L_wait)
           (ret (Inl (- 1))))
         else
           thn (freeproc V j) (
           thn (release (L_proc j)) (
           thn (release L_wait)
           (ret (Inl (pid pp))))))))
       else
         thn (release (L_proc j))
         (kwait_scan V me a js True)))
     else kwait_scan V me a js havekids)"

definition kwait :: "('z pst_scheme) vm \<Rightarrow> addr \<Rightarrow> ('z pst_scheme, int) kop" where
  "kwait V a =
     bnd myproc_ptr (\<lambda>me.
     thn (acquire L_wait) (
     loop (\<lambda>_. 0) (\<lambda>_.
       bnd (kwait_scan V me a [0..<NPROC] False) (\<lambda>r. case r of
         Inl v \<Rightarrow> ret (Inr v)
       | Inr havekids \<Rightarrow>
           bnd (if havekids then bnd (killed me) (\<lambda>k. ret (k \<noteq> 0)) else ret True) (\<lambda>stop.
           if stop then thn (release L_wait) (ret (Inr (- 1)))
           else thn (sleep (C_proc me) L_wait) (ret (Inl ()))))) ()))"

definition state_name :: "procstate \<Rightarrow> char list" where
  "state_name st = (case st of UNUSED \<Rightarrow> ''unused'' | USED \<Rightarrow> ''used'' | SLEEPING \<Rightarrow> ''sleep ''
     | RUNNABLE \<Rightarrow> ''runble'' | RUNNING \<Rightarrow> ''run   '' | ZOMBIE \<Rightarrow> ''zombie'')"

text \<open>A name is terminated within its 16 bytes.\<close>

definition name_chars :: "buf \<Rightarrow> char list" where
  "name_chars b = map (\<lambda>c. char_of (unat c)) (takeWhile (\<lambda>c. c \<noteq> 0) (map b [0..<16]))"

definition procdump :: "('z pst_scheme, unit) kop" where
  "procdump =
     thn (printf [CHR 0x0A] []) (
     foreach [0..<NPROC] (\<lambda>i.
       bnd (rd (\<lambda>s. procs s i)) (\<lambda>p.
       if pstate p = UNUSED then ret ()
       else
         thn (printf ''%d %s %s''
           [VW (word_of_int (pid p)), VS (Some (state_name (pstate p))), VS (Some (name_chars (pname p)))])
         (thn (printf [CHR 0x0A] []) (ret ())))))"

section \<open>What the code relies on in vm.c\<close>

text \<open>
  The page-table functions work on memory and the page allocator only: called with a lock held,
  they return and leave everything else of the state alone.
\<close>

definition mem_only :: "('z pst_scheme, 'a) kop \<Rightarrow> bool" where
  "mem_only m \<longleftrightarrow> (\<forall>s e. kmem_ready s \<and> noff (mycpu s) \<noteq> 0 \<longrightarrow>
     (\<exists>x M F. m s e = Ret x (s\<lparr>mem := M, freelist := F\<rparr>) e))"

definition vm_tables :: "('z pst_scheme) vm \<Rightarrow> bool" where
  "vm_tables V \<longleftrightarrow> mem_only (v_uvmcreate V) \<and>
     (\<forall>pt pa pm. mem_only (v_mappages V pt TRAMPOLINE PGSIZE pa pm)) \<and>
     (\<forall>pt pa pm. mem_only (v_mappages V pt TRAPFRAME PGSIZE pa pm)) \<and>
     (\<forall>pt. mem_only (v_uvmunmap V pt TRAMPOLINE 1 0)) \<and>
     (\<forall>pt. mem_only (v_uvmunmap V pt TRAPFRAME 1 0)) \<and>
     (\<forall>pt n. mem_only (v_uvmfree V pt n))"

lemma mem_onlyD:
  "mem_only m \<Longrightarrow> kmem_ready s \<Longrightarrow> noff (mycpu s) \<noteq> 0 \<Longrightarrow>
   \<exists>x M F. m s e = Ret x (s\<lparr>mem := M, freelist := F\<rparr>) e"
  unfolding mem_only_def by blast

lemma kmem_ready_mem [simp]:
  "kmem_ready (mem_update g s) = kmem_ready s" "kmem_ready (freelist_update h s) = kmem_ready s"
  "kmem_ready (procs_update k u) = kmem_ready u"
  by (simp_all add: kmem_ready_def)

lemma mem_only_basic: "mem_only (ret x)" "mem_only (rd f)"
proof -
  have "\<exists>M F. s = s\<lparr>mem := M, freelist := F\<rparr>" for s :: "'z pst_scheme"
    by (intro exI[of _ "mem s"] exI[of _ "freelist s"]) simp
  then show "mem_only (ret x)" "mem_only (rd f)" unfolding mem_only_def by auto
qed

lemma mem_only_bnd:
  assumes "mem_only m" "\<And>x. mem_only (f x)"
  shows "mem_only (bnd m f)"
  unfolding mem_only_def
proof (intro allI impI)
  fix s :: "'a pst_scheme" and e
  assume s: "kmem_ready s \<and> noff (mycpu s) \<noteq> 0"
  obtain x M F where 1: "m s e = Ret x (s\<lparr>mem := M, freelist := F\<rparr>) e"
    using mem_onlyD[OF assms(1)] s by blast
  have "kmem_ready (s\<lparr>mem := M, freelist := F\<rparr>)" "noff (mycpu (s\<lparr>mem := M, freelist := F\<rparr>)) \<noteq> 0"
    using s by simp_all
  from mem_onlyD[OF assms(2) this] obtain y M' F' where
    "f x (s\<lparr>mem := M, freelist := F\<rparr>) e = Ret y (s\<lparr>mem := M, freelist := F, mem := M', freelist := F'\<rparr>) e"
    by blast
  then show "\<exists>y M F. bnd m f s e = Ret y (s\<lparr>mem := M, freelist := F\<rparr>) e"
    using 1 by (auto simp: bnd_def)
qed

lemma mem_only_thn: "mem_only m \<Longrightarrow> mem_only k \<Longrightarrow> mem_only (thn m k)"
  unfolding thn_def by (rule mem_only_bnd)

lemma mem_only_if: "mem_only m \<Longrightarrow> mem_only k \<Longrightarrow> mem_only (if b then m else k)"
  by simp

lemmas mem_only_intros = mem_only_basic mem_only_bnd mem_only_thn mem_only_if

lemma vm_tablesD:
  assumes "vm_tables V"
  shows "mem_only (v_uvmcreate V)" "mem_only (v_mappages V pt TRAMPOLINE PGSIZE pa pm)"
    "mem_only (v_mappages V pt TRAPFRAME PGSIZE pa pm)" "mem_only (v_uvmunmap V pt TRAMPOLINE 1 0)"
    "mem_only (v_uvmunmap V pt TRAPFRAME 1 0)" "mem_only (v_uvmfree V pt n)"
  using assms unfolding vm_tables_def by blast+

lemma proc_tables_mem:
  assumes "vm_tables V"
  shows "mem_only (proc_freepagetable V pt n)" "mem_only (proc_pagetable V i)"
  unfolding proc_freepagetable_def proc_pagetable_def
  by (intro mem_only_intros vm_tablesD[OF assms])+

lemma kalloc_mem: "mem_only kalloc"
  unfolding mem_only_def
proof (intro allI impI)
  fix s :: "'a pst_scheme" and e
  assume s: "kmem_ready s \<and> noff (mycpu s) \<noteq> 0"
  then have "kalloc_st s = s\<lparr>mem := mem (kalloc_st s), freelist := freelist (kalloc_st s)\<rparr>"
    by (simp add: kalloc_st_def)
  then show "\<exists>x M F. kalloc s e = Ret x (s\<lparr>mem := M, freelist := F\<rparr>) e"
    using s by (auto simp: kalloc_Ret)
qed

section \<open>Functional behaviour\<close>

text \<open>\<open>freed\<close> is what \<open>freeproc\<close> makes of a slot; the scheduling data and the rest stay.\<close>

definition freed :: "proc \<Rightarrow> proc" where
  "freed p = p\<lparr>ptrapframe := 0, pagetable := 0, sz := 0, pid := 0, parent := None,
     pname := (pname p)(0 := 0), pchan := None, pkilled := 0, xstate := 0, pstate := UNUSED\<rparr>"

lemma page_ok_same: "page_ok (mem_update g s) = page_ok s" "page_ok (freelist_update h s) = page_ok s"
  "page_ok (procs_update k u) = page_ok u"
  by (simp_all add: page_ok_def fun_eq_iff)

lemma freeproc_nested:
  assumes V: "vm_tables V" and s: "kmem_ready s" "noff (mycpu s) \<noteq> 0"
    and tf: "ptrapframe (procs s i) = 0 \<or> page_ok s (ptrapframe (procs s i))"
  shows "\<exists>M F. freeproc V i s e =
    Ret () (s\<lparr>mem := M, freelist := F, procs := (procs s)(i := freed (procs s i))\<rparr>) e"
proof -
  let ?tf = "ptrapframe (procs s i)" and ?p = "procs s i"
  have "\<exists>M F. whenm (?tf \<noteq> 0) (kfree ?tf) s e = Ret () (s\<lparr>mem := M, freelist := F\<rparr>) e"
  proof (cases "?tf = 0")
    case True
    then show ?thesis by (auto intro!: exI[of _ "mem s"] exI[of _ "freelist s"])
  next
    case False
    then show ?thesis using tf s by (auto simp: kfree_Ret kfree_st_def)
  qed
  then obtain M F where 1: "whenm (?tf \<noteq> 0) (kfree ?tf) s e = Ret () (s\<lparr>mem := M, freelist := F\<rparr>) e"
    by blast
  let ?s1 = "s\<lparr>mem := M, freelist := F, procs := (procs s)(i := ?p\<lparr>ptrapframe := 0\<rparr>)\<rparr>"
  have s1: "kmem_ready ?s1" "noff (mycpu ?s1) \<noteq> 0" using s by simp_all
  have "mem_only (whenm (pagetable ?p \<noteq> 0) (proc_freepagetable V (pagetable ?p) (sz ?p)))"
    unfolding whenm_def by (intro mem_only_intros proc_tables_mem[OF V])
  from mem_onlyD[OF this s1] obtain x M1 F1 where
    2: "whenm (pagetable ?p \<noteq> 0) (proc_freepagetable V (pagetable ?p) (sz ?p)) ?s1 e =
      Ret x (?s1\<lparr>mem := M1, freelist := F1\<rparr>) e" by blast
  show ?thesis
    by (intro exI[of _ M1] exI[of _ F1])
      (use 1 2 in \<open>simp add: freeproc_def bnd_def thn_def freed_def del: whenm_app\<close>)
qed

definition allocated :: "int \<Rightarrow> addr \<Rightarrow> addr \<Rightarrow> addr \<Rightarrow> proc \<Rightarrow> proc" where
  "allocated n tf pt fr p = p\<lparr>pid := n, pstate := USED, ptrapframe := tf, pagetable := pt,
     pcontext := \<lparr>ctx_ra = fr, ctx_sp = kstack p + PGSIZE, ctx_s = (\<lambda>_. 0)\<rparr>,
     queue_level := 0, q_ticks := 0, wait_time := 0, n_run := 0, total_ticks := 0\<rparr>"

lemma freed_same [simp]:
  "freed (p\<lparr>pid := n\<rparr>) = freed p" "freed (p\<lparr>pstate := st\<rparr>) = freed p"
  "freed (p\<lparr>ptrapframe := a\<rparr>) = freed p" "freed (p\<lparr>pagetable := a\<rparr>) = freed p"
  by (simp_all add: freed_def)

lemma find_unused_Ret:
  assumes "plocks_free s" "cpu_wf s"
  shows "find_unused s e = (case find_index (\<lambda>i. pstate (procs s i) = UNUSED) [0..<NPROC] of
      None \<Rightarrow> Ret None (touch s) e | Some i \<Rightarrow> Ret (Some i) (acq (L_proc i) s) e)"
proof -
  have free: "i < NPROC \<Longrightarrow> lock_free (L_proc i) s" for i
    using assms by (simp add: plocks_free_def)
  show ?thesis
    unfolding find_unused_def
    by (rule proc_search[where s = s])
      (use assms free in \<open>auto simp: kop_simps lock_freeD cpu_wf_def[of s]\<close>)
qed

lemma alloc_fail_nested:
  assumes "vm_tables V" "kmem_ready s" "noff (mycpu s) = 1" "is_holding (L_proc i) s" "\<not> intr_get s"
    "ptrapframe (procs s i) = 0 \<or> page_ok s (ptrapframe (procs s i))"
  shows "\<exists>M F. alloc_fail V i s e = Ret None ((rel (L_proc i) s)\<lparr>mem := M, freelist := F,
    procs := (procs s)(i := freed (procs s i))\<rparr>) e"
proof -
  obtain M F where 1: "freeproc V i s e =
      Ret () (s\<lparr>mem := M, freelist := F, procs := (procs s)(i := freed (procs s i))\<rparr>) e"
    using freeproc_nested[OF assms(1,2) _ assms(6), of e] assms(3) by auto
  show ?thesis
    by (intro exI[of _ M] exI[of _ F])
      (use 1 assms in \<open>simp add: alloc_fail_def bnd_def thn_def release_Ret\<close>)
qed

definition alloc_ready :: "'z pst_scheme \<Rightarrow> bool" where
  "alloc_ready s \<longleftrightarrow> plocks_free s \<and> noff (mycpu s) = 0 \<and> lock_free L_pid s \<and> kmem_ready s \<and>
     (\<exists>xs. kmem_inv s xs)"

text \<open>
  From the slot found on: the body of \<open>allocproc\<close> either fills the slot and keeps its lock, or
  empties it and releases the lock.
\<close>

lemma alloc_fill:
  assumes V: "vm_tables V" and ready: "alloc_ready s"
    and i: "i < NPROC" and e': "find_unused s e = Ret (Some i) (acq (L_proc i) s) e"
  shows "(\<exists>M F. allocproc V s e = Ret None ((touch s)\<lparr>nextpid := nextpid s + 1, mem := M,
      freelist := F, procs := (procs s)(i := freed (procs s i))\<rparr>) e) \<or>
    (\<exists>M F tf pt. tf \<noteq> 0 \<and> pt \<noteq> 0 \<and> allocproc V s e = Ret (Some i) ((acq (L_proc i) s)\<lparr>nextpid := nextpid s + 1,
      mem := M, freelist := F,
      procs := (procs s)(i := allocated (nextpid s) tf pt (syms s ''forkret'') (procs s i))\<rparr>) e)"
proof -
  obtain xs where xs: "kmem_inv s xs" and r: "plocks_free s" "noff (mycpu s) = 0" "lock_free L_pid s"
    "lock_free L_kmem s" "cpu_wf s" "lock_free (L_proc i) s"
    using ready i by (auto simp: alloc_ready_def kmem_ready_def plocks_free_def)
  let ?p = "procs s i" and ?s0 = "acq (L_proc i) s"
  let ?s1 = "?s0\<lparr>nextpid := nextpid s + 1, procs := (procs s)(i := ?p\<lparr>pid := nextpid s, pstate := USED\<rparr>)\<rparr>"
  have s1: "kmem_ready ?s1" "noff (mycpu ?s1) \<noteq> 0" using r by (simp_all add: kmem_ready_def)
  define tf where "tf = freelist s"
  obtain M F where ka: "kalloc ?s1 e = Ret tf (?s1\<lparr>mem := M, freelist := F\<rparr>) e"
    using mem_onlyD[OF kalloc_mem s1, of e] kalloc_Ret[OF s1(1), of e] by (auto simp: tf_def)
  have tfok: "tf = 0 \<or> page_ok s tf"
    using xs by (cases xs) (auto simp: kmem_inv_def tf_def)
  let ?s2 = "?s1\<lparr>mem := M, freelist := F, procs := (procs s)(i := ?p\<lparr>pid := nextpid s, pstate := USED,
      ptrapframe := tf\<rparr>)\<rparr>"
  have s2: "kmem_ready ?s2" "noff (mycpu ?s2) \<noteq> 0" using s1 by simp_all
  obtain pt M1 F1 where pp: "proc_pagetable V i ?s2 e = Ret pt (?s2\<lparr>mem := M1, freelist := F1\<rparr>) e"
    using mem_onlyD[OF proc_tables_mem(2)[OF V] s2, of i e] by blast
  let ?s3 = "?s2\<lparr>mem := M1, freelist := F1, procs := (procs s)(i := ?p\<lparr>pid := nextpid s,
      pstate := USED, ptrapframe := tf, pagetable := pt\<rparr>)\<rparr>"
  have run: "allocproc V s e = (if tf = 0 then alloc_fail V i ?s2 e else
      if pt = 0 then alloc_fail V i ?s3 e else
      Ret (Some i) (?s3\<lparr>procs := (procs s)(i := allocated (nextpid s) tf pt (syms s ''forkret'') ?p)\<rparr>) e)"
    using e' ka pp r by (simp add: allocproc_def bnd_def thn_def allocpid_Ret allocated_def kop_simps)
  have ok: "page_ok ?s2 tf = page_ok s tf" "page_ok ?s3 tf = page_ok s tf"
    by (simp_all add: page_ok_def)
  have f2: "\<exists>M F. alloc_fail V i ?s2 e = Ret None ((touch s)\<lparr>nextpid := nextpid s + 1, mem := M,
      freelist := F, procs := (procs s)(i := freed ?p)\<rparr>) e"
    using alloc_fail_nested[OF V s2(1), of i e] r tfok ok by simp
  have f3: "\<exists>M F. alloc_fail V i ?s3 e = Ret None ((touch s)\<lparr>nextpid := nextpid s + 1, mem := M,
      freelist := F, procs := (procs s)(i := freed ?p)\<rparr>) e"
    using alloc_fail_nested[OF V, of ?s3 i e] r s2 tfok ok by simp
  consider "tf = 0" | "tf \<noteq> 0" "pt = 0" | "tf \<noteq> 0" "pt \<noteq> 0" by blast
  then show ?thesis
  proof cases
    case 3
    then have "allocproc V s e = Ret (Some i) ((acq (L_proc i) s)\<lparr>nextpid := nextpid s + 1,
      mem := M1, freelist := F1,
      procs := (procs s)(i := allocated (nextpid s) tf pt (syms s ''forkret'') (procs s i))\<rparr>) e"
      unfolding run by simp
    then show ?thesis using 3 by blast
  qed (use run f2 f3 in auto)
qed

section \<open>Process ids\<close>

text \<open>Used slots have different pids, all of them given out already.\<close>

definition pid_ok :: "(nat \<Rightarrow> proc) \<Rightarrow> int \<Rightarrow> nat \<Rightarrow> bool" where
  "pid_ok P n i \<longleftrightarrow> pstate (P i) = UNUSED \<or> 0 < pid (P i) \<and> pid (P i) < n"

definition pid_apart :: "(nat \<Rightarrow> proc) \<Rightarrow> nat \<Rightarrow> nat \<Rightarrow> bool" where
  "pid_apart P i j \<longleftrightarrow> pstate (P i) = UNUSED \<or> pstate (P j) = UNUSED \<or> pid (P i) \<noteq> pid (P j)"

definition pid_inv :: "'z pst_scheme \<Rightarrow> bool" where
  "pid_inv s \<longleftrightarrow> 0 < nextpid s \<and> (\<forall>i < NPROC. pid_ok (procs s) (nextpid s) i) \<and>
     (\<forall>i < NPROC. \<forall>j < NPROC. i \<noteq> j \<longrightarrow> pid_apart (procs s) i j)"

lemma pid_ok_upd:
  "pid_ok (P(k := freed p)) n i \<longleftrightarrow> i = k \<or> pid_ok P n i"
  "0 < n \<Longrightarrow> pid_ok P n i \<Longrightarrow> pid_ok (P(k := allocated n tf pt fr p)) (n + 1) i"
  "pid_ok P n i \<Longrightarrow> n \<le> m \<Longrightarrow> pid_ok P m i"
  by (auto simp: pid_ok_def freed_def allocated_def)

lemma pid_apart_upd:
  "pid_apart P i j \<Longrightarrow> pid_apart (P(k := freed p)) i j"
  "i \<noteq> j \<Longrightarrow> pid_ok P n i \<Longrightarrow> pid_ok P n j \<Longrightarrow> pid_apart P i j \<Longrightarrow>
   pid_apart (P(k := allocated n tf pt fr p)) i j"
  by (auto simp: pid_apart_def pid_ok_def freed_def allocated_def)

lemma pid_inv_free:
  assumes "pid_inv s" "procs s' = (procs s)(i := freed (procs s i))" "nextpid s \<le> nextpid s'"
  shows "pid_inv s'"
  unfolding pid_inv_def assms(2)
proof (intro conjI allI impI)
  show "0 < nextpid s'" using assms(1,3) by (simp add: pid_inv_def)
  show "pid_ok ((procs s)(i := freed (procs s i))) (nextpid s') j" if "j < NPROC" for j
    using assms(1,3) that by (auto simp: pid_inv_def pid_ok_upd(1) intro: pid_ok_upd(3))
  show "pid_apart ((procs s)(i := freed (procs s i))) j k" if "j < NPROC" "k < NPROC" "j \<noteq> k" for j k
    using assms(1) that by (intro pid_apart_upd(1)) (auto simp: pid_inv_def)
qed

lemma pid_inv_alloc:
  assumes "pid_inv s" "procs s' = (procs s)(i := allocated (nextpid s) tf pt fr (procs s i))"
    "nextpid s' = nextpid s + 1"
  shows "pid_inv s'"
  unfolding pid_inv_def assms(2,3)
proof (intro conjI allI impI)
  let ?P = "(procs s)(i := allocated (nextpid s) tf pt fr (procs s i))"
  show "0 < nextpid s + 1" using assms(1) by (simp add: pid_inv_def)
  show "pid_ok ?P (nextpid s + 1) j" if "j < NPROC" for j
    using assms(1) that by (intro pid_ok_upd(2)) (auto simp: pid_inv_def)
  show "pid_apart ?P j k" if "j < NPROC" "k < NPROC" "j \<noteq> k" for j k
    using assms(1) that by (intro pid_apart_upd(2)) (auto simp: pid_inv_def)
qed

lemma allocproc_cases:
  assumes V: "vm_tables V" and ready: "alloc_ready s"
  obtains (full) "\<forall>i < NPROC. pstate (procs s i) \<noteq> UNUSED" "allocproc V s e = Ret None (touch s) e"
  | (fail) i M F where "i < NPROC" "pstate (procs s i) = UNUSED"
      "allocproc V s e = Ret None ((touch s)\<lparr>nextpid := nextpid s + 1, mem := M, freelist := F,
        procs := (procs s)(i := freed (procs s i))\<rparr>) e"
  | (ok) i M F tf pt where "i < NPROC" "pstate (procs s i) = UNUSED"
      "\<forall>j < i. pstate (procs s j) \<noteq> UNUSED" "tf \<noteq> 0" "pt \<noteq> 0"
      "allocproc V s e = Ret (Some i) ((acq (L_proc i) s)\<lparr>nextpid := nextpid s + 1, mem := M,
        freelist := F, procs := (procs s)(i := allocated (nextpid s) tf pt (syms s ''forkret'') (procs s i))\<rparr>) e"
proof -
  have r: "plocks_free s" "cpu_wf s" using ready by (auto simp: alloc_ready_def kmem_ready_def)
  show thesis
  proof (cases "find_index (\<lambda>i. pstate (procs s i) = UNUSED) [0..<NPROC]")
    case None
    then have "allocproc V s e = Ret None (touch s) e"
      using find_unused_Ret[OF r, of e] by (simp add: allocproc_def bnd_def)
    moreover have "\<forall>i < NPROC. pstate (procs s i) \<noteq> UNUSED" using None by (auto simp: find_index_None)
    ultimately show thesis using full by blast
  next
    case (Some i)
    then have i: "i < NPROC \<and> pstate (procs s i) = UNUSED \<and> (\<forall>j < i. pstate (procs s j) \<noteq> UNUSED)"
      by (rule find_index_upt[THEN iffD1])
    have "find_unused s e = Ret (Some i) (acq (L_proc i) s) e"
      using find_unused_Ret[OF r, of e] Some by simp
    from alloc_fill[OF V ready conjunct1[OF i] this] show thesis
    proof (elim disjE exE conjE)
      fix M F assume "allocproc V s e = Ret None ((touch s)\<lparr>nextpid := nextpid s + 1, mem := M,
        freelist := F, procs := (procs s)(i := freed (procs s i))\<rparr>) e"
      with i show thesis by (intro fail) auto
    next
      fix M F tf pt assume "tf \<noteq> 0" "pt \<noteq> 0" "allocproc V s e = Ret (Some i)
        ((acq (L_proc i) s)\<lparr>nextpid := nextpid s + 1, mem := M, freelist := F, procs := (procs s)
        (i := allocated (nextpid s) tf pt (syms s ''forkret'') (procs s i))\<rparr>) e"
      with i show thesis by (intro ok) auto
    qed
  qed
qed

section \<open>Waiting for a child\<close>

lemma kwait_scan_skip:
  assumes "\<And>j. j \<in> set js \<Longrightarrow> lock_free (L_proc j) s" "cpu_wf s" "noff (mycpu s) \<noteq> 0"
    and "\<And>j. j \<in> set js \<Longrightarrow> parent (procs s j) = Some me \<Longrightarrow> pstate (procs s j) \<noteq> ZOMBIE"
  shows "kwait_scan V me a (js @ rest) hk s e =
    kwait_scan V me a rest (hk \<or> (\<exists>j \<in> set js. parent (procs s j) = Some me)) s e"
  using assms
proof (induction js arbitrary: hk)
  case Nil
  then show ?case by simp
next
  case (Cons j js)
  have IH: "kwait_scan V me a (js @ rest) b s e =
    kwait_scan V me a rest (b \<or> (\<exists>j \<in> set js. parent (procs s j) = Some me)) s e" for b
    using Cons.prems by (intro Cons.IH) auto
  show ?case
    using Cons.prems(1)[of j] Cons.prems(2,3,4) IH
    by (cases "parent (procs s j) = Some me") (simp_all add: kop_simps lock_freeD cpu_wf_def[of s])
qed

text \<open>The parent, holding \<open>wait_lock\<close> and no process lock.\<close>

definition waiting :: "nat \<Rightarrow> 'z pst_scheme \<Rightarrow> bool" where
  "waiting me s \<longleftrightarrow> running me s \<and> lock_free L_wait s \<and> kmem_ready s"

text \<open>One round of the loop of \<open>kwait\<close>.\<close>

definition kwait_round :: "('z pst_scheme) vm \<Rightarrow> nat \<Rightarrow> addr \<Rightarrow> ('z pst_scheme, unit + int) kop" where
  "kwait_round V me a =
     bnd (kwait_scan V me a [0..<NPROC] False) (\<lambda>r. case r of
         Inl v \<Rightarrow> ret (Inr v)
       | Inr havekids \<Rightarrow>
           bnd (if havekids then bnd (killed me) (\<lambda>k. ret (k \<noteq> 0)) else ret True) (\<lambda>stop.
           if stop then thn (release L_wait) (ret (Inr (- 1)))
           else thn (sleep (C_proc me) L_wait) (ret (Inl ()))))"

lemma kwait_round_less:
  assumes "env_le (kwait_scan V me a [0..<NPROC] False)" "kwait_round V me a s e = Ret (Inl x) s' e'"
  shows "length e' < length e"
proof -
  obtain r s1 e1 where 1: "kwait_scan V me a [0..<NPROC] False s e = Ret r s1 e1" and
    r: "(case r of Inl v \<Rightarrow> ret (Inr v) | Inr havekids \<Rightarrow>
           bnd (if havekids then bnd (killed me) (\<lambda>k. ret (k \<noteq> 0)) else ret True) (\<lambda>stop.
           if stop then thn (release L_wait) (ret (Inr (- 1)))
           else thn (sleep (C_proc me) L_wait) (ret (Inl ())))) s1 e1 = Ret (Inl x) s' e'"
    using assms(2) unfolding kwait_round_def bnd_eq_Ret by blast
  then obtain hk where hk: "r = Inr hk" by (cases r) auto
  have le: "env_le (if hk then bnd (killed me) (\<lambda>k. ret (k \<noteq> 0)) else ret True)"
    by (intro env_intros)
  obtain stop s2 e2 where 2: "(if hk then bnd (killed me) (\<lambda>k. ret (k \<noteq> 0)) else ret True) s1 e1 = Ret stop s2 e2"
    and 3: "(if stop then thn (release L_wait) (ret (Inr (- 1 :: int)))
           else thn (sleep (C_proc me) L_wait) (ret (Inl ()))) s2 e2 = Ret (Inl x) s' e'"
    using r unfolding hk sum.case bnd_eq_Ret by blast
  have "\<not> stop" using 3 by (auto simp: thn_eq_Ret)
  then have "sleep (C_proc me) L_wait s2 e2 = Ret () s' e'" using 3 by (simp add: thn_eq_Ret)
  then have "length e' < length e2" by (rule env_lessD[OF env_less_sleep])
  also have "\<dots> \<le> length e1" using le 2 by (rule env_leD)
  also have "\<dots> \<le> length e" using assms(1) 1 by (rule env_leD)
  finally show ?thesis .
qed

lemma kwait_rounds:
  "kwait V a = bnd myproc_ptr (\<lambda>me. thn (acquire L_wait)
     (loop (\<lambda>_. 0) (\<lambda>_. kwait_round V me a) ()))"
  unfolding kwait_def kwait_round_def ..

definition copyout_ok :: "('z pst_scheme) vm \<Rightarrow> addr \<Rightarrow> addr \<Rightarrow> bool" where
  "copyout_ok V pt a \<longleftrightarrow> (\<forall>bs s e. kmem_ready s \<and> noff (mycpu s) \<noteq> 0 \<longrightarrow>
     (\<exists>x M F. v_copyout V pt a bs s e = Ret x (s\<lparr>mem := M, freelist := F\<rparr>) e \<and> 0 \<le> x))"

text \<open>The table as \<open>kwait\<close> sees it once it holds \<open>wait_lock\<close>.\<close>

lemma waitingD:
  assumes "waiting me s"
  shows "me < NPROC" "cproc (mycpu s) = Some me" "noff (mycpu s) = 0" "plocks_free s" "cpu_wf s"
    "lock_free L_wait s" "lock_free L_kmem s" "\<And>j. j < NPROC \<Longrightarrow> lock_free (L_proc j) s"
  using assms by (auto simp: waiting_def kmem_ready_def plocks_free_def dest: runningD)

lemma kwait_scan_none:
  assumes "waiting me s" "\<forall>j < NPROC. parent (procs s j) = Some me \<longrightarrow> pstate (procs s j) \<noteq> ZOMBIE"
  shows "kwait_scan V me a [0..<NPROC] False (acq L_wait s) e =
    Ret (Inr (\<exists>j < NPROC. parent (procs s j) = Some me)) (acq L_wait s) e"
proof -
  note w = waitingD[OF assms(1)]
  have "kwait_scan V me a ([0..<NPROC] @ []) False (acq L_wait s) e =
      kwait_scan V me a [] (False \<or> (\<exists>j \<in> set [0..<NPROC]. parent (procs (acq L_wait s) j) = Some me))
        (acq L_wait s) e"
    using w assms(2) by (intro kwait_scan_skip) auto
  also have "(\<exists>j \<in> set [0..<NPROC]. parent (procs (acq L_wait s) j) = Some me) =
      (\<exists>j < NPROC. parent (procs s j) = Some me)" by auto
  finally show ?thesis by simp
qed

lemma kwait_start:
  assumes "waiting me s"
  shows "kwait V a s e = loop (\<lambda>_. 0) (\<lambda>_. kwait_round V me a) () (acq L_wait s) e"
  using waitingD[OF assms] by (simp add: kwait_rounds kop_simps lock_freeD)

lemma kwait_no_child:
  assumes "waiting me s" "\<forall>j < NPROC. parent (procs s j) \<noteq> Some me"
  shows "kwait V a s e = Ret (- 1) (touch s) e"
proof -
  note w = waitingD[OF assms(1)]
  have k: "kwait_scan V me a [0..<NPROC] False (acq L_wait s) e = Ret (Inr False) (acq L_wait s) e"
    using kwait_scan_none[OF assms(1), of V a e] assms(2) by auto
  have "kwait_round V me a (acq L_wait s) e = Ret (Inr (- 1)) (touch s) e"
    using w by (simp add: kwait_round_def bnd_def k thn_def kop_simps)
  then show ?thesis unfolding kwait_start[OF assms(1)] by (rule loop_first)
qed

lemma kwait_blocks:
  assumes "waiting me s" "\<forall>j < NPROC. parent (procs s j) = Some me \<longrightarrow> pstate (procs s j) \<noteq> ZOMBIE"
    "\<exists>j < NPROC. parent (procs s j) = Some me" "pkilled (procs s me) = 0"
  shows "kwait V a s [] = Off (sleep_st (C_proc me) L_wait me (acq L_wait s))"
proof -
  note w = waitingD[OF assms(1)]
  have k: "kwait_scan V me a [0..<NPROC] False (acq L_wait s) [] = Ret (Inr True) (acq L_wait s) []"
    using kwait_scan_none[OF assms(1,2), of V a "[]"] assms(3) by auto
  have c: "sleep_call L_wait me (acq L_wait s)"
    using w by (simp add: sleep_call_def)
  have "kwait_round V me a (acq L_wait s) [] = Off (sleep_st (C_proc me) L_wait me (acq L_wait s))"
    using w assms(4) by (simp add: kwait_round_def bnd_def k thn_def kop_simps sleep_Off[OF c])
  then show ?thesis unfolding kwait_start[OF assms(1)] by (rule loop_first)
qed

lemma kwait_reaps:
  assumes w: "waiting me s" and V: "vm_tables V" "a = 0 \<or> copyout_ok V (pagetable (procs s me)) a"
    and j: "j < NPROC" "parent (procs s j) = Some me" "pstate (procs s j) = ZOMBIE"
    and least: "\<forall>i < j. parent (procs s i) = Some me \<longrightarrow> pstate (procs s i) \<noteq> ZOMBIE"
    and tf: "ptrapframe (procs s j) = 0 \<or> page_ok s (ptrapframe (procs s j))"
  shows "\<exists>M F. kwait V a s e = Ret (pid (procs s j)) ((touch s)\<lparr>mem := M, freelist := F,
    procs := (procs s)(j := freed (procs s j))\<rparr>) e"
proof -
  note d = waitingD[OF w]
  let ?s1 = "acq L_wait s" and ?p = "procs s j"
  let ?s2 = "acq (L_proc j) ?s1" and ?hk = "False \<or> (\<exists>i \<in> set [0..<j]. parent (procs ?s1 i) = Some me)"
  have "kwait_scan V me a ([0..<j] @ j # [Suc j..<NPROC]) False ?s1 e =
      kwait_scan V me a (j # [Suc j..<NPROC]) ?hk ?s1 e"
    using d least j(1) by (intro kwait_scan_skip) auto
  then have 1: "kwait_scan V me a [0..<NPROC] False ?s1 e =
      kwait_scan V me a (j # [Suc j..<NPROC]) ?hk ?s1 e"
    unfolding upt_split_at[OF j(1)] .
  have s2: "kmem_ready ?s2" "noff (mycpu ?s2) \<noteq> 0"
    using d by (simp_all add: kmem_ready_def)
  obtain r M F where 2: "(if a \<noteq> 0 then v_copyout V (pagetable (procs s me)) a (int_bytes (xstate ?p)) else ret 0)
      ?s2 e = Ret r (?s2\<lparr>mem := M, freelist := F\<rparr>) e" "\<not> (a \<noteq> 0 \<and> r < 0)"
  proof (cases "a = 0")
    case True
    then show ?thesis by (intro that[where r = 0 and M = "mem s" and F = "freelist s"]) simp_all
  next
    case False
    then have "copyout_ok V (pagetable (procs s me)) a" using V(2) by blast
    then obtain x M F where "v_copyout V (pagetable (procs s me)) a (int_bytes (xstate ?p)) ?s2 e =
        Ret x (?s2\<lparr>mem := M, freelist := F\<rparr>) e" "0 \<le> x"
      using s2 unfolding copyout_ok_def by blast
    then show ?thesis using False by (intro that[where r = x and M = M and F = F]) simp_all
  qed
  let ?s3 = "?s2\<lparr>mem := M, freelist := F\<rparr>"
  have s3: "kmem_ready ?s3" "noff (mycpu ?s3) \<noteq> 0" "page_ok ?s3 = page_ok s"
    using s2 by (simp_all add: page_ok_def fun_eq_iff)
  have pj: "procs ?s3 j = ?p" by simp
  obtain M1 F1 where 3: "freeproc V j ?s3 e =
      Ret () (?s3\<lparr>mem := M1, freelist := F1, procs := (procs s)(j := freed ?p)\<rparr>) e"
    using freeproc_nested[OF V(1) s3(1,2), of j e] tf unfolding pj s3(3) by auto
  let ?fin = "thn (freeproc V j) (thn (release (L_proc j)) (thn (release L_wait) (ret (Inl (pid ?p)))))"
  have 5: "?fin ?s3 e = Ret (Inl (pid ?p))
      ((touch s)\<lparr>mem := M1, freelist := F1, procs := (procs s)(j := freed ?p)\<rparr>) e"
    using d j 3 by (simp add: bnd_def thn_def release_Ret)
  have "kwait_scan V me a (j # [Suc j..<NPROC]) ?hk ?s1 e =
      bnd (if a \<noteq> 0 then v_copyout V (pagetable (procs s me)) a (int_bytes (xstate ?p)) else ret 0)
        (\<lambda>r. if a \<noteq> 0 \<and> r < 0
             then thn (release (L_proc j)) (thn (release L_wait) (ret (Inl (- 1)))) else ?fin) ?s2 e"
    using d j by (simp add: kop_simps lock_freeD)
  also have "\<dots> = ?fin ?s3 e"
    using 2 by (simp only: bnd_def outcome.case if_False)
  finally have "kwait_scan V me a (j # [Suc j..<NPROC]) ?hk ?s1 e = Ret (Inl (pid ?p))
      ((touch s)\<lparr>mem := M1, freelist := F1, procs := (procs s)(j := freed ?p)\<rparr>) e"
    unfolding 5 .
  then have "kwait_round V me a ?s1 e = Ret (Inr (pid ?p))
      ((touch s)\<lparr>mem := M1, freelist := F1, procs := (procs s)(j := freed ?p)\<rparr>) e"
    using 1 by (simp add: kwait_round_def bnd_def)
  then have "kwait V a s e = Ret (pid ?p) ((touch s)\<lparr>mem := M1, freelist := F1, procs := (procs s)(j := freed ?p)\<rparr>) e"
    unfolding kwait_start[OF w] by (rule loop_first)
  then show ?thesis by blast
qed

section \<open>Properties\<close>

text \<open>The scheduling data of a process that has not run.\<close>

definition mlfq_ok_new :: "proc \<Rightarrow> bool" where
  "mlfq_ok_new p \<longleftrightarrow> queue_level p = 0 \<and> q_ticks p = 0 \<and> wait_time p = 0 \<and> n_run p = 0 \<and>
     total_ticks p = 0"


definition one_page_st :: pst where
  "one_page_st = zero_pst\<lparr>freelist := 0x87fff000\<rparr>"

lemma one_page_ready: "alloc_ready one_page_st" "pid_inv one_page_st"
proof -
  have "kmem_inv one_page_st [0x87fff000]"
    by (simp add: one_page_st_def kmem_inv_def zero_pst_def load64_def page_ok_def aligned_def
        PHYSTOP_def KERNBASE_def)
  then show "alloc_ready one_page_st"
    by (auto simp: alloc_ready_def one_page_st_def kmem_ready_def)
  show "pid_inv one_page_st"
    by (simp add: pid_inv_def pid_ok_def pid_apart_def one_page_st_def)
qed

lemma simple_vm_tables: "vm_tables simple_vm"
  by (simp add: vm_tables_def mem_only_basic)



definition parent_st :: pst where
  "parent_st = (set_mycpu (\<lambda>c. c\<lparr>cproc := Some 2\<rparr>) zero_pst)\<lparr>procs := (\<lambda>_. zero_proc)
     (2 := zero_proc\<lparr>pstate := RUNNING, pid := 1\<rparr>,
      5 := zero_proc\<lparr>pstate := ZOMBIE, pid := 7, parent := Some 2\<rparr>)\<rparr>"


text \<open>
  C35: \<open>kill(0)\<close> succeeds while a slot is unused, because an unused slot has pid 0.  It marks that
  slot as killed, and the process that \<open>allocproc\<close> later puts into the slot is born killed.
\<close>

theorem kill_zero_marks_free_slot:
  assumes "alloc_ready s" "vm_tables V" "i < NPROC" "pstate (procs s i) = UNUSED"
    "pid (procs s i) = 0" "\<forall>j < i. pid (procs s j) \<noteq> 0 \<and> pstate (procs s j) \<noteq> UNUSED"
  shows "\<exists>s1. kkill 0 s e = Ret 0 s1 e \<and>
    (\<forall>k s2 e2. allocproc V s1 e = Ret (Some k) s2 e2 \<longrightarrow> k = i \<and> pkilled (procs s2 i) = 1)"
proof -
  have r: "plocks_free s" "cpu_wf s" using assms(1) by (auto simp: alloc_ready_def kmem_ready_def)
  let ?s1 = "(touch s)\<lparr>procs := (procs s)(i := kill_one (procs s i))\<rparr>"
  have "find_index (\<lambda>i. pid (procs s i) = 0) [0..<NPROC] = Some i"
    using assms(3,5,6) by (intro find_index_upt[THEN iffD2]) simp
  then have kk: "kkill 0 s e = Ret 0 ?s1 e" using r by (simp add: kkill_Ret)
  have u: "pstate (procs ?s1 i) = UNUSED" "pkilled (procs ?s1 i) = 1"
    "\<forall>j < i. pstate (procs ?s1 j) \<noteq> UNUSED"
    using assms(4,6) by (simp_all add: kill_one_def)
  have ready: "alloc_ready ?s1"
    using assms(1) by (auto simp: alloc_ready_def kmem_inv_def page_ok_def)
  have "k = i \<and> pkilled (procs s2 i) = 1" if al: "allocproc V ?s1 e = Ret (Some k) s2 e2" for k s2 e2
    using assms(2) ready
  proof (cases rule: allocproc_cases[where e = e])
    case full
    then show ?thesis using assms(3) u(1) by auto
  next
    case (fail i' M F)
    then show ?thesis using al by simp
  next
    case (ok i' M F tf pt)
    then have "i' = i" using u(1,3) by (metis linorder_neqE_nat)
    then show ?thesis using ok(6) al u(2) by (auto simp: allocated_def)
  qed
  then show ?thesis using kk by blast
qed

theorem kill_zero_marks_free_slot_witness:
  "\<exists>s1 s2. kkill 0 one_page_st [] = Ret 0 s1 [] \<and> allocproc simple_vm s1 [] = Ret (Some 0) s2 [] \<and>
     pkilled (procs s2 0) = 1"
proof -
  obtain s1 where s1: "kkill 0 one_page_st [] = Ret 0 s1 []"
    "\<And>k s2 e2. allocproc simple_vm s1 [] = Ret (Some k) s2 e2 \<Longrightarrow> k = 0 \<and> pkilled (procs s2 0) = 1"
    using kill_zero_marks_free_slot[OF one_page_ready(1) simple_vm_tables, of 0 "[]"]
    by (auto simp: one_page_st_def)
  have "find_index (\<lambda>i. pid (procs one_page_st i) = 0) [0..<NPROC] = Some 0"
    by (intro find_index_upt[THEN iffD2]) (simp add: one_page_st_def)
  then have e1: "s1 = (touch one_page_st)\<lparr>procs := (procs one_page_st)(0 := kill_one (procs one_page_st 0))\<rparr>"
    using s1(1) by (simp add: kkill_Ret one_page_st_def)
  have f: "find_index (\<lambda>i. pstate (procs s1 i) = UNUSED) [0..<NPROC] = Some 0"
    by (intro find_index_upt[THEN iffD2]) (simp add: e1 one_page_st_def kill_one_def)
  have "plocks_free s1" "cpu_wf s1" "noff (mycpu s1) = 0" "lock_free L s1" "freelist s1 = 0x87fff000" for L
    by (simp_all add: e1 one_page_st_def)
  then have "\<exists>s2. allocproc simple_vm s1 [] = Ret (Some 0) s2 []"
    using f by (simp add: allocproc_def kop_simps find_unused_Ret allocpid_Ret kalloc_Ret
        kmem_ready_def kalloc_st_def proc_pagetable_def)
  then show ?thesis using s1 by blast
qed

end
