(* ===== verification/Sleeplock.thy ===== *)
theory Sleeplock
  imports Vm
begin

text \<open>
  kernel/sleeplock.c: locks held across context switches.  A waiting process sleeps on the lock
  and looks again each time it is woken.
\<close>

section \<open>State\<close>

record sleeplock =
  slocked :: bool
  slname :: string
  slpid :: int

record slst = pst +
  slocks :: "sleepid \<Rightarrow> sleeplock"

lemma slocks_frame [simp, frame_simps]:
  "cpuid (slocks_update g s) = cpuid s" "mycpu (slocks_update g s) = mycpu s"
  "intr_get (slocks_update g s) = intr_get s" "is_holding L (slocks_update g s) = is_holding L s"
  "lock_free L (slocks_update g s) = lock_free L s" "cpu_wf (slocks_update g s) = cpu_wf s"
  "plocks_free (slocks_update g s) = plocks_free s"
  "other_plocks_free (slocks_update g s) = other_plocks_free s"
  "kmem_ready (slocks_update g s) = kmem_ready s"
  "touch (slocks_update g s) = slocks_update g (touch s)"
  "acq L (slocks_update g s) = slocks_update g (acq L s)" "rel L (slocks_update g s) = slocks_update g (rel L s)"
  "intr_on (slocks_update g s) = slocks_update g (intr_on s)"
  "intr_off (slocks_update g s) = slocks_update g (intr_off s)"
  "set_mycpu k (slocks_update g s) = slocks_update g (set_mycpu k s)"
  "wakeup_st ch (slocks_update g s) = slocks_update g (wakeup_st ch s)"
  "kalloc_st (slocks_update g s) = slocks_update g (kalloc_st s)"
  "kfree_st pa (slocks_update g s) = slocks_update g (kfree_st pa s)"
  by (simp_all add: base_defs intr_get_def r_sstatus_def intr_on_def intr_off_def w_sstatus_def
      wakeup_st_def kalloc_st_def kfree_st_def plocks_free_def other_plocks_free_def kmem_ready_def)

lemma slocks_kept [simp, frame_simps]:
  "slocks (touch s) = slocks s" "slocks (acq L s) = slocks s" "slocks (rel L s) = slocks s" "slocks (intr_on s) = slocks s"
  "slocks (intr_off s) = slocks s" "slocks (set_mycpu k s) = slocks s" "slocks (wakeup_st ch s) = slocks s"
  "slocks (kalloc_st s) = slocks s" "slocks (kfree_st pa s) = slocks s"
  by (simp_all add: base_defs intr_on_def intr_off_def w_sstatus_def wakeup_st_def kalloc_st_def
      kfree_st_def)

lemma slocks_slept [simp]: "slocks (sleep_st ch lk i s) = slocks s" "slocks (woke_st lk i ia s) = slocks s"
  by (simp_all add: sleep_st_def woke_st_def)

lemma slocks_calm [simp]:
  "running i (slocks_update g s) = running i s" "under lk i (slocks_update g s) = under lk i s"
  "calm (slocks_update g s) t = calm s t" "calm s (slocks_update g t) = calm s t"
  by (simp_all add: running_def under_def sleep_call_def calm_def)

definition set_slock :: "sleepid \<Rightarrow> (sleeplock \<Rightarrow> sleeplock) \<Rightarrow> ('z slst_scheme, unit) kop" where
  "set_slock x f = upd (\<lambda>s. s\<lparr>slocks := (slocks s)(x := f (slocks s x))\<rparr>)"

lemma set_slock_app [kop_simps, simp]:
  "set_slock x f s e = Ret () (s\<lparr>slocks := (slocks s)(x := f (slocks s x))\<rparr>) e"
  by (simp add: set_slock_def)

section \<open>Operations\<close>

definition initsleeplock :: "sleepid \<Rightarrow> string \<Rightarrow> ('z slst_scheme, unit) kop" where
  "initsleeplock x nm =
     thn (initlock (L_sleep x) ''sleep lock'')
     (set_slock x (\<lambda>_. \<lparr>slocked = False, slname = nm, slpid = 0\<rparr>))"

definition acquiresleep :: "sleepid \<Rightarrow> ('z slst_scheme, unit) kop" where
  "acquiresleep x =
     thn (acquire (L_sleep x)) (
     thn (while_off (\<lambda>s. slocked (slocks s x)) (sleep (C_sleep x) (L_sleep x))) (
     thn (set_slock x (\<lambda>k. k\<lparr>slocked := True\<rparr>)) (
     bnd myproc_ptr (\<lambda>i.
     bnd (rd (\<lambda>s. pid (procs s i))) (\<lambda>p.
     thn (set_slock x (\<lambda>k. k\<lparr>slpid := p\<rparr>))
     (release (L_sleep x)))))))"

definition releasesleep :: "sleepid \<Rightarrow> ('z slst_scheme, unit) kop" where
  "releasesleep x =
     thn (acquire (L_sleep x)) (
     thn (set_slock x (\<lambda>k. k\<lparr>slocked := False\<rparr>)) (
     thn (set_slock x (\<lambda>k. k\<lparr>slpid := 0\<rparr>)) (
     thn (wakeup (Some (C_sleep x)))
     (release (L_sleep x)))))"

definition holdingsleep :: "sleepid \<Rightarrow> ('z slst_scheme, bool) kop" where
  "holdingsleep x =
     thn (acquire (L_sleep x)) (
     bnd (rd (\<lambda>s. slocked (slocks s x))) (\<lambda>l.
     bnd (if l then bnd myproc_ptr (\<lambda>i. rd (\<lambda>s. slpid (slocks s x) = pid (procs s i)))
          else ret False) (\<lambda>r.
     thn (release (L_sleep x))
     (ret r))))"

lemma env_le_sleeplock [env_intros]:
  "env_le (acquiresleep x)" "env_le (releasesleep x)" "env_le (holdingsleep x)"
  unfolding acquiresleep_def releasesleep_def holdingsleep_def set_slock_def
  by (intro env_intros)+

section \<open>Functional behaviour\<close>

definition free_slock :: "sleepid \<Rightarrow> 'z slst_scheme \<Rightarrow> bool" where
  "free_slock x s \<longleftrightarrow> lock_free (L_sleep x) s \<and> \<not> slocked (slocks s x)"

definition locked_by :: "int \<Rightarrow> sleeplock \<Rightarrow> sleeplock" where
  "locked_by p k = k\<lparr>slocked := True, slpid := p\<rparr>"

definition unlocked :: "sleeplock \<Rightarrow> sleeplock" where
  "unlocked k = k\<lparr>slocked := False, slpid := 0\<rparr>"

lemma acquiresleep_Ret [kop_simps]:
  assumes "running i s" "free_slock x s"
  shows "acquiresleep x s e = Ret () ((touch s)\<lparr>slocks := (slocks s)(x := locked_by (pid (procs s i)) (slocks s x))\<rparr>) e"
  using runningD[OF assms(1)] assms(2)
  by (simp add: acquiresleep_def kop_simps lock_freeD while_off_unfold[OF env_less_sleep]
      free_slock_def locked_by_def)

lemma releasesleep_Ret [kop_simps]:
  assumes "running i s" "lock_free (L_sleep x) s"
  shows "releasesleep x s e = Ret () ((touch s)\<lparr>slocks := (slocks s)(x := unlocked (slocks s x)),
    procs := woken (Some i) (Some (C_sleep x)) (procs s)\<rparr>) e"
  using runningD[OF assms(1)] assms(2)
  by (simp add: releasesleep_def kop_simps lock_freeD unlocked_def)

lemma holdingsleep_Ret [kop_simps]:
  assumes "running i s" "lock_free (L_sleep x) s"
  shows "holdingsleep x s e =
    Ret (slocked (slocks s x) \<and> slpid (slocks s x) = pid (procs s i)) (touch s) e"
  using runningD[OF assms(1)] assms(2)
  by (cases "slocked (slocks s x)") (simp_all add: holdingsleep_def kop_simps lock_freeD)

text \<open>A process that finds the lock taken goes to sleep on it.\<close>

lemma acquiresleep_Off:
  assumes "running i s" "lock_free (L_sleep x) s" "slocked (slocks s x)"
  shows "acquiresleep x s [] = Off (sleep_st (C_sleep x) (L_sleep x) i (acq (L_sleep x) s))"
proof -
  have c: "sleep_call (L_sleep x) i (acq (L_sleep x) s)"
    using runningD[OF assms(1)] by (simp add: sleep_call_def)
  show ?thesis using runningD[OF assms(1)] assms(2,3)
    by (simp add: acquiresleep_def kop_simps lock_freeD while_off_unfold[OF env_less_sleep]
        sleep_Off[OF c])
qed

end
