(* ===== verification/Ring.thy ===== *)
theory Ring
  imports Prelude
begin

text \<open>
  The ring buffers of the pipe and of the console input: an array of \<open>N\<close> bytes indexed by 32-bit
  counters that wrap around.  \<open>N\<close> divides \<open>2 ^ 32\<close>, so that a counter modulo \<open>N\<close> goes on from
  \<open>N - 1\<close> to \<open>0\<close> also when it wraps.
\<close>

section \<open>The bytes between two counters\<close>

definition ring_bytes :: "nat \<Rightarrow> (nat \<Rightarrow> byte) \<Rightarrow> u32 \<Rightarrow> u32 \<Rightarrow> byte list" where
  "ring_bytes N d r w = map (\<lambda>i. d ((unat r + i) mod N)) [0..<unat (w - r)]"

lemma length_ring_bytes [simp]: "length (ring_bytes N d r w) = unat (w - r)"
  by (simp add: ring_bytes_def)

lemma ring_bytes_same [simp]: "ring_bytes N d r r = []"
  by (simp add: ring_bytes_def)

lemma ring_bytes_empty: "ring_bytes N d r w = [] \<longleftrightarrow> r = w"
proof -
  have "ring_bytes N d r w = [] \<longleftrightarrow> w - r = 0"
    unfolding length_0_conv[symmetric] length_ring_bytes by (simp only: unat_eq_0)
  then show ?thesis by auto
qed

lemma unat_Suc_u32: "x \<noteq> - 1 \<Longrightarrow> unat (x + 1) = Suc (unat x)" for x :: u32
proof -
  assume "x \<noteq> - 1"
  then have "x + 1 \<noteq> 0" by (metis add_eq_0_iff2)
  then show ?thesis using unatSuc[of x] by (simp add: add.commute)
qed

lemma unat_less_not_max: "unat x < n \<Longrightarrow> n < 2 ^ 32 \<Longrightarrow> x \<noteq> - 1" for x :: u32
proof
  assume "unat x < n" "n < 2 ^ 32" "x = - 1"
  moreover have "unat (- 1 :: u32) = 2 ^ 32 - 1"
    by (simp add: unsigned_minus_1_eq_mask mask_eq_exp_minus_1)
  ultimately show False by simp
qed

lemma minus_1_apart: "r \<noteq> w \<Longrightarrow> w - (r + 1) \<noteq> - 1" "r \<noteq> w \<Longrightarrow> w - 1 - r \<noteq> - 1" for r w :: u32
  by (simp_all add: diff_eq_eq diff_diff_eq2)

locale ring_index =
  fixes N :: nat
  assumes N_dvd: "N dvd 2 ^ 32" and N_pos: "0 < N" and N_less: "N < 2 ^ 32"
begin

lemma unat_add_mod: "unat (r + k) mod N = (unat r + unat k) mod N" for r k :: u32
proof -
  have "unat (r + k) = (unat r + unat k) mod 2 ^ 32" by (simp add: unat_word_ariths)
  then show ?thesis using N_dvd by (simp add: mod_mod_cancel)
qed

lemma write_index: "unat w mod N = (unat r + unat (w - r)) mod N" for r w :: u32
  using unat_add_mod[of r "w - r"] by simp

lemma slots_apart:
  assumes "i < j" "j < i + N"
  shows "(a + i) mod N \<noteq> (a + j) mod N"
proof
  assume "(a + i) mod N = (a + j) mod N"
  then have "N dvd (a + j) - (a + i)"
    using assms mod_eq_dvd_iff_nat[of "a + i" "a + j" N] by simp
  then have "N dvd j - i" by simp
  then have "N \<le> j - i" using assms(1) by (intro dvd_imp_le) simp_all
  then show False using assms by simp
qed

lemma put:
  assumes "unat (w - r) < N"
  shows "ring_bytes N (d(unat w mod N := x)) r (w + 1) = ring_bytes N d r w @ [x]"
proof -
  define n where "n = unat (w - r)"
  have "unat (w + 1 - r) = Suc n"
    using unat_Suc_u32[of "w - r"] unat_less_not_max[OF assms N_less] by (simp add: n_def algebra_simps)
  moreover have "unat w mod N = (unat r + n) mod N" unfolding n_def by (rule write_index)
  moreover have "(unat r + i) mod N \<noteq> (unat r + n) mod N" if "i < n" for i
    using slots_apart[of i n] that assms by (simp add: n_def)
  ultimately show ?thesis by (simp add: ring_bytes_def n_def)
qed

lemma next_index: "(unat (r + 1) + i) mod N = (unat r + Suc i) mod N" for r :: u32
proof -
  have "(unat (r + 1) + i) mod N = (unat (r + 1) mod N + i) mod N" by (rule mod_add_left_eq[symmetric])
  also have "unat (r + 1) mod N = (unat r + 1) mod N" using unat_add_mod[of r 1] by simp
  also have "((unat r + 1) mod N + i) mod N = (unat r + 1 + i) mod N" by (rule mod_add_left_eq)
  finally show ?thesis by simp
qed

lemma take_first:
  assumes "r \<noteq> w"
  shows "ring_bytes N d r w = d (unat r mod N) # ring_bytes N d (r + 1) w"
proof -
  define m where "m = unat (w - (r + 1))"
  have "unat (w - (r + 1) + 1) = Suc m"
    unfolding m_def using assms by (intro unat_Suc_u32 minus_1_apart)
  moreover have "w - (r + 1) + 1 = w - r" by (simp add: diff_add_eq_diff_diff_swap)
  ultimately have n: "unat (w - r) = Suc m" by (simp only:)
  have "[0..<Suc m] = 0 # map Suc [0..<m]" by (simp add: upt_conv_Cons map_Suc_upt del: upt_Suc)
  then show ?thesis unfolding ring_bytes_def n m_def[symmetric]
    by (simp only: list.map map_map o_def add_0_right next_index)
qed

lemma drop_last:
  assumes "r \<noteq> w"
  shows "ring_bytes N d r w = ring_bytes N d r (w - 1) @ [d (unat (w - 1) mod N)]"
proof -
  define m where "m = unat (w - 1 - r)"
  have "w - 1 - r \<noteq> - 1" using assms by (rule minus_1_apart)
  then have "unat (w - 1 - r + 1) = Suc m" unfolding m_def by (rule unat_Suc_u32)
  then have n: "unat (w - r) = Suc m" by (simp add: algebra_simps)
  have "unat (w - 1) mod N = (unat r + m) mod N" unfolding m_def by (rule write_index)
  then show ?thesis unfolding ring_bytes_def n m_def[symmetric] by simp
qed

text \<open>A region of the ring split at a counter inside it.\<close>

lemma diff_split:
  fixes r w e :: u32
  assumes "unat (w - r) \<le> unat (e - r)"
  shows "unat (e - w) = unat (e - r) - unat (w - r)"
proof -
  have "e - w = (e - r) - (w - r)" by simp
  then show ?thesis using assms by (simp only: unat_sub word_le_nat_alt)
qed

lemma split:
  assumes "unat (w - r) \<le> unat (e - r)"
  shows "ring_bytes N d r e = ring_bytes N d r w @ ring_bytes N d w e"
proof -
  define a b where "a = unat (w - r)" and "b = unat (e - w)"
  have ab: "unat (e - r) = a + b" using diff_split[OF assms] assms by (simp add: a_def b_def)
  have ix: "(unat r + (a + i)) mod N = (unat w + i) mod N" for i
  proof -
    have "(unat w + i) mod N = (unat w mod N + i) mod N" by (rule mod_add_left_eq[symmetric])
    also have "unat w mod N = (unat r + a) mod N" unfolding a_def by (rule write_index)
    also have "((unat r + a) mod N + i) mod N = (unat r + a + i) mod N" by (rule mod_add_left_eq)
    finally show ?thesis by (simp add: add.assoc)
  qed
  have "[0..<a + b] = [0..<a] @ map (\<lambda>i. a + i) [0..<b]"
    using upt_add_eq_append[of 0 a b] map_add_upt[of a b] by (simp add: add.commute)
  then show ?thesis
    unfolding ring_bytes_def ab a_def[symmetric] b_def[symmetric]
    by (simp add: o_def ix)
qed

lemma full_iff: "w = r + of_nat N \<longleftrightarrow> unat (w - r) = N" for r w :: u32
proof -
  have "unat (of_nat N :: u32) = N" using N_less by (simp add: unsigned_of_nat take_bit_nat_eq_self)
  then show ?thesis by (metis add_diff_cancel_left' diff_add_cancel add.commute word_unat_eq_iff)
qed

end

end
