(* ===== verification/Uart.thy ===== *)
theory Uart
  imports Sleeplock
begin

unbundle bit_operations_syntax

text \<open>
  kernel/uart.c: the 16550 UART with interrupts.  The device's registers are part of the state;
  what it has transmitted is the field \<open>thr\<close> of Printf, where \<open>uartputc_sync\<close> is.
\<close>

section \<open>State\<close>

text \<open>
  \<open>u_idle\<close> and \<open>u_rx\<close> are the device's side: whether it can take another byte to send, and the
  bytes received and not yet read.  Writing register 0 or 1 while the latch bit of \<open>u_lcr\<close> is
  set changes the baud rate.
\<close>

record uartdev =
  u_ier :: byte
  u_fcr :: byte
  u_lcr :: byte
  u_dll :: byte
  u_dlm :: byte
  u_idle :: bool
  u_rx :: "byte list"
  tx_busy :: int

record uartst = slst +
  uart :: uartdev

lemma uart_frame [simp, frame_simps]:
  "cpuid (uart_update g s) = cpuid s" "mycpu (uart_update g s) = mycpu s"
  "intr_get (uart_update g s) = intr_get s" "is_holding L (uart_update g s) = is_holding L s"
  "lock_free L (uart_update g s) = lock_free L s" "cpu_wf (uart_update g s) = cpu_wf s"
  "plocks_free (uart_update g s) = plocks_free s"
  "other_plocks_free (uart_update g s) = other_plocks_free s"
  "kmem_ready (uart_update g s) = kmem_ready s"
  "touch (uart_update g s) = uart_update g (touch s)"
  "acq L (uart_update g s) = uart_update g (acq L s)" "rel L (uart_update g s) = uart_update g (rel L s)"
  "intr_on (uart_update g s) = uart_update g (intr_on s)"
  "intr_off (uart_update g s) = uart_update g (intr_off s)"
  "set_mycpu k (uart_update g s) = uart_update g (set_mycpu k s)"
  "wakeup_st ch (uart_update g s) = uart_update g (wakeup_st ch s)"
  "kalloc_st (uart_update g s) = uart_update g (kalloc_st s)"
  "kfree_st pa (uart_update g s) = uart_update g (kfree_st pa s)"
  by (simp_all add: base_defs intr_get_def r_sstatus_def intr_on_def intr_off_def w_sstatus_def
      wakeup_st_def kalloc_st_def kfree_st_def plocks_free_def other_plocks_free_def kmem_ready_def)

lemma uart_kept [simp, frame_simps]:
  "uart (touch s) = uart s" "uart (acq L s) = uart s" "uart (rel L s) = uart s" "uart (intr_on s) = uart s"
  "uart (intr_off s) = uart s" "uart (set_mycpu k s) = uart s" "uart (wakeup_st ch s) = uart s"
  "uart (kalloc_st s) = uart s" "uart (kfree_st pa s) = uart s"
  by (simp_all add: base_defs intr_on_def intr_off_def w_sstatus_def wakeup_st_def kalloc_st_def
      kfree_st_def)

lemma uart_slept [simp]: "uart (sleep_st ch lk i s) = uart s" "uart (woke_st lk i ia s) = uart s"
  by (simp_all add: sleep_st_def woke_st_def)

definition upd_uart :: "(uartdev \<Rightarrow> uartdev) \<Rightarrow> ('z uartst_scheme, unit) kop" where
  "upd_uart f = upd (\<lambda>s. s\<lparr>uart := f (uart s)\<rparr>)"

lemma upd_uart_app [kop_simps, simp]: "upd_uart f s e = Ret () (s\<lparr>uart := f (uart s)\<rparr>) e"
  by (simp add: upd_uart_def)

section \<open>Registers\<close>

definition RHR :: nat where "RHR = 0"
definition THR :: nat where "THR = 0"
definition IER :: nat where "IER = 1"
definition IER_RX_ENABLE :: byte where "IER_RX_ENABLE = push_bit 0 1"
definition IER_TX_ENABLE :: byte where "IER_TX_ENABLE = push_bit 1 1"
definition FCR :: nat where "FCR = 2"
definition FCR_FIFO_ENABLE :: byte where "FCR_FIFO_ENABLE = push_bit 0 1"
definition FCR_FIFO_CLEAR :: byte where "FCR_FIFO_CLEAR = push_bit 1 3"
definition LCR :: nat where "LCR = 3"
definition LCR_EIGHT_BITS :: byte where "LCR_EIGHT_BITS = push_bit 0 3"
definition LCR_BAUD_LATCH :: byte where "LCR_BAUD_LATCH = push_bit 7 1"
definition LSR_RX_READY :: byte where "LSR_RX_READY = push_bit 0 1"
definition LSR_TX_IDLE :: byte where "LSR_TX_IDLE = push_bit 5 1"

definition WriteReg :: "nat \<Rightarrow> byte \<Rightarrow> ('z uartst_scheme, unit) kop" where
  "WriteReg r v =
     bnd (rd (\<lambda>s. bit (u_lcr (uart s)) 7)) (\<lambda>latch.
     if r = 0 then
       (if latch then upd_uart (\<lambda>u. u\<lparr>u_dll := v\<rparr>) else upd (\<lambda>s. s\<lparr>thr := thr s @ [v]\<rparr>))
     else if r = 1 then
       (if latch then upd_uart (\<lambda>u. u\<lparr>u_dlm := v\<rparr>) else upd_uart (\<lambda>u. u\<lparr>u_ier := v\<rparr>))
     else if r = FCR then
       upd_uart (\<lambda>u. u\<lparr>u_fcr := v, u_rx := (if bit v 1 then [] else u_rx u)\<rparr>)
     else if r = LCR then upd_uart (\<lambda>u. u\<lparr>u_lcr := v\<rparr>)
     else ret ())"

definition read_LSR :: "uartdev \<Rightarrow> byte" where
  "read_LSR u = (if u_rx u \<noteq> [] then LSR_RX_READY else 0) OR (if u_idle u then LSR_TX_IDLE else 0)"

section \<open>Operations\<close>

definition uartinit :: "('z uartst_scheme, unit) kop" where
  "uartinit =
     thn (WriteReg IER 0x00) (
     thn (WriteReg LCR LCR_BAUD_LATCH) (
     thn (WriteReg 0 0x03) (
     thn (WriteReg 1 0x00) (
     thn (WriteReg LCR LCR_EIGHT_BITS) (
     thn (WriteReg FCR (FCR_FIFO_ENABLE OR FCR_FIFO_CLEAR)) (
     thn (WriteReg IER (IER_TX_ENABLE OR IER_RX_ENABLE))
     (initlock L_tx ''uart'')))))))"

definition uart_put :: "byte \<Rightarrow> ('z uartst_scheme, unit) kop" where
  "uart_put b =
     thn (while_off (\<lambda>s. tx_busy (uart s) \<noteq> 0) (sleep C_tx L_tx)) (
     thn (WriteReg THR b)
     (upd_uart (\<lambda>u. u\<lparr>tx_busy := 1\<rparr>)))"

definition uartwrite :: "byte list \<Rightarrow> ('z uartst_scheme, unit) kop" where
  "uartwrite buf =
     thn (acquire L_tx) (
     thn (foreach buf uart_put)
     (release L_tx))"

definition uartgetc :: "('z uartst_scheme, int) kop" where
  "uartgetc =
     bnd (rd (\<lambda>s. read_LSR (uart s) AND LSR_RX_READY \<noteq> 0)) (\<lambda>ready.
     if ready then
       bnd (rd (\<lambda>s. hd (u_rx (uart s)))) (\<lambda>b.
       thn (upd_uart (\<lambda>u. u\<lparr>u_rx := tl (u_rx u)\<rparr>))
       (ret (uint b)))
     else ret (- 1))"

text \<open>The first half of \<open>uartintr\<close>; the second, which calls the console, is in Console.\<close>

definition uart_tx_done :: "('z uartst_scheme, unit) kop" where
  "uart_tx_done =
     thn (acquire L_tx) (
     bnd (rd (\<lambda>s. read_LSR (uart s) AND LSR_TX_IDLE \<noteq> 0)) (\<lambda>idle.
     thn (if idle then
            thn (upd_uart (\<lambda>u. u\<lparr>tx_busy := 0\<rparr>)) (wakeup (Some C_tx))
          else ret ())
     (release L_tx)))"

lemma env_le_uart [env_intros]:
  "env_le (WriteReg r v)" "env_le (uart_put b)" "env_le (uartwrite buf)" "env_le uartgetc"
  "env_le uart_tx_done"
proof -
  show w: "env_le (WriteReg r v)" for r v
    unfolding WriteReg_def upd_uart_def by (intro env_intros)
  show p: "env_le (uart_put b)" for b
    unfolding uart_put_def upd_uart_def by (intro env_intros w)
  show "env_le (uartwrite buf)" "env_le uartgetc" "env_le uart_tx_done"
    unfolding uartwrite_def uartgetc_def uart_tx_done_def upd_uart_def by (intro env_intros p)+
qed

section \<open>Functional behaviour\<close>

lemma lsr_bits [simp]:
  "read_LSR u AND LSR_RX_READY \<noteq> 0 \<longleftrightarrow> u_rx u \<noteq> []"
  "read_LSR u AND LSR_TX_IDLE \<noteq> 0 \<longleftrightarrow> u_idle u"
  by (auto simp: read_LSR_def LSR_RX_READY_def LSR_TX_IDLE_def)

lemma uartgetc_Ret [kop_simps]:
  "uartgetc s e = (case u_rx (uart s) of [] \<Rightarrow> Ret (- 1) s e
     | b # bs \<Rightarrow> Ret (uint b) (s\<lparr>uart := (uart s)\<lparr>u_rx := bs\<rparr>\<rparr>) e)"
  by (simp add: uartgetc_def kop_simps split: list.split)

definition tx_done_st :: "'z uartst_scheme \<Rightarrow> 'z uartst_scheme" where
  "tx_done_st s = (if u_idle (uart s)
     then (touch s)\<lparr>uart := (uart s)\<lparr>tx_busy := 0\<rparr>, procs := woken (cproc (mycpu s)) (Some C_tx) (procs s)\<rparr>
     else touch s)"

lemma uart_tx_done_Ret [kop_simps]:
  assumes "lock_free L_tx s" "cpu_wf s" "other_plocks_free s"
  shows "uart_tx_done s e = Ret () (tx_done_st s) e"
  using assms
  by (simp add: uart_tx_done_def kop_simps lock_freeD tx_done_st_def cpu_wf_def[of s])

text \<open>
  With an idle transmitter one byte goes out without waiting, and marks the device busy; the
  next one sleeps until the interrupt handler clears the mark.
\<close>

lemma uart_put_idle:
  assumes "tx_busy (uart s) = 0" "\<not> bit (u_lcr (uart s)) 7"
  shows "uart_put b s e = Ret () (s\<lparr>thr := thr s @ [b], uart := (uart s)\<lparr>tx_busy := 1\<rparr>\<rparr>) e"
  using assms
  by (simp add: uart_put_def while_off_unfold[OF env_less_sleep] kop_simps WriteReg_def THR_def)

lemma uart_put_busy:
  assumes "tx_busy (uart s) \<noteq> 0" "sleep_call L_tx i s"
  shows "uart_put b s [] = Off (sleep_st C_tx L_tx i s)"
  using assms
  by (simp add: uart_put_def while_off_unfold[OF env_less_sleep] kop_simps sleep_Off)

section \<open>Sending a buffer\<close>

text \<open>
  The rest of the machine while process \<open>i\<close> waits for the transmitter: the interrupt comes and
  the process is run again.
\<close>

definition tx_env :: "nat \<Rightarrow> ('z uartst_scheme \<Rightarrow> 'z uartst_scheme) \<Rightarrow> bool" where
  "tx_env i f \<longleftrightarrow> (\<forall>t. sched_ready i t \<and> lock_free L_tx t \<longrightarrow>
     resumed i (f t) \<and> lock_free L_tx (f t) \<and> tx_busy (uart (f t)) = 0 \<and>
     u_lcr (uart (f t)) = u_lcr (uart t) \<and> thr (f t) = thr t)"

lemma sleep_call_upd [simp]:
  "sleep_call lk i (uart_update g s) = sleep_call lk i s" "sleep_call lk i (thr_update h s) = sleep_call lk i s"
  by (simp_all add: sleep_call_def)

lemma uart_put_sends:
  assumes "sleep_call L_tx i s" "\<not> bit (u_lcr (uart s)) 7" "tx_env i f"
  shows "\<exists>s' e'. uart_put b s (f # fs) = Ret () s' e' \<and> thr s' = thr s @ [b] \<and>
    sleep_call L_tx i s' \<and> \<not> bit (u_lcr (uart s')) 7 \<and> (e' = f # fs \<or> e' = fs)"
proof (cases "tx_busy (uart s) = 0")
  case True
  then show ?thesis using assms(1,2) by (simp add: uart_put_idle)
next
  case False
  define t where "t = sleep_st C_tx L_tx i s"
  define u where "u = woke_st L_tx i (intena (mycpu t)) (f t)"
  have f: "resumed i (f t)" "lock_free L_tx (f t)" "tx_busy (uart (f t)) = 0"
    "u_lcr (uart (f t)) = u_lcr (uart s)" "thr (f t) = thr s"
    using assms(3) sleep_st_ready[OF assms(1), of C_tx] unfolding tx_env_def t_def by auto
  have "sleep C_tx L_tx s (f # fs) = Ret () u fs"
    unfolding u_def t_def using f sleep_woke[OF assms(1) refl] by (simp add: t_def)
  then have "uart_put b s (f # fs) = uart_put b u fs"
    using False by (simp add: uart_put_def thn_def while_off_unfold[OF env_less_sleep, of _ _ _ s] bnd_def)
  also have "\<dots> = Ret () (u\<lparr>thr := thr u @ [b], uart := (uart u)\<lparr>tx_busy := 1\<rparr>\<rparr>) fs"
    using f assms(2) by (intro uart_put_idle) (simp_all add: u_def)
  finally show ?thesis
    using f assms(2) woke_st_call(1)[OF f(1,2), of "intena (mycpu t)"] by (simp add: u_def)
qed

lemma uart_puts_send:
  assumes "sleep_call L_tx i s" "\<not> bit (u_lcr (uart s)) 7" "\<forall>f \<in> set e. tx_env i f"
    "length buf \<le> length e"
  shows "\<exists>s' e'. foreach buf uart_put s e = Ret () s' e' \<and> thr s' = thr s @ buf \<and> sleep_call L_tx i s'"
  using assms
proof (induction buf arbitrary: s e)
  case Nil
  then show ?case by simp
next
  case (Cons b buf)
  obtain f fs where e: "e = f # fs" using Cons.prems(4) by (cases e) auto
  obtain s1 e1 where 1: "uart_put b s e = Ret () s1 e1" "thr s1 = thr s @ [b]" "sleep_call L_tx i s1"
    "\<not> bit (u_lcr (uart s1)) 7" "e1 = f # fs \<or> e1 = fs"
    using uart_put_sends[OF Cons.prems(1,2), of f b fs] Cons.prems(3) unfolding e by auto
  have "\<forall>g \<in> set e1. tx_env i g" "length buf \<le> length e1"
    using Cons.prems(3,4) 1(5) by (auto simp: e)
  from Cons.IH[OF 1(3,4) this] show ?case using 1(1,2) by (auto simp: thn_def bnd_def)
qed

section \<open>Properties\<close>


text \<open>The interrupt handler and the scheduler, as one state transformer.\<close>

definition tx_interrupt :: "nat \<Rightarrow> 'z uartst_scheme \<Rightarrow> 'z uartst_scheme" where
  "tx_interrupt i t = t\<lparr>procs := (procs t)(i := (procs t i)\<lparr>pstate := RUNNING\<rparr>),
     uart := (uart t)\<lparr>tx_busy := 0\<rparr>\<rparr>"

lemma tx_interrupt_env: "tx_env i (tx_interrupt i)"
  by (auto simp: tx_env_def tx_interrupt_def resumed_def sched_ready_def own_lock_only_def)

definition zero_uartdev :: uartdev where
  "zero_uartdev = \<lparr>u_ier = 0, u_fcr = 0, u_lcr = 0, u_dll = 0, u_dlm = 0, u_idle = True, u_rx = [],
     tx_busy = 0\<rparr>"

definition zero_slst :: slst where
  "zero_slst = pst.extend zero_pst (slst.fields (\<lambda>_. \<lparr>slocked = False, slname = [], slpid = 0\<rparr>))"

definition zero_uartst :: uartst where
  "zero_uartst = slst.extend zero_slst (uartst.fields zero_uartdev)"


end
