(* ===== verification/Console.thy ===== *)
theory Console
  imports Uart Ring Proc_Life
begin

text \<open>
  kernel/console.c: the console device.  The interrupt handler edits the line being typed and
  hands over whole lines; \<open>consoleread\<close> waits for one, \<open>consolewrite\<close> sends through the UART.
\<close>

section \<open>State\<close>

abbreviation INPUT_BUF_SIZE :: nat where "INPUT_BUF_SIZE \<equiv> 128"

text \<open>The indices: read, write (end of the last line handed over), edit (end of the input).\<close>

record consdev =
  cons_buf :: "nat \<Rightarrow> byte"
  cons_r :: u32
  cons_w :: u32
  cons_e :: u32

text \<open>An entry of the device switch names the functions that stand in it.\<close>

datatype devread = Consoleread
datatype devwrite = Consolewrite

record consst = uartst +
  cons :: consdev
  devsw :: "nat \<Rightarrow> devread option \<times> devwrite option"

lemma cons_frame [simp, frame_simps]:
  "cpuid (cons_update g s) = cpuid s" "mycpu (cons_update g s) = mycpu s"
  "intr_get (cons_update g s) = intr_get s" "is_holding L (cons_update g s) = is_holding L s"
  "lock_free L (cons_update g s) = lock_free L s" "cpu_wf (cons_update g s) = cpu_wf s"
  "plocks_free (cons_update g s) = plocks_free s"
  "other_plocks_free (cons_update g s) = other_plocks_free s"
  "kmem_ready (cons_update g s) = kmem_ready s"
  "touch (cons_update g s) = cons_update g (touch s)"
  "acq L (cons_update g s) = cons_update g (acq L s)" "rel L (cons_update g s) = cons_update g (rel L s)"
  "intr_on (cons_update g s) = cons_update g (intr_on s)"
  "intr_off (cons_update g s) = cons_update g (intr_off s)"
  "set_mycpu k (cons_update g s) = cons_update g (set_mycpu k s)"
  "wakeup_st ch (cons_update g s) = cons_update g (wakeup_st ch s)"
  "kalloc_st (cons_update g s) = cons_update g (kalloc_st s)"
  "kfree_st pa (cons_update g s) = cons_update g (kfree_st pa s)"
  by (simp_all add: base_defs intr_get_def r_sstatus_def intr_on_def intr_off_def w_sstatus_def
      wakeup_st_def kalloc_st_def kfree_st_def plocks_free_def other_plocks_free_def kmem_ready_def)

lemma cons_kept [simp, frame_simps]:
  "cons (touch s) = cons s" "cons (acq L s) = cons s" "cons (rel L s) = cons s" "cons (intr_on s) = cons s"
  "cons (intr_off s) = cons s" "cons (set_mycpu k s) = cons s" "cons (wakeup_st ch s) = cons s"
  "cons (kalloc_st s) = cons s" "cons (kfree_st pa s) = cons s"
  by (simp_all add: base_defs intr_on_def intr_off_def w_sstatus_def wakeup_st_def kalloc_st_def
      kfree_st_def)

lemma cons_slept [simp]: "cons (sleep_st ch lk i s) = cons s" "cons (woke_st lk i ia s) = cons s"
  by (simp_all add: sleep_st_def woke_st_def)

lemma devsw_frame [simp, frame_simps]:
  "cpuid (devsw_update g s) = cpuid s" "mycpu (devsw_update g s) = mycpu s"
  "intr_get (devsw_update g s) = intr_get s" "is_holding L (devsw_update g s) = is_holding L s"
  "lock_free L (devsw_update g s) = lock_free L s" "cpu_wf (devsw_update g s) = cpu_wf s"
  "plocks_free (devsw_update g s) = plocks_free s"
  "other_plocks_free (devsw_update g s) = other_plocks_free s"
  "kmem_ready (devsw_update g s) = kmem_ready s"
  "touch (devsw_update g s) = devsw_update g (touch s)"
  "acq L (devsw_update g s) = devsw_update g (acq L s)" "rel L (devsw_update g s) = devsw_update g (rel L s)"
  "intr_on (devsw_update g s) = devsw_update g (intr_on s)"
  "intr_off (devsw_update g s) = devsw_update g (intr_off s)"
  "set_mycpu k (devsw_update g s) = devsw_update g (set_mycpu k s)"
  "wakeup_st ch (devsw_update g s) = devsw_update g (wakeup_st ch s)"
  "kalloc_st (devsw_update g s) = devsw_update g (kalloc_st s)"
  "kfree_st pa (devsw_update g s) = devsw_update g (kfree_st pa s)"
  by (simp_all add: base_defs intr_get_def r_sstatus_def intr_on_def intr_off_def w_sstatus_def
      wakeup_st_def kalloc_st_def kfree_st_def plocks_free_def other_plocks_free_def kmem_ready_def)

lemma devsw_kept [simp, frame_simps]:
  "devsw (touch s) = devsw s" "devsw (acq L s) = devsw s" "devsw (rel L s) = devsw s" "devsw (intr_on s) = devsw s"
  "devsw (intr_off s) = devsw s" "devsw (set_mycpu k s) = devsw s" "devsw (wakeup_st ch s) = devsw s"
  "devsw (kalloc_st s) = devsw s" "devsw (kfree_st pa s) = devsw s"
  by (simp_all add: base_defs intr_on_def intr_off_def w_sstatus_def wakeup_st_def kalloc_st_def
      kfree_st_def)

lemma devsw_slept [simp]: "devsw (sleep_st ch lk i s) = devsw s" "devsw (woke_st lk i ia s) = devsw s"
  by (simp_all add: sleep_st_def woke_st_def)

definition upd_cons :: "(consdev \<Rightarrow> consdev) \<Rightarrow> ('z consst_scheme, unit) kop" where
  "upd_cons f = upd (\<lambda>s. s\<lparr>cons := f (cons s)\<rparr>)"

lemma upd_cons_app [kop_simps, simp]: "upd_cons f s e = Ret () (s\<lparr>cons := f (cons s)\<rparr>) e"
  by (simp add: upd_cons_def)

section \<open>Operations\<close>

definition consolewrite :: "('z consst_scheme) vm \<Rightarrow> src \<Rightarrow> int \<Rightarrow> ('z consst_scheme, int) kop" where
  "consolewrite V sr n =
     loop (\<lambda>i. nat (n - i)) (\<lambda>i.
       if i < n then
         (let nn = (if 32 > n - i then n - i else 32) in
          bnd (either_copyin V (src_add sr (nat i)) (nat nn)) (\<lambda>(r, buf).
          if r = - 1 then ret (Inr i)
          else thn (uartwrite buf) (ret (Inl (i + nn)))))
       else ret (Inr i)) 0"

text \<open>\<open>C('D')\<close> and the other control characters.\<close>

definition ctrl :: "char \<Rightarrow> int" where "ctrl c = of_char c - of_char CHR ''@''"

text \<open>The wait of \<open>consoleread\<close>: \<open>True\<close> when the process was killed.\<close>

definition cons_wait :: "('z consst_scheme, bool) kop" where
  "cons_wait =
     loop (\<lambda>_. 0) (\<lambda>_.
       bnd (rd (\<lambda>s. cons_r (cons s) = cons_w (cons s))) (\<lambda>empty.
       if empty then
         bnd myproc_ptr (\<lambda>i.
         bnd (killed i) (\<lambda>k.
         if k \<noteq> 0 then ret (Inr True)
         else thn (sleep C_cons L_cons) (ret (Inl ()))))
       else ret (Inr False))) ()"

definition cons_getc :: "('z consst_scheme, byte) kop" where
  "cons_getc =
     bnd (rd (\<lambda>s. cons_buf (cons s) (unat (cons_r (cons s)) mod INPUT_BUF_SIZE))) (\<lambda>c.
     thn (upd_cons (\<lambda>k. k\<lparr>cons_r := cons_r k + 1\<rparr>))
     (ret c))"

text \<open>
  The copying loop: \<open>Some m\<close> when it ends with \<open>m\<close> bytes still wanted, \<open>None\<close> when the process
  was killed while it waited.
\<close>

definition cons_copy :: "('z consst_scheme) vm \<Rightarrow> int \<Rightarrow> dest \<times> int \<Rightarrow>
    ('z consst_scheme, (dest \<times> int) + int option) kop" where
  "cons_copy V target = (\<lambda>(dst, n).
     if n > 0 then
       bnd cons_wait (\<lambda>k.
       if k then ret (Inr None) else
       bnd cons_getc (\<lambda>c.
       if uint c = ctrl CHR ''D'' then
         thn (if n < target then upd_cons (\<lambda>k. k\<lparr>cons_r := cons_r k - 1\<rparr>) else ret ())
         (ret (Inr (Some n)))
       else
         bnd (either_copyout V dst [c]) (\<lambda>r.
         if r = - 1 then ret (Inr (Some n))
         else if c = 10 then ret (Inr (Some (n - 1)))
         else ret (Inl (dest_add dst 1, n - 1)))))
     else ret (Inr (Some n)))"

definition consoleread :: "('z consst_scheme) vm \<Rightarrow> dest \<Rightarrow> int \<Rightarrow> ('z consst_scheme, int) kop" where
  "consoleread V dst n =
     thn (acquire L_cons) (
     bnd (loop (\<lambda>(dst, n). nat n) (cons_copy V n) (dst, n)) (\<lambda>r.
     thn (release L_cons) (
     case r of None \<Rightarrow> ret (- 1) | Some m \<Rightarrow> ret (n - m))))"

text \<open>Kill line: a loop of at most as many rounds as there are characters to erase.\<close>

definition kill_round :: "('z consst_scheme, unit + unit) kop" where
  "kill_round =
     bnd (rd (\<lambda>s. cons_e (cons s) \<noteq> cons_w (cons s) \<and>
        cons_buf (cons s) (unat (cons_e (cons s) - 1) mod INPUT_BUF_SIZE) \<noteq> 10)) (\<lambda>go.
     if go then
       thn (upd_cons (\<lambda>k. k\<lparr>cons_e := cons_e k - 1\<rparr>)) (
       thn (consputc BACKSPACE)
       (ret (Inl ())))
     else ret (Inr ()))"

definition kill_line :: "('z consst_scheme, unit) kop" where
  "kill_line = (\<lambda>s env.
     loop_fuel (Suc (unat (cons_e (cons s) - cons_w (cons s)))) (\<lambda>_. kill_round) () s env)"

definition erase_char :: "('z consst_scheme, unit) kop" where
  "erase_char =
     bnd (rd (\<lambda>s. cons_e (cons s) \<noteq> cons_w (cons s))) (\<lambda>go.
     if go then
       thn (upd_cons (\<lambda>k. k\<lparr>cons_e := cons_e k - 1\<rparr>))
       (consputc BACKSPACE)
     else ret ())"

definition accept_char :: "int \<Rightarrow> ('z consst_scheme, unit) kop" where
  "accept_char c0 =
     bnd (rd (\<lambda>s. c0 \<noteq> 0 \<and> unat (cons_e (cons s) - cons_r (cons s)) < INPUT_BUF_SIZE)) (\<lambda>room.
     if room then
       (let c = (if c0 = 13 then 10 else c0) in
        thn (consputc c) (
        thn (upd_cons (\<lambda>k. k\<lparr>cons_buf := (cons_buf k)(unat (cons_e k) mod INPUT_BUF_SIZE := word_of_int c),
               cons_e := cons_e k + 1\<rparr>)) (
        bnd (rd (\<lambda>s. c = 10 \<or> c = ctrl CHR ''D'' \<or>
               unat (cons_e (cons s) - cons_r (cons s)) = INPUT_BUF_SIZE)) (\<lambda>line.
        if line then
          thn (upd_cons (\<lambda>k. k\<lparr>cons_w := cons_e k\<rparr>))
          (wakeup (Some C_cons))
        else ret ()))))
     else ret ())"

text \<open>The \<open>switch\<close> of \<open>consoleintr\<close>.\<close>

definition console_key :: "int \<Rightarrow> ('z consst_scheme, unit) kop" where
  "console_key c =
     (if c = ctrl CHR ''P'' then procdump
      else if c = ctrl CHR ''U'' then kill_line
      else if c = ctrl CHR ''H'' \<or> c = 127 then erase_char
      else accept_char c)"

definition consoleintr :: "int \<Rightarrow> ('z consst_scheme, unit) kop" where
  "consoleintr c =
     thn (acquire L_cons) (
     thn (console_key c)
     (release L_cons))"

definition consoleinit :: "('z consst_scheme, unit) kop" where
  "consoleinit =
     thn (initlock L_cons ''cons'') (
     thn uartinit
     (upd (\<lambda>s. s\<lparr>devsw := (devsw s)(1 := (Some Consoleread, Some Consolewrite))\<rparr>)))"

text \<open>The receiving half of \<open>uartintr\<close> takes the characters that wait in the device.\<close>

definition uart_rx_round :: "('z consst_scheme, unit + unit) kop" where
  "uart_rx_round =
     bnd uartgetc (\<lambda>c.
     if c = - 1 then ret (Inr ())
     else thn (consoleintr c) (ret (Inl ())))"

definition uartintr :: "('z consst_scheme, unit) kop" where
  "uartintr =
     thn uart_tx_done
     (\<lambda>s env. loop_fuel (Suc (length (u_rx (uart s)))) (\<lambda>_. uart_rx_round) () s env)"

section \<open>The line discipline\<close>

interpretation cons_ring: ring_index INPUT_BUF_SIZE
  by unfold_locales (auto intro: dvdI[of _ _ "2 ^ 25"])

text \<open>
  The specification: the bytes handed over and not yet read, and the line being typed.  One
  input character changes this pair as \<open>line_input\<close> says.
\<close>

definition committed :: "consdev \<Rightarrow> byte list" where
  "committed k = ring_bytes INPUT_BUF_SIZE (cons_buf k) (cons_r k) (cons_w k)"

definition typed :: "consdev \<Rightarrow> byte list" where
  "typed k = ring_bytes INPUT_BUF_SIZE (cons_buf k) (cons_w k) (cons_e k)"

definition cons_inv :: "consdev \<Rightarrow> bool" where
  "cons_inv k \<longleftrightarrow> unat (cons_e k - cons_r k) \<le> INPUT_BUF_SIZE \<and>
     unat (cons_w k - cons_r k) \<le> unat (cons_e k - cons_r k) \<and> 10 \<notin> set (typed k)"

definition line_input :: "int \<Rightarrow> byte list \<times> byte list \<Rightarrow> byte list \<times> byte list" where
  "line_input c = (\<lambda>(com, ed).
     if c = ctrl CHR ''P'' then (com, ed)
     else if c = ctrl CHR ''U'' then (com, [])
     else if c = ctrl CHR ''H'' \<or> c = 127 then (com, butlast ed)
     else if c \<noteq> 0 \<and> length com + length ed < INPUT_BUF_SIZE then
       (let c' = (if c = 13 then 10 else c); ed' = ed @ [word_of_int c'] in
        if c' = 10 \<or> c' = ctrl CHR ''D'' \<or> length com + length ed' = INPUT_BUF_SIZE
        then (com @ ed', []) else (com, ed'))
     else (com, ed))"

lemma ctrl_vals [simp]:
  "ctrl CHR ''D'' = 4" "ctrl CHR ''H'' = 8" "ctrl CHR ''P'' = 16" "ctrl CHR ''U'' = 21"
  by (simp_all add: ctrl_def of_char_def)

lemma cons_lengths:
  assumes "cons_inv k"
  shows "length (committed k) + length (typed k) = unat (cons_e k - cons_r k)"
    "ring_bytes INPUT_BUF_SIZE (cons_buf k) (cons_r k) (cons_e k) = committed k @ typed k"
proof -
  have le: "unat (cons_w k - cons_r k) \<le> unat (cons_e k - cons_r k)"
    using assms by (simp add: cons_inv_def)
  show "length (committed k) + length (typed k) = unat (cons_e k - cons_r k)"
    using cons_ring.diff_split[OF le] le by (simp add: committed_def typed_def)
  show "ring_bytes INPUT_BUF_SIZE (cons_buf k) (cons_r k) (cons_e k) = committed k @ typed k"
    using cons_ring.split[OF le] by (simp add: committed_def typed_def)
qed

lemma typed_empty: "typed k = [] \<longleftrightarrow> cons_e k = cons_w k"
  by (auto simp: typed_def ring_bytes_empty)

text \<open>Erasing the last character typed.\<close>

lemma erase_data:
  assumes "cons_inv k" "cons_e k \<noteq> cons_w k"
  shows "cons_inv (k\<lparr>cons_e := cons_e k - 1\<rparr>)"
    "typed (k\<lparr>cons_e := cons_e k - 1\<rparr>) = butlast (typed k)"
    "committed (k\<lparr>cons_e := cons_e k - 1\<rparr>) = committed k"
    "cons_buf k (unat (cons_e k - 1) mod INPUT_BUF_SIZE) = last (typed k)"
proof -
  let ?k = "k\<lparr>cons_e := cons_e k - 1\<rparr>"
  have t: "typed k = typed ?k @ [cons_buf k (unat (cons_e k - 1) mod INPUT_BUF_SIZE)]"
    using cons_ring.drop_last[of "cons_w k" "cons_e k"] assms(2) by (simp add: typed_def)
  then show tb: "typed ?k = butlast (typed k)"
    "cons_buf k (unat (cons_e k - 1) mod INPUT_BUF_SIZE) = last (typed k)" by simp_all
  show "committed ?k = committed k" by (simp add: committed_def)
  have "unat (cons_e k - cons_r k) \<noteq> 0"
    using cons_lengths(1)[OF assms(1)] t by (metis Nil_is_append_conv add_is_0 length_0_conv list.distinct(1))
  then have "cons_e k - cons_r k \<noteq> 0" by (metis unat_0)
  then have d: "unat (cons_e k - 1 - cons_r k) = unat (cons_e k - cons_r k) - 1"
    by (metis diff_right_commute unat_minus_one)
  have "unat (cons_w k - cons_r k) \<le> unat (cons_e k - cons_r k) - 1"
    using cons_lengths(1)[OF assms(1)] t by (simp add: committed_def)
  then show "cons_inv ?k"
    using assms(1) d tb(1) by (auto simp: cons_inv_def dest: in_set_butlastD)
qed

text \<open>Adding a character; \<open>line\<close> says whether it completes the line.\<close>

lemma accept_data:
  assumes "cons_inv k" "unat (cons_e k - cons_r k) < INPUT_BUF_SIZE"
    and k': "k' = k\<lparr>cons_buf := (cons_buf k)(unat (cons_e k) mod INPUT_BUF_SIZE := b), cons_e := cons_e k + 1\<rparr>"
  shows "typed k' = typed k @ [b]" "committed k' = committed k"
    "unat (cons_e k' - cons_r k') = Suc (unat (cons_e k - cons_r k))"
    "committed (k'\<lparr>cons_w := cons_e k'\<rparr>) = committed k @ typed k @ [b]"
    "typed (k'\<lparr>cons_w := cons_e k'\<rparr>) = []" "cons_inv (k'\<lparr>cons_w := cons_e k'\<rparr>)"
    "b \<noteq> 10 \<Longrightarrow> cons_inv k'"
proof -
  let ?d = "(cons_buf k)(unat (cons_e k) mod INPUT_BUF_SIZE := b)"
  have le: "unat (cons_w k - cons_r k) \<le> unat (cons_e k - cons_r k)"
    using assms(1) by (simp add: cons_inv_def)
  then have lt: "unat (cons_e k - cons_w k) < INPUT_BUF_SIZE"
    using cons_ring.diff_split[OF le] assms(2) by simp
  show t: "typed k' = typed k @ [b]"
    using cons_ring.put[OF lt] by (simp add: typed_def k')
  have all: "ring_bytes INPUT_BUF_SIZE ?d (cons_r k) (cons_e k + 1) = committed k @ typed k @ [b]"
    using cons_ring.put[OF assms(2)] cons_lengths(2)[OF assms(1)] by simp
  have "cons_e k - cons_r k \<noteq> - 1" using unat_less_not_max[OF assms(2)] by simp
  then have "unat (cons_e k - cons_r k + 1) = Suc (unat (cons_e k - cons_r k))" by (rule unat_Suc_u32)
  then show n: "unat (cons_e k' - cons_r k') = Suc (unat (cons_e k - cons_r k))"
    by (simp add: k' algebra_simps)
  have le': "unat (cons_w k' - cons_r k') \<le> unat (cons_e k' - cons_r k')"
    using le n by (simp add: k')
  from cons_ring.split[OF le'] have "committed k' @ typed k' = committed k @ typed k @ [b]"
    using all by (simp add: committed_def typed_def k')
  then show c: "committed k' = committed k" using t by simp
  show "committed (k'\<lparr>cons_w := cons_e k'\<rparr>) = committed k @ typed k @ [b]"
    using all by (simp add: committed_def k')
  show e: "typed (k'\<lparr>cons_w := cons_e k'\<rparr>) = []" by (simp add: typed_def)
  show "cons_inv (k'\<lparr>cons_w := cons_e k'\<rparr>)"
    using assms(1,2) n e by (simp add: cons_inv_def)
  show "b \<noteq> 10 \<Longrightarrow> cons_inv k'"
    using assms(1,2) n le' t by (simp add: cons_inv_def)
qed

section \<open>The interrupt handler refines the line discipline\<close>

text \<open>The console can echo: nothing panics, and no process lock is held by another hart.\<close>

definition echo_ok :: "'z consst_scheme \<Rightarrow> bool" where
  "echo_ok s \<longleftrightarrow> \<not> panicked s \<and> \<not> panicking s \<and> cpu_wf s \<and> noff (mycpu s) \<noteq> 0 \<and>
     lock_free L_pr s \<and> other_plocks_free s"

lemma echo_ok_upd [simp]:
  "echo_ok (s\<lparr>cons := k\<rparr>) = echo_ok s" "echo_ok (s\<lparr>thr := T\<rparr>) = echo_ok s"
  "echo_ok (s\<lparr>procs := P\<rparr>) = echo_ok s"
  by (simp_all add: echo_ok_def other_plocks_free_def)

lemma echo_put [kop_simps]:
  "echo_ok s \<Longrightarrow> uartputc_sync c s e = Ret () (s\<lparr>thr := thr s @ [word_of_int c]\<rparr>) e"
  by (simp add: uartputc_sync_Ret echo_ok_def)

lemma echo_consputc:
  assumes "echo_ok s"
  shows "\<exists>T. consputc c s e = Ret () (s\<lparr>thr := T\<rparr>) e"
  using assms by (auto simp: consputc_def kop_simps)

lemma erase_char_data:
  assumes "echo_ok s" "cons_inv (cons s)"
  shows "\<exists>k T. erase_char s e = Ret () (s\<lparr>cons := k, thr := T\<rparr>) e \<and> cons_inv k \<and>
    committed k = committed (cons s) \<and> typed k = butlast (typed (cons s))"
proof (cases "cons_e (cons s) = cons_w (cons s)")
  case True
  then have "erase_char s e = Ret () (s\<lparr>cons := cons s, thr := thr s\<rparr>) e"
    by (simp add: erase_char_def bnd_def)
  then show ?thesis using assms(2) True
    by (intro exI[of _ "cons s"] exI[of _ "thr s"]) (simp add: typed_empty[THEN iffD2])
next
  case False
  let ?k = "(cons s)\<lparr>cons_e := cons_e (cons s) - 1\<rparr>"
  obtain T where "consputc BACKSPACE (s\<lparr>cons := ?k\<rparr>) e = Ret () (s\<lparr>cons := ?k, thr := T\<rparr>) e"
    using echo_consputc[of "s\<lparr>cons := ?k\<rparr>" BACKSPACE e] assms(1) by auto
  then have "erase_char s e = Ret () (s\<lparr>cons := ?k, thr := T\<rparr>) e"
    using False by (simp add: erase_char_def bnd_def thn_def)
  then show ?thesis using erase_data[OF assms(2) False] by blast
qed

lemma kill_line_loop:
  assumes "echo_ok s" "cons_inv (cons s)" "unat (cons_e (cons s) - cons_w (cons s)) < n"
  shows "\<exists>k T. loop_fuel n (\<lambda>_. kill_round) () s e = Ret () (s\<lparr>cons := k, thr := T\<rparr>) e \<and> cons_inv k \<and>
    committed k = committed (cons s) \<and> typed k = []"
  using assms
proof (induction n arbitrary: s)
  case 0
  then show ?case by simp
next
  case (Suc n)
  show ?case
  proof (cases "cons_e (cons s) = cons_w (cons s)")
    case True
    then have "kill_round s e = Ret (Inr ()) s e" by (simp add: kill_round_def bnd_def)
    then have "loop_fuel (Suc n) (\<lambda>_. kill_round) () s e = Ret () (s\<lparr>cons := cons s, thr := thr s\<rparr>) e"
      by (simp add: bnd_def)
    then show ?thesis using Suc.prems(2) True typed_empty[of "cons s"] by blast
  next
    case False
    let ?k = "(cons s)\<lparr>cons_e := cons_e (cons s) - 1\<rparr>"
    note er = erase_data[OF Suc.prems(2) False]
    have "last (typed (cons s)) \<in> set (typed (cons s))"
      using False typed_empty[of "cons s"] by simp
    then have "last (typed (cons s)) \<noteq> 10" using Suc.prems(2) unfolding cons_inv_def by metis
    obtain T where T: "consputc BACKSPACE (s\<lparr>cons := ?k\<rparr>) e = Ret () (s\<lparr>cons := ?k, thr := T\<rparr>) e"
      using echo_consputc[of "s\<lparr>cons := ?k\<rparr>" BACKSPACE e] Suc.prems(1) by auto
    let ?s = "s\<lparr>cons := ?k, thr := T\<rparr>"
    have "kill_round s e = Ret (Inl ()) ?s e"
      using T False \<open>last (typed (cons s)) \<noteq> 10\<close> er(4) by (simp add: kill_round_def bnd_def thn_def)
    then have step: "loop_fuel (Suc n) (\<lambda>_. kill_round) () s e = loop_fuel n (\<lambda>_. kill_round) () ?s e"
      by (simp add: bnd_def)
    have "0 < length (typed (cons s))" using False typed_empty[of "cons s"] by simp
    then have "length (typed ?k) < n"
      using Suc.prems(3) er(2) by (simp add: typed_def)
    then have "unat (cons_e ?k - cons_w ?k) < n" by (simp add: typed_def)
    then obtain k' T' where "loop_fuel n (\<lambda>_. kill_round) () ?s e = Ret () (?s\<lparr>cons := k', thr := T'\<rparr>) e"
      "cons_inv k'" "committed k' = committed ?k" "typed k' = []"
      using Suc.IH[of ?s] Suc.prems(1) er(1) by auto
    then show ?thesis unfolding step using er(3) by auto
  qed
qed

lemma kill_line_data:
  assumes "echo_ok s" "cons_inv (cons s)"
  shows "\<exists>k T. kill_line s e = Ret () (s\<lparr>cons := k, thr := T\<rparr>) e \<and> cons_inv k \<and>
    committed k = committed (cons s) \<and> typed k = []"
  unfolding kill_line_def using kill_line_loop[OF assms, of "Suc (unat (cons_e (cons s) - cons_w (cons s)))" e]
  by blast

lemma procdump_effect:
  assumes "echo_ok s"
  shows "\<exists>T. procdump s e = Ret () (s\<lparr>thr := T\<rparr>) e"
proof -
  have pr: "\<exists>T. printf fmt args s e = Ret 0 (s\<lparr>thr := T\<rparr>) e"
    if "echo_ok s" "format fmt args = Some out" for s :: "'a consst_scheme" and fmt args out e
    using that by (auto simp: printf_Ret echo_ok_def)
  have nl: "format [CHR 0x0A] [] = Some [CHR 0x0A]" by simp
  have ln: "\<exists>out. format ''%d %s %s'' [VW a, VS (Some b), VS (Some c)] = Some out" for a b c
    by (simp add: fmt_at_def nul_def)
  let ?body = "\<lambda>i. bnd (rd (\<lambda>s. procs s i)) (\<lambda>p. if pstate p = UNUSED then ret ()
       else thn (printf ''%d %s %s'' [VW (word_of_int (pid p)), VS (Some (state_name (pstate p))),
              VS (Some (name_chars (pname p)))]) (thn (printf [CHR 0x0A] []) (ret ()))) :: ('a consst_scheme, unit) kop"
  have one: "\<exists>T. ?body i s e = Ret () (s\<lparr>thr := T\<rparr>) e" if s: "echo_ok s" for s e i
  proof (cases "pstate (procs s i) = UNUSED")
    case True
    then show ?thesis by (intro exI[of _ "thr s"]) (simp add: bnd_def)
  next
    case False
    obtain out where out: "format ''%d %s %s'' [VW (word_of_int (pid (procs s i))),
        VS (Some (state_name (pstate (procs s i)))), VS (Some (name_chars (pname (procs s i))))] = Some out"
      using ln by blast
    obtain T where T: "printf ''%d %s %s'' [VW (word_of_int (pid (procs s i))),
        VS (Some (state_name (pstate (procs s i)))), VS (Some (name_chars (pname (procs s i))))] s e
      = Ret 0 (s\<lparr>thr := T\<rparr>) e" using pr[OF s out] by blast
    obtain T' where "printf [CHR 0x0A] [] (s\<lparr>thr := T\<rparr>) e = Ret 0 (s\<lparr>thr := T\<rparr>\<lparr>thr := T'\<rparr>) e"
      using pr[OF _ nl, of "s\<lparr>thr := T\<rparr>"] s by auto
    then show ?thesis using False T by (intro exI[of _ T']) (simp add: bnd_def thn_def)
  qed
  have all: "\<exists>T. foreach is ?body s e = Ret () (s\<lparr>thr := T\<rparr>) e" if "echo_ok s" for s e "is"
    using that
  proof (induction "is" arbitrary: s)
    case Nil
    then show ?case by (intro exI[of _ "thr s"]) simp
  next
    case (Cons i "is")
    obtain T where T: "?body i s e = Ret () (s\<lparr>thr := T\<rparr>) e" using one[OF Cons.prems] by blast
    obtain T' where "foreach is ?body (s\<lparr>thr := T\<rparr>) e = Ret () (s\<lparr>thr := T\<rparr>\<lparr>thr := T'\<rparr>) e"
      using Cons.IH[of "s\<lparr>thr := T\<rparr>"] Cons.prems unfolding echo_ok_upd by blast
    then show ?case unfolding foreach_Ret[of ?body, OF T] by auto
  qed
  obtain T where T: "printf [CHR 0x0A] [] s e = Ret 0 (s\<lparr>thr := T\<rparr>) e" using pr[OF assms nl] by blast
  obtain T' where "foreach [0..<NPROC] ?body (s\<lparr>thr := T\<rparr>) e = Ret () (s\<lparr>thr := T\<rparr>\<lparr>thr := T'\<rparr>) e"
    using all[of "s\<lparr>thr := T\<rparr>" "[0..<NPROC]" e] assms unfolding echo_ok_upd by blast
  then show ?thesis using T unfolding procdump_def by (simp only: thn_def bnd_def outcome.case) auto
qed

lemma byte_of_int:
  assumes "0 \<le> c" "c < 256"
  shows "(word_of_int c :: byte) = 10 \<longleftrightarrow> c = 10"
proof -
  have "uint (word_of_int c :: byte) = c"
    using assms by (simp add: uint_word_of_int take_bit_int_eq_self)
  then show ?thesis by (auto simp: word_uint_eq_iff)
qed

lemma accept_char_data:
  assumes s: "echo_ok s" and inv: "cons_inv (cons s)" and c: "0 \<le> c" "c < 256"
    and plain: "c \<noteq> 16" "c \<noteq> 21" "c \<noteq> 8" "c \<noteq> 127"
  shows "\<exists>k T P. accept_char c s e = Ret () (s\<lparr>thr := T, cons := k, procs := P\<rparr>) e \<and> cons_inv k \<and>
    (committed k, typed k) = line_input c (committed (cons s), typed (cons s))"
proof (cases "c \<noteq> 0 \<and> unat (cons_e (cons s) - cons_r (cons s)) < INPUT_BUF_SIZE")
  case False
  then have "accept_char c s e = Ret () (s\<lparr>thr := thr s, cons := cons s, procs := procs s\<rparr>) e"
    by (simp only: accept_char_def bnd_def rd_app outcome.case if_False) simp
  moreover have "line_input c (committed (cons s), typed (cons s)) = (committed (cons s), typed (cons s))"
    using False plain unfolding line_input_def prod.case cons_lengths(1)[OF inv]
    by (simp only: ctrl_vals if_False simp_thms)
  ultimately show ?thesis using inv by metis
next
  case True
  define c' where "c' = (if c = 13 then 10 else c)"
  define b :: byte where "b = word_of_int c'"
  define k where "k = (cons s)\<lparr>cons_buf := (cons_buf (cons s))(unat (cons_e (cons s)) mod INPUT_BUF_SIZE := b),
    cons_e := cons_e (cons s) + 1\<rparr>"
  have c': "0 \<le> c'" "c' < 256" using c by (simp_all add: c'_def)
  note ad = accept_data[OF inv _ k_def]
  have room: "unat (cons_e (cons s) - cons_r (cons s)) < INPUT_BUF_SIZE" using True by blast
  note ad = ad[OF room]
  have full: "unat (cons_e k - cons_r k) = length (committed (cons s)) + length (typed (cons s) @ [b])"
    using ad(3) cons_lengths(1)[OF inv] by simp
  obtain T where T: "consputc c' s e = Ret () (s\<lparr>thr := T\<rparr>) e" using echo_consputc[OF s] by blast
  let ?line = "c' = 10 \<or> c' = 4 \<or> unat (cons_e k - cons_r k) = INPUT_BUF_SIZE"
  have spec: "line_input c (committed (cons s), typed (cons s)) =
      (if ?line then (committed (cons s) @ typed (cons s) @ [b], [])
       else (committed (cons s), typed (cons s) @ [b]))"
    using True plain cons_lengths(1)[OF inv] full
    by (simp add: line_input_def c'_def[symmetric] b_def[symmetric] Let_def)
  have run: "accept_char c s e = (if ?line
      then wakeup (Some C_cons) (s\<lparr>thr := T, cons := k\<lparr>cons_w := cons_e k\<rparr>\<rparr>) e
      else Ret () (s\<lparr>thr := T, cons := k\<rparr>) e)"
    using True T by (simp add: accept_char_def bnd_def thn_def c'_def[symmetric] b_def[symmetric] k_def Let_def)
  show ?thesis
  proof (cases ?line)
    case True
    let ?k = "k\<lparr>cons_w := cons_e k\<rparr>" and ?P = "woken (cproc (mycpu s)) (Some C_cons) (procs s)"
    have "accept_char c s e = Ret () (s\<lparr>thr := T, cons := ?k, procs := ?P\<rparr>) e"
    proof -
      have "echo_ok (s\<lparr>thr := T, cons := ?k\<rparr>)" using s by simp
      from this[unfolded echo_ok_def] have "wakeup (Some C_cons) (s\<lparr>thr := T, cons := ?k\<rparr>) e =
          Ret () (s\<lparr>thr := T, cons := ?k, procs := ?P\<rparr>) e"
        by (subst wakeup_nested) simp_all
      then show ?thesis unfolding run using True by (simp only: if_True)
    qed
    moreover have "(committed ?k, typed ?k) = line_input c (committed (cons s), typed (cons s))"
      using True ad(4,5) by (simp only: spec if_True)
    ultimately show ?thesis using ad(6) by blast
  next
    case False
    then have "accept_char c s e = Ret () (s\<lparr>thr := T, cons := k, procs := procs s\<rparr>) e"
      unfolding run by simp
    moreover have "(committed k, typed k) = line_input c (committed (cons s), typed (cons s))"
      using False ad(1,2) by (simp only: spec if_False)
    moreover have "cons_inv k" using ad(7) False byte_of_int[OF c'] by (simp add: b_def)
    ultimately show ?thesis by blast
  qed
qed

lemma console_key_data:
  assumes a: "echo_ok s" "cons_inv (cons s)" and c: "0 \<le> c" "c < 256"
  shows "\<exists>k T P. console_key c s e = Ret () (s\<lparr>thr := T, cons := k, procs := P\<rparr>) e \<and> cons_inv k \<and>
    (committed k, typed k) = line_input c (committed (cons s), typed (cons s))"
proof -
  consider "c = 16" | "c = 21" | "c = 8 \<or> c = 127" | "c \<noteq> 16" "c \<noteq> 21" "c \<noteq> 8" "c \<noteq> 127" by blast
  then show ?thesis
  proof cases
    case 1
    obtain T where "procdump s e = Ret () (s\<lparr>thr := T\<rparr>) e" using procdump_effect[OF a(1)] by blast
    then have "console_key c s e = Ret () (s\<lparr>thr := T, cons := cons s, procs := procs s\<rparr>) e"
      using 1 by (simp add: console_key_def)
    moreover have "line_input c (committed (cons s), typed (cons s)) = (committed (cons s), typed (cons s))"
      using 1 by (simp add: line_input_def)
    ultimately show ?thesis using a(2) by metis
  next
    case 2
    obtain k T where k: "kill_line s e = Ret () (s\<lparr>cons := k, thr := T\<rparr>) e" "cons_inv k"
      "committed k = committed (cons s)" "typed k = []" using kill_line_data[OF a] by blast
    then have "console_key c s e = Ret () (s\<lparr>thr := T, cons := k, procs := procs s\<rparr>) e"
      using 2 by (simp add: console_key_def)
    moreover have "line_input c (committed (cons s), typed (cons s)) = (committed k, typed k)"
      using 2 k by (simp add: line_input_def)
    ultimately show ?thesis using k(2) by metis
  next
    case 3
    obtain k T where k: "erase_char s e = Ret () (s\<lparr>cons := k, thr := T\<rparr>) e" "cons_inv k"
      "committed k = committed (cons s)" "typed k = butlast (typed (cons s))"
      using erase_char_data[OF a] by blast
    have "c \<noteq> 16" "c \<noteq> 21" using 3 by auto
    then have "console_key c s e = Ret () (s\<lparr>thr := T, cons := k, procs := procs s\<rparr>) e"
      using 3 k(1) by (simp add: console_key_def)
    moreover have "line_input c (committed (cons s), typed (cons s)) = (committed k, typed k)"
      using 3 k \<open>c \<noteq> 16\<close> \<open>c \<noteq> 21\<close> by (simp add: line_input_def)
    ultimately show ?thesis using k(2) by metis
  next
    case 4
    then have "console_key c = (accept_char c :: ('a consst_scheme, unit) kop)"
      by (simp add: console_key_def)
    then show ?thesis using accept_char_data[OF a c 4, of e] by (simp only:)
  qed
qed

section \<open>Reading a line\<close>

text \<open>
  What a read of at most \<open>n\<close> bytes takes from the bytes handed over: it ends after a newline, and
  at an end-of-file mark, which it takes only when that is the first byte (\<open>first\<close>).  \<open>None\<close>: it
  has to wait for more.
\<close>

fun line_take :: "bool \<Rightarrow> nat \<Rightarrow> byte list \<Rightarrow> (byte list \<times> byte list) option" where
  "line_take first 0 cs = Some ([], cs)"
| "line_take first (Suc n) [] = None"
| "line_take first (Suc n) (c # cs) =
     (if c = 4 then Some ([], if first then cs else c # cs)
      else if c = 10 then Some ([c], cs)
      else map_option (\<lambda>(l, rest). (c # l, rest)) (line_take False n cs))"

lemma line_take_length: "line_take first n cs = Some (l, rest) \<Longrightarrow> length l \<le> length cs"
  by (induction first n cs arbitrary: l rest rule: line_take.induct) (auto split: if_splits)

lemma take_data:
  assumes "cons_inv k" "cons_r k \<noteq> cons_w k"
  shows "cons_inv (k\<lparr>cons_r := cons_r k + 1\<rparr>)" "typed (k\<lparr>cons_r := cons_r k + 1\<rparr>) = typed k"
    "committed k = cons_buf k (unat (cons_r k) mod INPUT_BUF_SIZE) # committed (k\<lparr>cons_r := cons_r k + 1\<rparr>)"
proof -
  let ?k = "k\<lparr>cons_r := cons_r k + 1\<rparr>"
  show t: "typed ?k = typed k" by (simp add: typed_def)
  show c: "committed k = cons_buf k (unat (cons_r k) mod INPUT_BUF_SIZE) # committed ?k"
    using cons_ring.take_first[OF assms(2)] by (simp add: committed_def)
  have l: "unat (cons_w k - cons_r k) = Suc (unat (cons_w k - (cons_r k + 1)))"
    using arg_cong[OF c, of length] by (simp add: committed_def)
  have "unat (cons_w k - cons_r k) \<le> unat (cons_e k - cons_r k)" using assms(1) by (simp add: cons_inv_def)
  then have "cons_e k - cons_r k \<noteq> 0" using l by (metis Suc_n_not_le_n le_0_eq old.nat.distinct(2) unat_0)
  then have "unat (cons_e k - cons_r k - 1) = unat (cons_e k - cons_r k) - 1" by (rule unat_minus_one)
  then have e: "unat (cons_e k - (cons_r k + 1)) = unat (cons_e k - cons_r k) - 1" by (simp add: diff_diff_eq)
  show "cons_inv ?k" using assms(1) e l t by (simp add: cons_inv_def) linarith
qed

text \<open>The copying loop of \<open>consoleread\<close>, as long as the bytes it wants are there.\<close>

lemma cons_wait_ready: "cons_r (cons s) \<noteq> cons_w (cons s) \<Longrightarrow> cons_wait s e = Ret False s e"
  unfolding cons_wait_def by (rule loop_first) (simp add: bnd_def)

lemma cons_copy_loop:
  assumes V: "vm_copies V U" and s: "kmem_ready s" "noff (mycpu s) \<noteq> 0" "cproc (mycpu s) = Some i"
      "pt = pagetable (procs s i)" "cons_inv (cons s)"
    and l: "line_take (int n = target) n (committed (cons s)) = Some (l, rest)" "int n \<le> target" "n < k"
  shows "\<exists>c M F. loop_fuel k (cons_copy V target) (DUser a, int n) s e =
      Ret (Some (int n - int (length l))) (s\<lparr>mem := M, freelist := F, cons := c\<rparr>) e \<and>
    cons_inv c \<and> committed c = rest \<and> typed c = typed (cons s) \<and>
    U pt M = user_store (U pt (mem s)) a l"
  using s l
proof (induction n arbitrary: s a l k)
  case 0
  then obtain j where k: "k = Suc j" by (cases k) auto
  have "loop_fuel k (cons_copy V target) (DUser a, int 0) s e = Ret (Some (int 0 - int (length l)))
      (s\<lparr>mem := mem s, freelist := freelist s, cons := cons s\<rparr>) e"
    using 0 by (simp add: cons_copy_def k bnd_def)
  then show ?case using 0 by (intro exI conjI) (assumption | simp)+
next
  case (Suc n)
  obtain j where k: "k = Suc j" using Suc.prems by (cases k) auto
  have ne: "cons_r (cons s) \<noteq> cons_w (cons s)"
  proof
    assume "cons_r (cons s) = cons_w (cons s)"
    then have "committed (cons s) = []" by (simp add: committed_def)
    then show False using Suc.prems(6) by simp
  qed
  note td = take_data[OF Suc.prems(5) ne]
  define c where "c = cons_buf (cons s) (unat (cons_r (cons s)) mod INPUT_BUF_SIZE)"
  let ?k = "(cons s)\<lparr>cons_r := cons_r (cons s) + 1\<rparr>"
  have com: "committed (cons s) = c # committed ?k" using td(3) by (simp add: c_def)
  have get: "cons_getc s e = Ret c (s\<lparr>cons := ?k\<rparr>) e" by (simp add: cons_getc_def thn_def bnd_def c_def)
  have uc: "uint c = 4 \<longleftrightarrow> c = 4" by (simp add: word_uint_eq_iff)
  show ?case
  proof (cases "c = 4")
    case True
    then have l: "l = []" "rest = (if int (Suc n) = target then committed ?k else committed (cons s))"
      using Suc.prems(6) com by (simp_all split: if_splits)
    have "cons_copy V target (DUser a, int (Suc n)) s e = Ret (Inr (Some (int (Suc n))))
        (s\<lparr>mem := mem s, freelist := freelist s, cons := if int (Suc n) < target then cons s else ?k\<rparr>) e"
      using True get by (simp add: cons_copy_def bnd_def thn_def cons_wait_ready[OF ne])
    then have "loop_fuel k (cons_copy V target) (DUser a, int (Suc n)) s e = Ret (Some (int (Suc n) - int (length l)))
        (s\<lparr>mem := mem s, freelist := freelist s, cons := if int (Suc n) < target then cons s else ?k\<rparr>) e"
      unfolding k l by (simp add: bnd_def)
    then show ?thesis using td Suc.prems(5,7) unfolding l by (intro exI conjI) (assumption | simp)+
  next
    case no4: False
    obtain M F where out: "either_copyout V (DUser a) [c] (s\<lparr>cons := ?k\<rparr>) e =
        Ret 0 ((s\<lparr>cons := ?k\<rparr>)\<lparr>mem := M, freelist := F\<rparr>) e" "U pt M = user_store (U pt (mem s)) a [c]"
      using either_copyout_user[OF V, of "s\<lparr>cons := ?k\<rparr>" i pt a "[c]" e] Suc.prems(1-4) by auto
    have st: "(s\<lparr>cons := ?k\<rparr>)\<lparr>mem := M, freelist := F\<rparr> = s\<lparr>mem := M, freelist := F, cons := ?k\<rparr>" by simp
    show ?thesis
    proof (cases "c = 10")
      case True
      then have l: "l = [c]" "rest = committed ?k" using Suc.prems(6) com by (simp_all add: no4)
      have "cons_copy V target (DUser a, int (Suc n)) s e = Ret (Inr (Some (int n)))
          (s\<lparr>mem := M, freelist := F, cons := ?k\<rparr>) e"
        using True get out(1) unfolding st by (simp add: cons_copy_def bnd_def thn_def cons_wait_ready[OF ne])
      then show ?thesis using td out(2) unfolding k l by (auto simp: bnd_def)
    next
      case False
      let ?s = "s\<lparr>mem := M, freelist := F, cons := ?k\<rparr>"
      have step: "cons_copy V target (DUser a, int (Suc n)) s e = Ret (Inl (DUser (a + 1), int n)) ?s e"
        using False no4 uc get out(1) unfolding st
        by (simp add: cons_copy_def bnd_def thn_def cons_wait_ready[OF ne])
      obtain l' where l': "l = c # l'" "line_take False n (committed ?k) = Some (l', rest)"
        using Suc.prems(6) com False no4 by auto
      have small: "Suc (length l') < 2 ^ 64"
        using line_take_length[OF l'(2)] td(1) by (auto simp: committed_def cons_inv_def)
      have "int n \<noteq> target" "n < j" using Suc.prems(7,8) k by auto
      then obtain c' M' F' where "loop_fuel j (cons_copy V target) (DUser (a + 1), int n) ?s e =
          Ret (Some (int n - int (length l'))) (?s\<lparr>mem := M', freelist := F', cons := c'\<rparr>) e"
        "cons_inv c'" "committed c' = rest" "typed c' = typed ?k" "U pt M' = user_store (U pt M) (a + 1) l'"
        using Suc.IH[of ?s l' j "a + 1"] Suc.prems(1-4,7) td(1) l'(2) by auto
      then show ?thesis using step td(2) out(2) user_store_Cons[OF small] unfolding k l'(1)
        by (auto simp: bnd_def)
    qed
  qed
qed

section \<open>The handler and its caller\<close>

text \<open>The interrupt finds the console at rest: nothing panics, and the locks it takes are free.\<close>

definition cons_ready :: "'z consst_scheme \<Rightarrow> bool" where
  "cons_ready s \<longleftrightarrow> \<not> panicked s \<and> \<not> panicking s \<and> cpu_wf s \<and> lock_free L_cons s \<and>
     lock_free L_pr s \<and> plocks_free s \<and> cons_inv (cons s)"

definition lines :: "'z consst_scheme \<Rightarrow> byte list \<times> byte list" where
  "lines s = (committed (cons s), typed (cons s))"

lemma consoleintr_step:
  assumes "cons_ready s" "0 \<le> c" "c < 256"
  shows "\<exists>s'. consoleintr c s e = Ret () s' e \<and> cons_ready s' \<and> lines s' = line_input c (lines s) \<and>
    uart s' = uart s \<and> lock_free L_tx s' = lock_free L_tx s"
proof -
  let ?a = "acq L_cons s"
  have s: "\<not> panicked s" "\<not> panicking s" "cpu_wf s" "lock_free L_cons s" "lock_free L_pr s" "plocks_free s"
    "cons_inv (cons s)" using assms(1) by (auto simp: cons_ready_def)
  have a: "echo_ok ?a" "cons_inv (cons ?a)"
    using s by (simp_all add: echo_ok_def plocks_free_other) (simp add: cpu_wf_def)
  obtain k T P where r: "console_key c ?a e = Ret () (?a\<lparr>thr := T, cons := k, procs := P\<rparr>) e" "cons_inv k"
    "(committed k, typed k) = line_input c (committed (cons s), typed (cons s))"
    using console_key_data[OF a assms(2,3), of e] unfolding cons_kept by blast
  let ?s' = "rel L_cons (?a\<lparr>thr := T, cons := k, procs := P\<rparr>)"
  have "consoleintr c s e = Ret () ?s' e"
    using s r(1) by (simp add: consoleintr_def thn_def bnd_def acquire_Ret lock_freeD release_Ret cpu_wf_def[of s])
  moreover have "cons_ready ?s'" "uart ?s' = uart s" "lock_free L_tx ?s' = lock_free L_tx s"
    using s r(2) by (simp_all add: cons_ready_def)
  moreover have "lines ?s' = line_input c (lines s)" using r(3) by (simp add: lines_def)
  ultimately show ?thesis by blast
qed

lemma uart_rx_loop:
  assumes "cons_ready s" "length (u_rx (uart s)) < n"
  shows "\<exists>s'. loop_fuel n (\<lambda>_. uart_rx_round) () s e = Ret () s' e \<and> cons_ready s' \<and>
    u_rx (uart s') = [] \<and> lines s' = fold line_input (map uint (u_rx (uart s))) (lines s)"
  using assms
proof (induction "u_rx (uart s)" arbitrary: s n)
  case Nil
  then obtain j where n: "n = Suc j" by (cases n) auto
  have "uart_rx_round s e = Ret (Inr ()) s e"
    using Nil(1)[symmetric] by (simp add: uart_rx_round_def bnd_def uartgetc_Ret)
  then have "loop_fuel n (\<lambda>_. uart_rx_round) () s e = Ret () s e" by (simp add: n bnd_def)
  then show ?case using Nil by (intro exI[of _ s]) simp
next
  case (Cons b bs)
  obtain j where n: "n = Suc j" using Cons.prems by (cases n) auto
  note rx = Cons.hyps(2)[symmetric]
  let ?s = "s\<lparr>uart := (uart s)\<lparr>u_rx := bs\<rparr>\<rparr>"
  have r: "cons_ready ?s" "lines ?s = lines s" using Cons.prems(1) by (simp_all add: cons_ready_def lines_def)
  have b: "0 \<le> uint b" "uint b < 256" using uint_bounded[of b] by simp_all
  then have minus: "uint b \<noteq> - 1" by linarith
  obtain t where t: "consoleintr (uint b) ?s e = Ret () t e" "cons_ready t"
    "lines t = line_input (uint b) (lines s)" "uart t = (uart s)\<lparr>u_rx := bs\<rparr>"
    using consoleintr_step[OF r(1) b, of e] unfolding r(2) by auto
  have "uart_rx_round s e = Ret (Inl ()) t e"
    using rx t(1) minus by (simp add: uart_rx_round_def bnd_def thn_def uartgetc_Ret)
  then have step: "loop_fuel n (\<lambda>_. uart_rx_round) () s e = loop_fuel j (\<lambda>_. uart_rx_round) () t e"
    by (simp add: n bnd_def)
  have "bs = u_rx (uart t)" "length (u_rx (uart t)) < j" using t(4) Cons.prems(2) rx n by simp_all
  from Cons.hyps(1)[OF this(1) t(2) this(2)] show ?case
    unfolding step using t(3,4) rx by simp
qed

section \<open>Properties\<close>

text \<open>
  C5: for every input character the console interrupt handler returns, with its lock free again,
  and what it does to the buffer is one step of the line discipline: it edits the line being
  typed, never the lines handed over, hands a line over at its end, and drops the character when
  the buffer is full.
\<close>

theorem consoleintr_refines:
  assumes "cons_ready s" "0 \<le> c" "c < 256"
  shows "\<exists>s'. consoleintr c s e = Ret () s' e \<and> cons_ready s' \<and> lines s' = line_input c (lines s)"
  using consoleintr_step[OF assms] by blast

definition zero_consst :: consst where
  "zero_consst = uartst.extend zero_uartst (consst.fields
     \<lparr>cons_buf = (\<lambda>_. 0), cons_r = 0, cons_w = 0, cons_e = 0\<rparr> (\<lambda>_. (None, None)))"

lemma zero_consst_base [simp]:
  "hart zero_consst = 0" "cpus zero_consst = (\<lambda>_. \<lparr>cproc = None, noff = 0, intena = False\<rparr>)"
  "locks zero_consst = (\<lambda>_. \<lparr>locked = False, lname = [], lcpu = None\<rparr>)" "csr zero_consst = (\<lambda>_. zero_csrs)"
  "procs zero_consst = (\<lambda>_. zero_proc)" "panicked zero_consst = False" "panicking zero_consst = False"
  "freelist zero_consst = 0" "thr zero_consst = []" "nextpid zero_consst = 1"
  by (simp_all add: zero_consst_def zero_uartst_def zero_slst_def zero_pst_def consst.defs uartst.defs slst.defs
      pst.defs)

lemma zero_consst_ready: "cons_ready zero_consst" "cons_ready (zero_consst\<lparr>cons := \<lparr>cons_buf = (\<lambda>_. 97), cons_r = 0,
    cons_w = 0, cons_e = 3\<rparr>\<rparr>)"
  by (simp_all add: cons_ready_def zero_consst_def zero_uartst_def zero_slst_def zero_pst_def plocks_free_def
      consst.defs uartst.defs slst.defs pst.defs base_defs cons_inv_def typed_def ring_bytes_def image_iff)

theorem consoleintr_refines_witness:
  "\<exists>s'. consoleintr 13 (zero_consst\<lparr>cons := \<lparr>cons_buf = (\<lambda>_. 97), cons_r = 0, cons_w = 0, cons_e = 3\<rparr>\<rparr>) []
      = Ret () s' [] \<and> lines s' = ([97, 97, 97, 10], [])"
proof -
  let ?s = "zero_consst\<lparr>cons := \<lparr>cons_buf = (\<lambda>_. 97), cons_r = 0, cons_w = 0, cons_e = 3\<rparr>\<rparr>"
  have "line_input 13 (lines ?s) = ([97, 97, 97, 10], [])"
    by (simp add: lines_def line_input_def committed_def typed_def ring_bytes_def upt_rec)
  then show ?thesis using consoleintr_refines[OF zero_consst_ready(2), of 13 "[]"] by auto
qed

text \<open>
  The UART interrupt handler ends, and has then taken every character that waited in the
  device and fed them to the line discipline in the order they came.
\<close>

theorem uartintr_drains:
  assumes "cons_ready s" "lock_free L_tx s"
  shows "\<exists>s'. uartintr s e = Ret () s' e \<and> u_rx (uart s') = [] \<and>
    lines s' = fold line_input (map uint (u_rx (uart s))) (lines s)"
proof -
  let ?t = "tx_done_st s"
  have s: "cpu_wf s" "other_plocks_free s" using assms(1) by (simp_all add: cons_ready_def plocks_free_other)
  have t: "cons_ready ?t" "lines ?t = lines s" "u_rx (uart ?t) = u_rx (uart s)"
    using assms(1) by (simp_all add: cons_ready_def lines_def tx_done_st_def)
  obtain s' where "loop_fuel (Suc (length (u_rx (uart ?t)))) (\<lambda>_. uart_rx_round) () ?t e = Ret () s' e"
    "u_rx (uart s') = []" "lines s' = fold line_input (map uint (u_rx (uart s))) (lines s)"
    using uart_rx_loop[OF t(1) lessI, of e] unfolding t(2,3) by blast
  then show ?thesis
    by (simp only: uartintr_def thn_def bnd_def uart_tx_done_Ret[OF assms(2) s] outcome.case) simp
qed

definition rx_consst :: consst where
  "rx_consst = zero_consst\<lparr>uart := zero_uartdev\<lparr>u_rx := [108, 120, 127, 115, 13]\<rparr>\<rparr>"

lemma rx_consst_ready: "cons_ready rx_consst" "lock_free L_tx rx_consst"
  by (simp_all add: cons_ready_def rx_consst_def zero_consst_def zero_uartst_def zero_slst_def zero_pst_def
      plocks_free_def consst.defs uartst.defs slst.defs pst.defs base_defs cons_inv_def typed_def)

theorem uartintr_drains_witness:
  "\<exists>s'. uartintr rx_consst [] = Ret () s' [] \<and> u_rx (uart s') = [] \<and> lines s' = ([108, 115, 10], [])"
proof -
  have "fold line_input (map uint (u_rx (uart rx_consst))) (lines rx_consst) = ([108, 115, 10], [])"
    by (simp add: rx_consst_def lines_def zero_consst_def consst.defs uartst.defs committed_def typed_def
        line_input_def zero_uartst_def zero_slst_def slst.defs zero_pst_def pst.defs)
  then show ?thesis using uartintr_drains[OF rx_consst_ready, of "[]"] by simp
qed



end
