(* ===== verification/Pipe.thy ===== *)
theory Pipe
  imports Console
begin

text \<open>
  kernel/pipe.c: a ring of bytes between a writer and a reader, each of which sleeps when the
  other has to go first.  (\<open>pipealloc\<close>, which needs the table of open files, is in File.)
\<close>

section \<open>State\<close>

text \<open>A pipe fills a page from the allocator and is named by the page's address.\<close>

abbreviation PIPESIZE :: nat where "PIPESIZE \<equiv> 512"

record pipe =
  pdata :: "nat \<Rightarrow> byte"
  pnread :: u32
  pnwrite :: u32
  preadopen :: int
  pwriteopen :: int

record pipest = consst +
  pipes :: "addr \<Rightarrow> pipe"

lemma pipes_frame [simp, frame_simps]:
  "cpuid (pipes_update g s) = cpuid s" "mycpu (pipes_update g s) = mycpu s"
  "intr_get (pipes_update g s) = intr_get s" "is_holding L (pipes_update g s) = is_holding L s"
  "lock_free L (pipes_update g s) = lock_free L s" "cpu_wf (pipes_update g s) = cpu_wf s"
  "plocks_free (pipes_update g s) = plocks_free s"
  "other_plocks_free (pipes_update g s) = other_plocks_free s"
  "kmem_ready (pipes_update g s) = kmem_ready s"
  "touch (pipes_update g s) = pipes_update g (touch s)"
  "acq L (pipes_update g s) = pipes_update g (acq L s)" "rel L (pipes_update g s) = pipes_update g (rel L s)"
  "intr_on (pipes_update g s) = pipes_update g (intr_on s)"
  "intr_off (pipes_update g s) = pipes_update g (intr_off s)"
  "set_mycpu k (pipes_update g s) = pipes_update g (set_mycpu k s)"
  "wakeup_st ch (pipes_update g s) = pipes_update g (wakeup_st ch s)"
  "kalloc_st (pipes_update g s) = pipes_update g (kalloc_st s)"
  "kfree_st pa (pipes_update g s) = pipes_update g (kfree_st pa s)"
  by (simp_all add: base_defs intr_get_def r_sstatus_def intr_on_def intr_off_def w_sstatus_def
      wakeup_st_def kalloc_st_def kfree_st_def plocks_free_def other_plocks_free_def kmem_ready_def)

lemma pipes_kept [simp, frame_simps]:
  "pipes (touch s) = pipes s" "pipes (acq L s) = pipes s" "pipes (rel L s) = pipes s" "pipes (intr_on s) = pipes s"
  "pipes (intr_off s) = pipes s" "pipes (set_mycpu k s) = pipes s" "pipes (wakeup_st ch s) = pipes s"
  "pipes (kalloc_st s) = pipes s" "pipes (kfree_st pa s) = pipes s"
  by (simp_all add: base_defs intr_on_def intr_off_def w_sstatus_def wakeup_st_def kalloc_st_def
      kfree_st_def)

lemma pipes_slept [simp]: "pipes (sleep_st ch lk i s) = pipes s" "pipes (woke_st lk i ia s) = pipes s"
  by (simp_all add: sleep_st_def woke_st_def)


definition upd_pipe :: "addr \<Rightarrow> (pipe \<Rightarrow> pipe) \<Rightarrow> ('z pipest_scheme, unit) kop" where
  "upd_pipe pi f = upd (\<lambda>s. s\<lparr>pipes := (pipes s)(pi := f (pipes s pi))\<rparr>)"

lemma upd_pipe_app [kop_simps, simp]:
  "upd_pipe pi f s e = Ret () (s\<lparr>pipes := (pipes s)(pi := f (pipes s pi))\<rparr>) e"
  by (simp add: upd_pipe_def)

section \<open>Operations\<close>

definition pipeclose :: "addr \<Rightarrow> int \<Rightarrow> ('z pipest_scheme, unit) kop" where
  "pipeclose pi writable =
     thn (acquire (L_pipe pi)) (
     thn (if writable \<noteq> 0 then
            thn (upd_pipe pi (\<lambda>p. p\<lparr>pwriteopen := 0\<rparr>)) (wakeup (Some (C_pipe_nread pi)))
          else
            thn (upd_pipe pi (\<lambda>p. p\<lparr>preadopen := 0\<rparr>)) (wakeup (Some (C_pipe_nwrite pi)))) (
     bnd (rd (\<lambda>s. preadopen (pipes s pi) = 0 \<and> pwriteopen (pipes s pi) = 0)) (\<lambda>last.
     if last then
       thn (release (L_pipe pi))
       (kfree pi)
     else release (L_pipe pi))))"

text \<open>One round of the writing loop: \<open>None\<close> leaves \<open>pipewrite\<close> with \<open>-1\<close>.\<close>

definition pipe_put :: "('z pipest_scheme) vm \<Rightarrow> addr \<Rightarrow> nat \<Rightarrow> addr \<Rightarrow> int \<Rightarrow> int \<Rightarrow>
    ('z pipest_scheme, int + int option) kop" where
  "pipe_put V pi pr a n i =
     (if i < n then
        bnd (rd (\<lambda>s. preadopen (pipes s pi) = 0)) (\<lambda>closed.
        bnd (if closed then ret True else bnd (killed pr) (\<lambda>k. ret (k \<noteq> 0))) (\<lambda>stop.
        if stop then thn (release (L_pipe pi)) (ret (Inr None)) else
        bnd (rd (\<lambda>s. pnwrite (pipes s pi) = pnread (pipes s pi) + of_nat PIPESIZE)) (\<lambda>full.
        if full then
          thn (wakeup (Some (C_pipe_nread pi))) (
          thn (sleep (C_pipe_nwrite pi) (L_pipe pi))
          (ret (Inl i)))
        else
          bnd (rd (\<lambda>s. pagetable (procs s pr))) (\<lambda>pt.
          bnd (v_copyin V pt (a + word_of_int i) 1) (\<lambda>(r, bs).
          if r = - 1 then ret (Inr (Some i)) else
          thn (upd_pipe pi (\<lambda>p. p\<lparr>pdata := (pdata p)(unat (pnwrite p) mod PIPESIZE := hd bs),
                 pnwrite := pnwrite p + 1\<rparr>))
          (ret (Inl (i + 1))))))))
      else ret (Inr (Some i)))"

definition pipewrite :: "('z pipest_scheme) vm \<Rightarrow> addr \<Rightarrow> addr \<Rightarrow> int \<Rightarrow> ('z pipest_scheme, int) kop" where
  "pipewrite V pi a n =
     bnd myproc_ptr (\<lambda>pr.
     thn (acquire (L_pipe pi)) (
     bnd (loop (\<lambda>i. nat (n - i)) (pipe_put V pi pr a n) 0) (\<lambda>r.
     case r of
       None \<Rightarrow> ret (- 1)
     | Some i \<Rightarrow>
         thn (wakeup (Some (C_pipe_nread pi))) (
         thn (release (L_pipe pi))
         (ret i)))))"

text \<open>Waiting for bytes: \<open>True\<close> when the process was killed.\<close>

definition pipe_wait :: "addr \<Rightarrow> nat \<Rightarrow> ('z pipest_scheme, bool) kop" where
  "pipe_wait pi pr =
     loop (\<lambda>_. 0) (\<lambda>_.
       bnd (rd (\<lambda>s. pnread (pipes s pi) = pnwrite (pipes s pi) \<and> pwriteopen (pipes s pi) \<noteq> 0)) (\<lambda>wait.
       if wait then
         bnd (killed pr) (\<lambda>k.
         if k \<noteq> 0 then thn (release (L_pipe pi)) (ret (Inr True))
         else thn (sleep (C_pipe_nread pi) (L_pipe pi)) (ret (Inl ())))
       else ret (Inr False))) ()"

definition pipe_take :: "('z pipest_scheme) vm \<Rightarrow> addr \<Rightarrow> nat \<Rightarrow> addr \<Rightarrow> int \<Rightarrow> int \<Rightarrow>
    ('z pipest_scheme, int + int) kop" where
  "pipe_take V pi pr a n i =
     (if i < n then
        bnd (rd (\<lambda>s. pnread (pipes s pi) = pnwrite (pipes s pi))) (\<lambda>empty.
        if empty then ret (Inr i) else
        bnd (rd (\<lambda>s. pdata (pipes s pi) (unat (pnread (pipes s pi)) mod PIPESIZE))) (\<lambda>ch.
        thn (upd_pipe pi (\<lambda>p. p\<lparr>pnread := pnread p + 1\<rparr>)) (
        bnd (rd (\<lambda>s. pagetable (procs s pr))) (\<lambda>pt.
        bnd (v_copyout V pt (a + word_of_int i) [ch]) (\<lambda>r.
        if r = - 1 then ret (Inr i) else ret (Inl (i + 1)))))))
      else ret (Inr i))"

definition piperead :: "('z pipest_scheme) vm \<Rightarrow> addr \<Rightarrow> addr \<Rightarrow> int \<Rightarrow> ('z pipest_scheme, int) kop" where
  "piperead V pi a n =
     bnd myproc_ptr (\<lambda>pr.
     thn (acquire (L_pipe pi)) (
     bnd (pipe_wait pi pr) (\<lambda>k.
     if k then ret (- 1) else
     bnd (loop (\<lambda>i. nat (n - i)) (pipe_take V pi pr a n) 0) (\<lambda>i.
     thn (wakeup (Some (C_pipe_nwrite pi))) (
     thn (release (L_pipe pi))
     (ret i))))))"

section \<open>The bytes in a pipe\<close>

interpretation pipe_ring: ring_index PIPESIZE
  by unfold_locales (auto intro: dvdI[of _ _ "2 ^ 23"])

definition pipe_bytes :: "pipe \<Rightarrow> byte list" where
  "pipe_bytes p = ring_bytes PIPESIZE (pdata p) (pnread p) (pnwrite p)"

definition pipe_inv :: "pipe \<Rightarrow> bool" where
  "pipe_inv p \<longleftrightarrow> length (pipe_bytes p) \<le> PIPESIZE"

definition pipe_push :: "byte \<Rightarrow> pipe \<Rightarrow> pipe" where
  "pipe_push b p = p\<lparr>pdata := (pdata p)(unat (pnwrite p) mod PIPESIZE := b), pnwrite := pnwrite p + 1\<rparr>"

lemma pipe_push_bytes:
  assumes "length (pipe_bytes p) < PIPESIZE"
  shows "pipe_bytes (pipe_push b p) = pipe_bytes p @ [b]"
    "preadopen (pipe_push b p) = preadopen p" "pwriteopen (pipe_push b p) = pwriteopen p"
  using pipe_ring.put[of "pnwrite p" "pnread p"] assms by (simp_all add: pipe_bytes_def pipe_push_def)

lemma pipe_full: "pnwrite p = pnread p + 512 \<longleftrightarrow> length (pipe_bytes p) = PIPESIZE"
  using pipe_ring.full_iff[of "pnwrite p" "pnread p"] by (simp add: pipe_bytes_def)

lemma pipe_empty: "pnread p = pnwrite p \<longleftrightarrow> pipe_bytes p = []"
  by (simp add: pipe_bytes_def ring_bytes_empty)

lemma pipe_pop_bytes:
  assumes "pipe_bytes p \<noteq> []"
  shows "pipe_bytes p = pdata p (unat (pnread p) mod PIPESIZE) # pipe_bytes (p\<lparr>pnread := pnread p + 1\<rparr>)"
  using assms pipe_ring.take_first[of "pnread p" "pnwrite p" "pdata p"]
  unfolding pipe_empty[symmetric] by (simp add: pipe_bytes_def)

section \<open>Writing\<close>

text \<open>
  The rest of the machine while the writer \<open>i\<close> sleeps on a full pipe: a reader takes some bytes
  from the front and the writer is run again, not killed, with its memory and the reading end
  as they were.
\<close>

definition pipe_drain :: "(addr \<Rightarrow> mem \<Rightarrow> addr \<Rightarrow> byte) \<Rightarrow> addr \<Rightarrow> nat \<Rightarrow> ('z pipest_scheme \<Rightarrow> 'z pipest_scheme) \<Rightarrow> bool" where
  "pipe_drain U pi i f \<longleftrightarrow> (\<forall>t. sched_ready i t \<and> lock_free (L_pipe pi) t \<longrightarrow>
     resumed i (f t) \<and> other_plocks_free (f t) \<and> lock_free (L_pipe pi) (f t) \<and>
     (lock_free L_kmem t \<longrightarrow> lock_free L_kmem (f t)) \<and>
     pkilled (procs (f t) i) = pkilled (procs t i) \<and> pagetable (procs (f t) i) = pagetable (procs t i) \<and>
     U (pagetable (procs t i)) (mem (f t)) = U (pagetable (procs t i)) (mem t) \<and>
     preadopen (pipes (f t) pi) = preadopen (pipes t pi) \<and>
     (pipe_bytes (pipes t pi) \<noteq> [] \<longrightarrow> (\<exists>j < length (pipe_bytes (pipes t pi)).
        pipe_bytes (pipes (f t) pi) = drop (Suc j) (pipe_bytes (pipes t pi)))))"

lemma under_pipes [simp]: "under lk i (pipes_update g s) = under lk i s"
  by (simp add: under_def sleep_call_def)

text \<open>The writer in the middle of its loop: \<open>k\<close> bytes of \<open>n\<close> written, the reader \<open>m\<close> bytes on.\<close>

definition writing :: "(addr \<Rightarrow> mem \<Rightarrow> addr \<Rightarrow> byte) \<Rightarrow> addr \<Rightarrow> nat \<Rightarrow> addr \<Rightarrow> (addr \<Rightarrow> byte) \<Rightarrow> byte list \<Rightarrow>
    addr \<Rightarrow> nat \<Rightarrow> nat \<Rightarrow> nat \<Rightarrow> 'z pipest_scheme \<Rightarrow> ('z pipest_scheme \<Rightarrow> 'z pipest_scheme) list \<Rightarrow> bool" where
  "writing U pi i pt u old a n k m t e \<longleftrightarrow>
     under (L_pipe pi) i t \<and> lock_free L_kmem t \<and> preadopen (pipes t pi) \<noteq> 0 \<and> pkilled (procs t i) = 0 \<and>
     pagetable (procs t i) = pt \<and> U pt (mem t) = u \<and> pipe_inv (pipes t pi) \<and>
     k \<le> n \<and> m \<le> length old + k \<and> pipe_bytes (pipes t pi) = drop m (old @ user_load u a k) \<and>
     (\<forall>f \<in> set e. pipe_drain U pi i f) \<and>
     n - k \<le> length e + (if length (pipe_bytes (pipes t pi)) = PIPESIZE then 0 else 1)"

lemma pipe_put_writes:
  assumes V: "vm_copies V U" and w: "writing U pi i pt u old a n k m t e" and k: "k < n"
    and room: "length (pipe_bytes (pipes t pi)) \<noteq> PIPESIZE"
  shows "wp (pipe_put V pi i a (int n) (int k)) (\<lambda>r t' e'. r = Inl (int (Suc k)) \<and> e' = e \<and>
    writing U pi i pt u old a n (Suc k) m t' e') t e"
proof -
  let ?b = "u (a + of_nat k)"
  have t: "under (L_pipe pi) i t" "preadopen (pipes t pi) \<noteq> 0" "pkilled (procs t i) = 0"
    "pagetable (procs t i) = pt" "U pt (mem t) = u" "lock_free L_kmem t" "pipe_inv (pipes t pi)"
    using w by (simp_all add: writing_def)
  have c: "kmem_ready t" "noff (mycpu t) \<noteq> 0" using t(1,6) underD[OF t(1)] by (simp_all add: kmem_ready_def)
  obtain M F where copy: "v_copyin V pt (a + of_nat k) 1 t e = Ret (0, [?b]) (t\<lparr>mem := M, freelist := F\<rparr>) e"
    "U pt M = u"
    using vm_copiesD(2)[OF V c, of pt "a + of_nat k" 1 e] unfolding t(5) by (auto simp: user_load_1)
  let ?t = "t\<lparr>mem := M, freelist := F, pipes := (pipes t)(pi := pipe_push ?b (pipes t pi))\<rparr>"
  have run: "pipe_put V pi i a (int n) (int k) t e = Ret (Inl (int (Suc k))) ?t e"
    using k room t(2-4) copy(1) under_killed[OF t(1)]
    by (simp add: pipe_put_def bnd_def thn_def pipe_full pipe_push_def)
  have room': "length (pipe_bytes (pipes t pi)) < PIPESIZE" using room t(7) by (simp add: pipe_inv_def)
  have "writing U pi i pt u old a n (Suc k) m ?t e"
    using w k copy(2) pipe_push_bytes[OF room', of ?b] room'
    by (auto simp: writing_def user_load_snoc pipe_inv_def)
  then show ?thesis using run by (simp add: wp_Ret)
qed

lemma pipe_put_sleeps:
  assumes w: "writing U pi i pt u old a n k m t e" and k: "k < n"
    and full: "length (pipe_bytes (pipes t pi)) = PIPESIZE"
  shows "wp (pipe_put V pi i a (int n) (int k)) (\<lambda>r t' e'. r = Inl (int k) \<and> length e' < length e \<and>
    (\<exists>m'. writing U pi i pt u old a n k m' t' e')) t e"
proof -
  have t: "under (L_pipe pi) i t" "preadopen (pipes t pi) \<noteq> 0" "pkilled (procs t i) = 0"
    "pagetable (procs t i) = pt" "U pt (mem t) = u" "lock_free L_kmem t" "pipe_inv (pipes t pi)"
    "pipe_bytes (pipes t pi) = drop m (old @ user_load u a k)" "m \<le> length old + k"
    using w by (simp_all add: writing_def)
  obtain f fs where e: "e = f # fs" using w k full by (cases e) (auto simp: writing_def)
  define s1 where "s1 = t\<lparr>procs := woken (Some i) (Some (C_pipe_nread pi)) (procs t)\<rparr>"
  have s1: "under (L_pipe pi) i s1" "pipes s1 = pipes t" using t(1) by (simp_all add: s1_def)
  define s2 where "s2 = sleep_st (C_pipe_nwrite pi) (L_pipe pi) i s1"
  have s2: "sched_ready i s2" "lock_free (L_pipe pi) s2" "lock_free L_kmem s2" "pipes s2 = pipes t"
    "pkilled (procs s2 i) = 0" "pagetable (procs s2 i) = pt" "mem s2 = mem t"
    using sleep_st_ready[OF underD(1)[OF s1(1)], of "C_pipe_nwrite pi"] s1 t(3,4,6) underD(7)[OF s1(1)]
    by (auto simp: s2_def sleep_st_def s1_def)
  have drain: "pipe_drain U pi i f" using w by (simp add: writing_def e)
  from drain[unfolded pipe_drain_def, rule_format, of s2] s2 full
  obtain j where f: "resumed i (f s2)" "other_plocks_free (f s2)" "lock_free (L_pipe pi) (f s2)"
    "lock_free L_kmem (f s2)" "pkilled (procs (f s2) i) = 0" "pagetable (procs (f s2) i) = pt"
    "U pt (mem (f s2)) = U pt (mem t)" "preadopen (pipes (f s2) pi) = preadopen (pipes t pi)"
    "j < length (pipe_bytes (pipes t pi))"
    "pipe_bytes (pipes (f s2) pi) = drop (Suc j) (pipe_bytes (pipes t pi))"
    by fastforce
  obtain ia where sl: "sleep (C_pipe_nwrite pi) (L_pipe pi) s1 (f # fs) = Ret () (woke_st (L_pipe pi) i ia (f s2)) fs"
    "under (L_pipe pi) i (woke_st (L_pipe pi) i ia (f s2))"
    using under_sleep[OF s1(1) _ f(1,3,2), of f "C_pipe_nwrite pi" fs] by (auto simp: s2_def)
  let ?t = "woke_st (L_pipe pi) i ia (f s2)"
  have run: "pipe_put V pi i a (int n) (int k) t e = Ret (Inl (int k)) ?t fs"
    using k full t(2,3) under_killed[OF t(1)] under_wakeup[OF t(1)] sl(1)
    by (simp add: pipe_put_def bnd_def thn_def pipe_full e s1_def)
  have "mem ?t = mem (f s2)" "procs ?t = (procs (f s2))(i := (procs (f s2) i)\<lparr>pchan := None\<rparr>)"
    "lock_free L_kmem ?t"
    using woke_st_call(3)[OF f(1,3), of ia] woke_st_call(4)[OF f(1,3), of L_kmem ia] f(4)
    by simp_all
  moreover have d: "pipe_bytes (pipes ?t pi) = drop (m + Suc j) (old @ user_load u a k)"
    unfolding pipes_slept f(10) t(8) drop_drop by (simp only: add.commute)
  moreover have "m + Suc j \<le> length old + k" using f(9) t(9) unfolding t(8) by simp
  moreover have "length (pipe_bytes (pipes ?t pi)) < PIPESIZE"
    using f(9) full by (simp add: f(10))
  moreover have "\<forall>f \<in> set fs. pipe_drain U pi i f" "n - k \<le> Suc (length fs)"
    using w full by (simp_all add: writing_def e)
  ultimately have "writing U pi i pt u old a n k (m + Suc j) ?t fs"
    using f(5-8) sl(2) t(2,5) k unfolding writing_def pipe_inv_def by simp
  then show ?thesis using run by (auto simp: wp_Ret e)
qed

lemma pipe_write_loop:
  fixes t :: "'z pipest_scheme"
  assumes V: "vm_copies V U" and "writing U pi i pt u old a n 0 0 t e"
  shows "wp (loop (\<lambda>x. nat (int n - x)) (pipe_put V pi i a (int n)) 0)
    (\<lambda>r t' e'. r = Some (int n) \<and> (\<exists>m. writing U pi i pt u old a n n m t' e')) t e"
proof (rule wp_loop[where I = "\<lambda>x t e. \<exists>k m. x = int k \<and> writing U pi i pt u old a n k m t e"])
  show "\<exists>k m. 0 = int k \<and> writing U pi i pt u old a n k m t e" using assms(2) by auto
next
  fix x and t :: "'z pipest_scheme" and e
  assume "\<exists>k m. x = int k \<and> writing U pi i pt u old a n k m t e"
  then obtain k m where x: "x = int k" and w: "writing U pi i pt u old a n k m t e" by blast
  have le: "k \<le> n" using w by (simp add: writing_def)
  show "wp (pipe_put V pi i a (int n) x) (\<lambda>r t' e'. case r of
      Inl y \<Rightarrow> (\<exists>k m. y = int k \<and> writing U pi i pt u old a n k m t' e') \<and>
        nat (int n - y) + length e' < nat (int n - x) + length e
    | Inr z \<Rightarrow> z = Some (int n) \<and> (\<exists>m. writing U pi i pt u old a n n m t' e')) t e"
  proof (cases "k < n")
    case False
    then have "k = n" using le by simp
    then have "pipe_put V pi i a (int n) x t e = Ret (Inr (Some (int n))) t e" by (simp add: x pipe_put_def)
    then show ?thesis using w by (auto simp: wp_Ret \<open>k = n\<close>)
  next
    case k: True
    have less: "nat (int n - int (Suc k)) < nat (int n - int k)" using k by simp
    show ?thesis
    proof (cases "length (pipe_bytes (pipes t pi)) = PIPESIZE")
      case True
      show ?thesis unfolding x
        by (rule wp_mono[OF pipe_put_sleeps[OF w k True]]) auto
    next
      case False
      show ?thesis unfolding x
        by (rule wp_mono[OF pipe_put_writes[OF V w k False]]) (auto simp: less k simp del: of_nat_Suc)
    qed
  qed
qed


section \<open>Reading\<close>

text \<open>The reader in the middle of its loop: \<open>k\<close> bytes taken.\<close>

definition reading :: "(addr \<Rightarrow> mem \<Rightarrow> addr \<Rightarrow> byte) \<Rightarrow> addr \<Rightarrow> nat \<Rightarrow> addr \<Rightarrow> (addr \<Rightarrow> byte) \<Rightarrow> byte list \<Rightarrow>
    addr \<Rightarrow> nat \<Rightarrow> nat \<Rightarrow> 'z pipest_scheme \<Rightarrow> bool" where
  "reading U pi i pt u old a n k t \<longleftrightarrow>
     under (L_pipe pi) i t \<and> lock_free L_kmem t \<and> pagetable (procs t i) = pt \<and> k \<le> n \<and>
     k \<le> length old \<and> length old \<le> PIPESIZE \<and> pipe_bytes (pipes t pi) = drop k old \<and>
     U pt (mem t) = user_store u a (take k old)"

lemma pipe_take_reads:
  assumes V: "vm_copies V U" and r: "reading U pi i pt u old a n k t" and k: "k < n" "k < length old"
  shows "wp (pipe_take V pi i a (int n) (int k)) (\<lambda>x t' e'. x = Inl (int (Suc k)) \<and> e' = e \<and>
    reading U pi i pt u old a n (Suc k) t') t e"
proof -
  have t: "under (L_pipe pi) i t" "lock_free L_kmem t" "pagetable (procs t i) = pt"
    "pipe_bytes (pipes t pi) = drop k old" "U pt (mem t) = user_store u a (take k old)" "length old \<le> PIPESIZE"
    using r by (simp_all add: reading_def)
  have ne: "pipe_bytes (pipes t pi) \<noteq> []" "pnread (pipes t pi) \<noteq> pnwrite (pipes t pi)"
    using t(4) k by (simp_all add: pipe_empty)
  let ?p = "(pipes t pi)\<lparr>pnread := pnread (pipes t pi) + 1\<rparr>"
  have b: "pdata (pipes t pi) (unat (pnread (pipes t pi)) mod PIPESIZE) = old ! k" "pipe_bytes ?p = drop (Suc k) old"
    using pipe_pop_bytes[OF ne(1)] t(4) Cons_nth_drop_Suc[OF k(2)] by simp_all
  let ?t1 = "t\<lparr>pipes := (pipes t)(pi := ?p)\<rparr>"
  have c: "kmem_ready ?t1" "noff (mycpu ?t1) \<noteq> 0" using t(2) underD[OF t(1)] by (simp_all add: kmem_ready_def)
  obtain M F where out: "v_copyout V pt (a + of_nat k) [old ! k] ?t1 e = Ret 0 (?t1\<lparr>mem := M, freelist := F\<rparr>) e"
    "U pt M = user_store (user_store u a (take k old)) (a + of_nat k) [old ! k]"
    using vm_copiesD(1)[OF V c, of pt "a + of_nat k" "[old ! k]" e] t(5) by auto
  have "length (take k old) < 2 ^ 64" using t(6) by simp
  from user_store_snoc[OF this, of u a "old ! k"] k(2)
  have st: "U pt M = user_store u a (take (Suc k) old)" by (simp add: out(2) take_Suc_conv_app_nth)
  have run: "pipe_take V pi i a (int n) (int k) t e = Ret (Inl (int (Suc k))) (?t1\<lparr>mem := M, freelist := F\<rparr>) e"
    using k(1) ne(2) b(1) t(3) out(1) by (simp add: pipe_take_def bnd_def thn_def)
  have "reading U pi i pt u old a n (Suc k) (?t1\<lparr>mem := M, freelist := F\<rparr>)"
    using r k b(2) st by (simp add: reading_def)
  then show ?thesis using run by (simp add: wp_Ret)
qed

lemma pipe_take_stops:
  assumes "reading U pi i pt u old a n k t" "k = n \<or> k = length old"
  shows "pipe_take V pi i a (int n) (int k) t e = Ret (Inr (int (min n (length old)))) t e"
proof (cases "k < n")
  case True
  then have "pipe_bytes (pipes t pi) = []" using assms by (auto simp: reading_def)
  then have "pnread (pipes t pi) = pnwrite (pipes t pi)" by (simp add: pipe_empty)
  then show ?thesis using True assms(2) by (simp add: pipe_take_def bnd_def)
next
  case False
  then show ?thesis using assms by (auto simp: pipe_take_def reading_def)
qed

lemma pipe_read_loop:
  fixes t :: "'z pipest_scheme"
  assumes V: "vm_copies V U" and "reading U pi i pt u old a n 0 t"
  shows "wp (loop (\<lambda>x. nat (int n - x)) (pipe_take V pi i a (int n)) 0) (\<lambda>x t' e'.
    x = int (min n (length old)) \<and> e' = e \<and> reading U pi i pt u old a n (min n (length old)) t') t e"
proof (rule wp_loop[where I = "\<lambda>x t e'. \<exists>k. x = int k \<and> e' = e \<and> reading U pi i pt u old a n k t"])
  show "\<exists>k. 0 = int k \<and> e = e \<and> reading U pi i pt u old a n k t" using assms(2) by auto
next
  fix x and t :: "'z pipest_scheme" and e'
  assume "\<exists>k. x = int k \<and> e' = e \<and> reading U pi i pt u old a n k t"
  then obtain k where x: "x = int k" "e' = e" and r: "reading U pi i pt u old a n k t" by blast
  show "wp (pipe_take V pi i a (int n) x) (\<lambda>r t' e''. case r of
      Inl y \<Rightarrow> (\<exists>k. y = int k \<and> e'' = e \<and> reading U pi i pt u old a n k t') \<and>
        nat (int n - y) + length e'' < nat (int n - x) + length e'
    | Inr z \<Rightarrow> z = int (min n (length old)) \<and> e'' = e \<and> reading U pi i pt u old a n (min n (length old)) t') t e'"
  proof (cases "k < n \<and> k < length old")
    case True
    then have k: "k < n" "k < length old" by auto
    have less: "nat (int n - int (Suc k)) < nat (int n - int k)" using k by simp
    show ?thesis unfolding x
      by (rule wp_mono[OF pipe_take_reads[OF V r k]]) (auto simp: less k simp del: of_nat_Suc)
  next
    case False
    then have "k = n \<or> k = length old" "min n (length old) = k" using r by (auto simp: reading_def)
    then show ?thesis using r pipe_take_stops[OF r, of V e'] by (simp add: x wp_Ret)
  qed
qed

lemma pipe_wait_ready:
  assumes "pipe_bytes (pipes s pi) \<noteq> [] \<or> pwriteopen (pipes s pi) = 0"
  shows "pipe_wait pi pr s e = Ret False s e"
  unfolding pipe_wait_def
  by (rule loop_first) (use assms in \<open>auto simp: bnd_def pipe_empty\<close>)


section \<open>Errors\<close>

text \<open>
  A write to a pipe that has no reader left, or by a killed process, fails with -1 before the
  first byte, and leaves every pipe as it was and the lock free.
\<close>

theorem pipewrite_refused:
  assumes "running i s" "lock_free (L_pipe pi) s" "0 < n"
    "preadopen (pipes s pi) = 0 \<or> pkilled (procs s i) \<noteq> 0"
  shows "\<exists>s'. pipewrite V pi a n s e = Ret (- 1) s' e \<and> pipes s' = pipes s \<and> procs s' = procs s \<and>
    mem s' = mem s \<and> lock_free (L_pipe pi) s'"
proof -
  note r = runningD[OF assms(1)]
  let ?a = "acq (L_pipe pi) s"
  have u: "under (L_pipe pi) i ?a" using under_acq[OF assms(1,2)] by simp
  have "pipe_put V pi i a n 0 ?a e = Ret (Inr None) (rel (L_pipe pi) ?a) e"
    using assms(3,4) under_killed[OF u] under_release[OF u] by (auto simp: pipe_put_def bnd_def thn_def)
  then have "loop (\<lambda>i. nat (n - i)) (pipe_put V pi i a n) 0 ?a e = Ret None (rel (L_pipe pi) ?a) e"
    by (rule loop_first)
  then have "pipewrite V pi a n s e = Ret (- 1) (rel (L_pipe pi) ?a) e"
    using r assms(2) by (simp add: pipewrite_def bnd_def thn_def myproc_ptr_Ret acquire_Ret lock_freeD)
  then show ?thesis using assms(2) by auto
qed

text \<open>
  C40: when the user's buffer cannot be written, a read of a pipe that holds bytes returns 0, as at
  the end of the file, and the first byte is gone from the pipe.
\<close>

theorem piperead_loses_byte:
  assumes "running i s" "lock_free (L_pipe pi) s" "0 < n" "pipe_bytes (pipes s pi) = b # bs"
    and "\<And>t. v_copyout V (pagetable (procs s i)) a [b] t e = Ret (- 1) t e"
  shows "\<exists>s'. piperead V pi a n s e = Ret 0 s' e \<and> pipe_bytes (pipes s' pi) = bs"
proof -
  note r = runningD[OF assms(1)]
  let ?a = "acq (L_pipe pi) s"
  let ?p = "(pipes s pi)\<lparr>pnread := pnread (pipes s pi) + 1\<rparr>"
  let ?t = "?a\<lparr>pipes := (pipes s)(pi := ?p)\<rparr>"
  have ne: "pipe_bytes (pipes s pi) \<noteq> []" using assms(4) by simp
  note pop = pipe_pop_bytes[OF ne, unfolded assms(4)]
  have u: "under (L_pipe pi) i ?t" using under_acq[OF assms(1,2)] by simp
  let ?t' = "?t\<lparr>procs := woken (Some i) (Some (C_pipe_nwrite pi)) (procs ?t)\<rparr>"
  have u': "under (L_pipe pi) i ?t'" using u by simp
  have "pnread (pipes s pi) \<noteq> pnwrite (pipes s pi)" using ne by (simp add: pipe_empty)
  then have "pipe_take V pi i a n 0 ?a e = Ret (Inr 0) ?t e"
    using assms(3,5) pop by (simp add: pipe_take_def bnd_def thn_def)
  then have "loop (\<lambda>i. nat (n - i)) (pipe_take V pi i a n) 0 ?a e = Ret 0 ?t e"
    by (rule loop_first)
  moreover have "pipe_wait pi i ?a e = Ret False ?a e" using ne by (intro pipe_wait_ready) simp
  ultimately have "piperead V pi a n s e = Ret 0 (rel (L_pipe pi) ?t') e"
    using r assms(2) under_wakeup[OF u] under_release[OF u']
    by (simp add: piperead_def bnd_def thn_def myproc_ptr_Ret acquire_Ret lock_freeD)
  then show ?thesis using pop by (intro exI[of _ "rel (L_pipe pi) ?t'"]) simp
qed

section \<open>Examples\<close>

definition zero_pipe :: pipe where
  "zero_pipe = \<lparr>pdata = (\<lambda>_. 0), pnread = 0, pnwrite = 0, preadopen = 1, pwriteopen = 1\<rparr>"

definition zero_pipest :: pipest where
  "zero_pipest = \<lparr>hart = 0, csr = (\<lambda>_. zero_csrs),
     cpus = (\<lambda>_. \<lparr>cproc = None, noff = 0, intena = False\<rparr>),
     locks = (\<lambda>_. \<lparr>locked = False, lname = [], lcpu = None\<rparr>),
     thr = [], panicking = False, panicked = False, mem = (\<lambda>_. 0), freelist = 0, kend = KERNBASE,
     procs = (\<lambda>_. zero_proc), initproc = None, nextpid = 1, ticks = 0,
     tframes = (\<lambda>_. zero_trapframe), syms = (\<lambda>_. 0),
     slocks = (\<lambda>_. \<lparr>slocked = False, slname = [], slpid = 0\<rparr>), uart = zero_uartdev,
     cons = \<lparr>cons_buf = (\<lambda>_. 0), cons_r = 0, cons_w = 0, cons_e = 0\<rparr>, devsw = (\<lambda>_. (None, None)),
     pipes = (\<lambda>_. zero_pipe)\<rparr>"

text \<open>A pipe that holds \<open>bs\<close>, and a machine at rest where process 2 runs and every pipe is that one.\<close>

definition holding_pipe :: "byte list \<Rightarrow> pipe" where
  "holding_pipe bs = zero_pipe\<lparr>pdata := (\<lambda>i. bs ! i), pnwrite := of_nat (length bs)\<rparr>"

lemma holding_pipe_bytes [simp]:
  assumes "length bs < 512"
  shows "pipe_bytes (holding_pipe bs) = bs"
proof -
  have "unat (of_nat (length bs) :: u32) = length bs"
    using assms by (simp only: unsigned_of_nat) (simp add: take_bit_nat_eq_self)
  then have l: "length (pipe_bytes (holding_pipe bs)) = length bs"
    by (simp add: holding_pipe_def zero_pipe_def pipe_bytes_def)
  show ?thesis
  proof (rule nth_equalityI[OF l])
    fix i
    assume "i < length (pipe_bytes (holding_pipe bs))"
    then have i: "i < length bs" "i < 512" using l assms by simp_all
    then show "pipe_bytes (holding_pipe bs) ! i = bs ! i"
      using l by (simp add: holding_pipe_def zero_pipe_def pipe_bytes_def ring_bytes_def)
  qed
qed

lemma holding_pipe_open [simp]: "preadopen (holding_pipe bs) = 1"
  by (simp add: holding_pipe_def zero_pipe_def)

definition pipe_example :: "pipe \<Rightarrow> pipest" where
  "pipe_example p = set_mycpu (\<lambda>c. c\<lparr>cproc := Some 2\<rparr>) (zero_pipest\<lparr>pipes := (\<lambda>_. p)\<rparr>)"

lemma zero_pipest_base [simp]:
  "hart zero_pipest = 0" "cpus zero_pipest = (\<lambda>_. \<lparr>cproc = None, noff = 0, intena = False\<rparr>)"
  "locks zero_pipest = (\<lambda>_. \<lparr>locked = False, lname = [], lcpu = None\<rparr>)" "csr zero_pipest = (\<lambda>_. zero_csrs)"
  "procs zero_pipest = (\<lambda>_. zero_proc)" "panicked zero_pipest = False" "panicking zero_pipest = False"
  "freelist zero_pipest = 0" "thr zero_pipest = []" "nextpid zero_pipest = 1"
  by (simp_all add: zero_pipest_def)

lemma zero_pipest_simps:
  "noff (mycpu zero_pipest) = 0" "lock_free L zero_pipest"
  by (simp_all add: base_defs)

lemma procs_set_mycpu: "procs (set_mycpu f s) = procs s"
  by (simp add: set_mycpu_def)

lemma pipe_example_lock [simp]: "lock_free L (pipe_example p)"
  by (simp add: pipe_example_def zero_pipest_simps)

lemma pipe_example_running [simp]: "running 2 (pipe_example p)"
  unfolding running_def plocks_free_def
  by (simp add: pipe_example_lock) (simp add: pipe_example_def zero_pipest_simps)

lemma pipe_example_data [simp]: "procs (pipe_example p) = (\<lambda>_. zero_proc)" "pipes (pipe_example p) = (\<lambda>_. p)"
  by (simp_all add: pipe_example_def procs_set_mycpu)

text \<open>A reader that takes one byte, on another hart; the process locks are free afterwards.\<close>

definition read_one :: "addr \<Rightarrow> nat \<Rightarrow> 'z pipest_scheme \<Rightarrow> 'z pipest_scheme" where
  "read_one pi i t = t\<lparr>locks := (\<lambda>L. case L of L_proc j \<Rightarrow>
       if j = i then locks t L else \<lparr>locked = False, lname = [], lcpu = None\<rparr> | _ \<Rightarrow> locks t L),
     procs := (procs t)(i := (procs t i)\<lparr>pstate := RUNNING\<rparr>),
     pipes := (pipes t)(pi := (pipes t pi)\<lparr>pnread := pnread (pipes t pi) + 1\<rparr>)\<rparr>"

lemma read_one_drains: "pipe_drain U pi i (read_one pi i)"
proof -
  have "\<exists>j < length (pipe_bytes p). pipe_bytes (p\<lparr>pnread := pnread p + 1\<rparr>) = drop (Suc j) (pipe_bytes p)"
    if "pipe_bytes p \<noteq> []" for p
    using pipe_pop_bytes[OF that] by (intro exI[of _ 0]) (metis drop0 drop_Suc_Cons length_greater_0_conv that)
  then show ?thesis
    by (auto simp: pipe_drain_def read_one_def resumed_def sched_ready_def own_lock_only_def
        other_plocks_free_def base_defs intr_get_def r_sstatus_def)
qed



theorem pipewrite_refused_witness:
  "\<exists>s'. pipewrite simple_vm 0x87000000 4096 2 (pipe_example (zero_pipe\<lparr>preadopen := 0\<rparr>)) [] = Ret (- 1) s' []"
  using pipewrite_refused[OF pipe_example_running pipe_example_lock,
      of 2 "zero_pipe\<lparr>preadopen := 0\<rparr>" "0x87000000" simple_vm 4096 "[]"]
  by auto

text \<open>An address space of which nothing can be written.\<close>

definition readonly_vm :: "('z pst_scheme) vm" where
  "readonly_vm = simple_vm\<lparr>v_copyout := (\<lambda>_ _ _. ret (- 1))\<rparr>"

lemma readonly_vm_copyout: "v_copyout readonly_vm pt a bs t e = Ret (- 1) t e"
  by (simp add: readonly_vm_def)

theorem piperead_loses_byte_witness:
  "\<exists>s'. piperead readonly_vm 0x87000000 4096 3 (pipe_example (holding_pipe [104, 105, 33])) [] = Ret 0 s' [] \<and>
    pipe_bytes (pipes s' 0x87000000) = [105, 33]"
  by (rule piperead_loses_byte[OF pipe_example_running pipe_example_lock])
     (simp_all add: readonly_vm_copyout)

end
