(* ===== verification/Virtio.thy ===== *)
theory Virtio
  imports Pipe
begin

unbundle bit_operations_syntax

text \<open>
  kernel/virtio_disk.c, with the structures of kernel/virtio.h and kernel/buf.h: the driver of the
  disk.  A request is a chain of three descriptors; the caller sleeps until the interrupt handler
  says that the device is done with it.
\<close>

section \<open>State\<close>

abbreviation BSIZE :: nat where "BSIZE \<equiv> 1024"
abbreviation NUM :: nat where "NUM \<equiv> 8"

text \<open>What a descriptor points at: a command header, the data of a buffer, or a status byte.\<close>

datatype dma = D_null | D_op nat | D_data nat | D_status nat

record virtq_desc =
  d_addr :: dma
  d_len :: u32
  d_flags :: u16
  d_next :: u16

record virtio_blk_req =
  r_type :: u32
  r_reserved :: u32
  r_sector :: addr

definition VRING_DESC_F_NEXT :: u16 where "VRING_DESC_F_NEXT = 1"
definition VRING_DESC_F_WRITE :: u16 where "VRING_DESC_F_WRITE = 2"
definition VIRTIO_BLK_T_IN :: u32 where "VIRTIO_BLK_T_IN = 0"
definition VIRTIO_BLK_T_OUT :: u32 where "VIRTIO_BLK_T_OUT = 1"

text \<open>
  The descriptor table and the two rings lie in pages shared with the device; they are fields
  here, as are the registers of the device, by their offset.
\<close>

record vdisk =
  desc :: "nat \<Rightarrow> virtq_desc"
  avail_idx :: u16
  avail_ring :: "nat \<Rightarrow> u16"
  usedq_idx :: u16
  usedq_id :: "nat \<Rightarrow> u32"
  vfree :: "nat \<Rightarrow> bool"
  used_idx :: u16
  info_b :: "nat \<Rightarrow> nat option"
  info_status :: "nat \<Rightarrow> byte"
  dops :: "nat \<Rightarrow> virtio_blk_req"
  vmmio :: "nat \<Rightarrow> u32"

text \<open>Buffers are named by their index; \<open>bprev\<close> and \<open>bnext\<close> link them, with \<open>NBUF\<close> for the head.\<close>

record buf =
  bvalid :: int
  bdisk :: int
  bdev :: u32
  blockno :: u32
  refcnt :: u32
  bprev :: nat
  bnext :: nat
  bdata :: "byte list"

text \<open>\<open>img\<close> is what is on the disk, byte by byte.\<close>

record bufst = pipest +
  bufs :: "nat \<Rightarrow> buf"
  vd :: vdisk
  img :: "nat \<Rightarrow> byte"

lemma bufs_frame [simp, frame_simps]:
  "cpuid (bufs_update g s) = cpuid s" "mycpu (bufs_update g s) = mycpu s"
  "intr_get (bufs_update g s) = intr_get s" "is_holding L (bufs_update g s) = is_holding L s"
  "lock_free L (bufs_update g s) = lock_free L s" "cpu_wf (bufs_update g s) = cpu_wf s"
  "plocks_free (bufs_update g s) = plocks_free s"
  "other_plocks_free (bufs_update g s) = other_plocks_free s"
  "kmem_ready (bufs_update g s) = kmem_ready s"
  "touch (bufs_update g s) = bufs_update g (touch s)"
  "acq L (bufs_update g s) = bufs_update g (acq L s)" "rel L (bufs_update g s) = bufs_update g (rel L s)"
  "intr_on (bufs_update g s) = bufs_update g (intr_on s)"
  "intr_off (bufs_update g s) = bufs_update g (intr_off s)"
  "set_mycpu k (bufs_update g s) = bufs_update g (set_mycpu k s)"
  "wakeup_st ch (bufs_update g s) = bufs_update g (wakeup_st ch s)"
  "kalloc_st (bufs_update g s) = bufs_update g (kalloc_st s)"
  "kfree_st pa (bufs_update g s) = bufs_update g (kfree_st pa s)"
  by (simp_all add: base_defs intr_get_def r_sstatus_def intr_on_def intr_off_def w_sstatus_def
      wakeup_st_def kalloc_st_def kfree_st_def plocks_free_def other_plocks_free_def kmem_ready_def)

lemma bufs_kept [simp, frame_simps]:
  "bufs (touch s) = bufs s" "bufs (acq L s) = bufs s" "bufs (rel L s) = bufs s" "bufs (intr_on s) = bufs s"
  "bufs (intr_off s) = bufs s" "bufs (set_mycpu k s) = bufs s" "bufs (wakeup_st ch s) = bufs s"
  "bufs (kalloc_st s) = bufs s" "bufs (kfree_st pa s) = bufs s"
  by (simp_all add: base_defs intr_on_def intr_off_def w_sstatus_def wakeup_st_def kalloc_st_def
      kfree_st_def)

lemma bufs_slept [simp]: "bufs (sleep_st ch lk i s) = bufs s" "bufs (woke_st lk i ia s) = bufs s"
  by (simp_all add: sleep_st_def woke_st_def)

lemma bufs_calm [simp]:
  "running i (bufs_update g s) = running i s" "under lk i (bufs_update g s) = under lk i s"
  "calm (bufs_update g s) t = calm s t" "calm s (bufs_update g t) = calm s t"
  by (simp_all add: running_def under_def sleep_call_def calm_def)


lemma vd_frame [simp, frame_simps]:
  "cpuid (vd_update g s) = cpuid s" "mycpu (vd_update g s) = mycpu s"
  "intr_get (vd_update g s) = intr_get s" "is_holding L (vd_update g s) = is_holding L s"
  "lock_free L (vd_update g s) = lock_free L s" "cpu_wf (vd_update g s) = cpu_wf s"
  "plocks_free (vd_update g s) = plocks_free s"
  "other_plocks_free (vd_update g s) = other_plocks_free s"
  "kmem_ready (vd_update g s) = kmem_ready s"
  "touch (vd_update g s) = vd_update g (touch s)"
  "acq L (vd_update g s) = vd_update g (acq L s)" "rel L (vd_update g s) = vd_update g (rel L s)"
  "intr_on (vd_update g s) = vd_update g (intr_on s)"
  "intr_off (vd_update g s) = vd_update g (intr_off s)"
  "set_mycpu k (vd_update g s) = vd_update g (set_mycpu k s)"
  "wakeup_st ch (vd_update g s) = vd_update g (wakeup_st ch s)"
  "kalloc_st (vd_update g s) = vd_update g (kalloc_st s)"
  "kfree_st pa (vd_update g s) = vd_update g (kfree_st pa s)"
  by (simp_all add: base_defs intr_get_def r_sstatus_def intr_on_def intr_off_def w_sstatus_def
      wakeup_st_def kalloc_st_def kfree_st_def plocks_free_def other_plocks_free_def kmem_ready_def)

lemma vd_kept [simp, frame_simps]:
  "vd (touch s) = vd s" "vd (acq L s) = vd s" "vd (rel L s) = vd s" "vd (intr_on s) = vd s"
  "vd (intr_off s) = vd s" "vd (set_mycpu k s) = vd s" "vd (wakeup_st ch s) = vd s"
  "vd (kalloc_st s) = vd s" "vd (kfree_st pa s) = vd s"
  by (simp_all add: base_defs intr_on_def intr_off_def w_sstatus_def wakeup_st_def kalloc_st_def
      kfree_st_def)

lemma vd_slept [simp]: "vd (sleep_st ch lk i s) = vd s" "vd (woke_st lk i ia s) = vd s"
  by (simp_all add: sleep_st_def woke_st_def)

lemma vd_calm [simp]:
  "running i (vd_update g s) = running i s" "under lk i (vd_update g s) = under lk i s"
  "calm (vd_update g s) t = calm s t" "calm s (vd_update g t) = calm s t"
  by (simp_all add: running_def under_def sleep_call_def calm_def)


lemma img_frame [simp, frame_simps]:
  "cpuid (img_update g s) = cpuid s" "mycpu (img_update g s) = mycpu s"
  "intr_get (img_update g s) = intr_get s" "is_holding L (img_update g s) = is_holding L s"
  "lock_free L (img_update g s) = lock_free L s" "cpu_wf (img_update g s) = cpu_wf s"
  "plocks_free (img_update g s) = plocks_free s"
  "other_plocks_free (img_update g s) = other_plocks_free s"
  "kmem_ready (img_update g s) = kmem_ready s"
  "touch (img_update g s) = img_update g (touch s)"
  "acq L (img_update g s) = img_update g (acq L s)" "rel L (img_update g s) = img_update g (rel L s)"
  "intr_on (img_update g s) = img_update g (intr_on s)"
  "intr_off (img_update g s) = img_update g (intr_off s)"
  "set_mycpu k (img_update g s) = img_update g (set_mycpu k s)"
  "wakeup_st ch (img_update g s) = img_update g (wakeup_st ch s)"
  "kalloc_st (img_update g s) = img_update g (kalloc_st s)"
  "kfree_st pa (img_update g s) = img_update g (kfree_st pa s)"
  by (simp_all add: base_defs intr_get_def r_sstatus_def intr_on_def intr_off_def w_sstatus_def
      wakeup_st_def kalloc_st_def kfree_st_def plocks_free_def other_plocks_free_def kmem_ready_def)

lemma img_kept [simp, frame_simps]:
  "img (touch s) = img s" "img (acq L s) = img s" "img (rel L s) = img s" "img (intr_on s) = img s"
  "img (intr_off s) = img s" "img (set_mycpu k s) = img s" "img (wakeup_st ch s) = img s"
  "img (kalloc_st s) = img s" "img (kfree_st pa s) = img s"
  by (simp_all add: base_defs intr_on_def intr_off_def w_sstatus_def wakeup_st_def kalloc_st_def
      kfree_st_def)

lemma img_slept [simp]: "img (sleep_st ch lk i s) = img s" "img (woke_st lk i ia s) = img s"
  by (simp_all add: sleep_st_def woke_st_def)

lemma img_calm [simp]:
  "running i (img_update g s) = running i s" "under lk i (img_update g s) = under lk i s"
  "calm (img_update g s) t = calm s t" "calm s (img_update g t) = calm s t"
  by (simp_all add: running_def under_def sleep_call_def calm_def)


definition upd_vd :: "(vdisk \<Rightarrow> vdisk) \<Rightarrow> ('z bufst_scheme, unit) kop" where
  "upd_vd f = upd (\<lambda>s. s\<lparr>vd := f (vd s)\<rparr>)"

definition upd_buf :: "nat \<Rightarrow> (buf \<Rightarrow> buf) \<Rightarrow> ('z bufst_scheme, unit) kop" where
  "upd_buf b f = upd (\<lambda>s. s\<lparr>bufs := (bufs s)(b := f (bufs s b))\<rparr>)"

lemma upd_vd_app [kop_simps, simp]: "upd_vd f s e = Ret () (s\<lparr>vd := f (vd s)\<rparr>) e"
  by (simp add: upd_vd_def)

lemma upd_buf_app [kop_simps, simp]:
  "upd_buf b f s e = Ret () (s\<lparr>bufs := (bufs s)(b := f (bufs s b))\<rparr>) e"
  by (simp add: upd_buf_def)

section \<open>Initialisation\<close>

definition VIRTIO_MMIO_MAGIC_VALUE :: nat where "VIRTIO_MMIO_MAGIC_VALUE = 0x000"
definition VIRTIO_MMIO_VERSION :: nat where "VIRTIO_MMIO_VERSION = 0x004"
definition VIRTIO_MMIO_DEVICE_ID :: nat where "VIRTIO_MMIO_DEVICE_ID = 0x008"
definition VIRTIO_MMIO_VENDOR_ID :: nat where "VIRTIO_MMIO_VENDOR_ID = 0x00c"
definition VIRTIO_MMIO_DEVICE_FEATURES :: nat where "VIRTIO_MMIO_DEVICE_FEATURES = 0x010"
definition VIRTIO_MMIO_DRIVER_FEATURES :: nat where "VIRTIO_MMIO_DRIVER_FEATURES = 0x020"
definition VIRTIO_MMIO_QUEUE_SEL :: nat where "VIRTIO_MMIO_QUEUE_SEL = 0x030"
definition VIRTIO_MMIO_QUEUE_NUM_MAX :: nat where "VIRTIO_MMIO_QUEUE_NUM_MAX = 0x034"
definition VIRTIO_MMIO_QUEUE_NUM :: nat where "VIRTIO_MMIO_QUEUE_NUM = 0x038"
definition VIRTIO_MMIO_QUEUE_READY :: nat where "VIRTIO_MMIO_QUEUE_READY = 0x044"
definition VIRTIO_MMIO_QUEUE_NOTIFY :: nat where "VIRTIO_MMIO_QUEUE_NOTIFY = 0x050"
definition VIRTIO_MMIO_INTERRUPT_STATUS :: nat where "VIRTIO_MMIO_INTERRUPT_STATUS = 0x060"
definition VIRTIO_MMIO_INTERRUPT_ACK :: nat where "VIRTIO_MMIO_INTERRUPT_ACK = 0x064"
definition VIRTIO_MMIO_STATUS :: nat where "VIRTIO_MMIO_STATUS = 0x070"
definition VIRTIO_MMIO_QUEUE_DESC_LOW :: nat where "VIRTIO_MMIO_QUEUE_DESC_LOW = 0x080"
definition VIRTIO_MMIO_QUEUE_DESC_HIGH :: nat where "VIRTIO_MMIO_QUEUE_DESC_HIGH = 0x084"
definition VIRTIO_MMIO_DRIVER_DESC_LOW :: nat where "VIRTIO_MMIO_DRIVER_DESC_LOW = 0x090"
definition VIRTIO_MMIO_DRIVER_DESC_HIGH :: nat where "VIRTIO_MMIO_DRIVER_DESC_HIGH = 0x094"
definition VIRTIO_MMIO_DEVICE_DESC_LOW :: nat where "VIRTIO_MMIO_DEVICE_DESC_LOW = 0x0a0"
definition VIRTIO_MMIO_DEVICE_DESC_HIGH :: nat where "VIRTIO_MMIO_DEVICE_DESC_HIGH = 0x0a4"

definition VIRTIO_CONFIG_S_ACKNOWLEDGE :: u32 where "VIRTIO_CONFIG_S_ACKNOWLEDGE = 1"
definition VIRTIO_CONFIG_S_DRIVER :: u32 where "VIRTIO_CONFIG_S_DRIVER = 2"
definition VIRTIO_CONFIG_S_DRIVER_OK :: u32 where "VIRTIO_CONFIG_S_DRIVER_OK = 4"
definition VIRTIO_CONFIG_S_FEATURES_OK :: u32 where "VIRTIO_CONFIG_S_FEATURES_OK = 8"

definition VIRTIO_BLK_F_RO :: nat where "VIRTIO_BLK_F_RO = 5"
definition VIRTIO_BLK_F_SCSI :: nat where "VIRTIO_BLK_F_SCSI = 7"
definition VIRTIO_BLK_F_CONFIG_WCE :: nat where "VIRTIO_BLK_F_CONFIG_WCE = 11"
definition VIRTIO_BLK_F_MQ :: nat where "VIRTIO_BLK_F_MQ = 12"
definition VIRTIO_F_ANY_LAYOUT :: nat where "VIRTIO_F_ANY_LAYOUT = 27"
definition VIRTIO_RING_F_INDIRECT_DESC :: nat where "VIRTIO_RING_F_INDIRECT_DESC = 28"
definition VIRTIO_RING_F_EVENT_IDX :: nat where "VIRTIO_RING_F_EVENT_IDX = 29"

text \<open>
  Writing a register.  What the status register holds after a write is the device's choice, the
  parameter \<open>dev\<close>: it may refuse \<open>FEATURES_OK\<close>.
\<close>

definition write_reg :: "(u32 \<Rightarrow> u32) \<Rightarrow> nat \<Rightarrow> u32 \<Rightarrow> ('z bufst_scheme, unit) kop" where
  "write_reg dev r v =
     upd_vd (\<lambda>d. d\<lparr>vmmio := (vmmio d)(r := if r = VIRTIO_MMIO_STATUS then dev v else v)\<rparr>)"

definition read_reg :: "nat \<Rightarrow> ('z bufst_scheme, u32) kop" where
  "read_reg r = rd (\<lambda>s. vmmio (vd s) r)"

text \<open>The constants are C \<open>int\<close>s: the masks are sign-extended to the 64 bits of \<open>features\<close>.\<close>

definition driver_features :: "addr \<Rightarrow> addr" where
  "driver_features f0 =
     (let f1 = f0 AND NOT (push_bit VIRTIO_BLK_F_RO 1);
          f2 = f1 AND NOT (push_bit VIRTIO_BLK_F_SCSI 1);
          f3 = f2 AND NOT (push_bit VIRTIO_BLK_F_CONFIG_WCE 1);
          f4 = f3 AND NOT (push_bit VIRTIO_BLK_F_MQ 1);
          f5 = f4 AND NOT (push_bit VIRTIO_F_ANY_LAYOUT 1);
          f6 = f5 AND NOT (push_bit VIRTIO_RING_F_EVENT_IDX 1)
      in f6 AND NOT (push_bit VIRTIO_RING_F_INDIRECT_DESC 1))"

definition null_desc :: virtq_desc where
  "null_desc = \<lparr>d_addr = D_null, d_len = 0, d_flags = 0, d_next = 0\<rparr>"

text \<open>The three pages are zeroed when they are set up.\<close>

definition zero_queue :: "vdisk \<Rightarrow> vdisk" where
  "zero_queue d = d\<lparr>desc := (\<lambda>_. null_desc), avail_idx := 0, avail_ring := (\<lambda>_. 0),
     usedq_idx := 0, usedq_id := (\<lambda>_. 0)\<rparr>"

definition zero_page :: "addr \<Rightarrow> ('z bufst_scheme, unit) kop" where
  "zero_page pa = upd (\<lambda>s. s\<lparr>mem := memset (mem s) (unat pa) 0 (unat PGSIZE)\<rparr>)"

definition queue_pages :: "(u32 \<Rightarrow> u32) \<Rightarrow> ('z bufst_scheme, unit) kop" where
  "queue_pages dev =
     bnd kalloc (\<lambda>pd.
     bnd kalloc (\<lambda>pa.
     bnd kalloc (\<lambda>pu.
     if pd = 0 \<or> pa = 0 \<or> pu = 0 then panic ''virtio disk kalloc'' else
     thn (zero_page pd) (
     thn (zero_page pa) (
     thn (zero_page pu) (
     thn (upd_vd zero_queue) (
     thn (write_reg dev VIRTIO_MMIO_QUEUE_NUM (of_nat NUM)) (
     thn (write_reg dev VIRTIO_MMIO_QUEUE_DESC_LOW (ucast pd)) (
     thn (write_reg dev VIRTIO_MMIO_QUEUE_DESC_HIGH (ucast (drop_bit 32 pd))) (
     thn (write_reg dev VIRTIO_MMIO_DRIVER_DESC_LOW (ucast pa)) (
     thn (write_reg dev VIRTIO_MMIO_DRIVER_DESC_HIGH (ucast (drop_bit 32 pa))) (
     thn (write_reg dev VIRTIO_MMIO_DEVICE_DESC_LOW (ucast pu))
     (write_reg dev VIRTIO_MMIO_DEVICE_DESC_HIGH (ucast (drop_bit 32 pu)))))))))))))))"

definition virtio_disk_init :: "(u32 \<Rightarrow> u32) \<Rightarrow> ('z bufst_scheme, unit) kop" where
  "virtio_disk_init dev =
     thn (initlock L_vdisk ''virtio_disk'') (
     bnd (read_reg VIRTIO_MMIO_MAGIC_VALUE) (\<lambda>magic.
     bnd (read_reg VIRTIO_MMIO_VERSION) (\<lambda>version.
     bnd (read_reg VIRTIO_MMIO_DEVICE_ID) (\<lambda>device.
     bnd (read_reg VIRTIO_MMIO_VENDOR_ID) (\<lambda>vendor.
     if magic \<noteq> 0x74726976 \<or> version \<noteq> 2 \<or> device \<noteq> 2 \<or> vendor \<noteq> 0x554d4551 then
       panic ''could not find virtio disk''
     else
     (let st0 = 0; st1 = st0 OR VIRTIO_CONFIG_S_ACKNOWLEDGE; st2 = st1 OR VIRTIO_CONFIG_S_DRIVER;
          st3 = st2 OR VIRTIO_CONFIG_S_FEATURES_OK in
     thn (write_reg dev VIRTIO_MMIO_STATUS st0) (
     thn (write_reg dev VIRTIO_MMIO_STATUS st1) (
     thn (write_reg dev VIRTIO_MMIO_STATUS st2) (
     bnd (read_reg VIRTIO_MMIO_DEVICE_FEATURES) (\<lambda>features.
     thn (write_reg dev VIRTIO_MMIO_DRIVER_FEATURES (ucast (driver_features (ucast features)))) (
     thn (write_reg dev VIRTIO_MMIO_STATUS st3) (
     bnd (read_reg VIRTIO_MMIO_STATUS) (\<lambda>st4.
     if st4 AND VIRTIO_CONFIG_S_FEATURES_OK = 0 then panic ''virtio disk FEATURES_OK unset'' else
     thn (write_reg dev VIRTIO_MMIO_QUEUE_SEL 0) (
     bnd (read_reg VIRTIO_MMIO_QUEUE_READY) (\<lambda>ready.
     if ready \<noteq> 0 then panic ''virtio disk should not be ready'' else
     bnd (read_reg VIRTIO_MMIO_QUEUE_NUM_MAX) (\<lambda>mx.
     if mx = 0 then panic ''virtio disk has no queue 0''
     else if mx < of_nat NUM then panic ''virtio disk max queue too short'' else
     thn (queue_pages dev) (
     thn (write_reg dev VIRTIO_MMIO_QUEUE_READY 0x1) (
     thn (foreach [0..<NUM] (\<lambda>i. upd_vd (\<lambda>d. d\<lparr>vfree := (vfree d)(i := True)\<rparr>)))
     (write_reg dev VIRTIO_MMIO_STATUS (st4 OR VIRTIO_CONFIG_S_DRIVER_OK))))))))))))))))))))"

section \<open>Descriptors\<close>

text \<open>\<open>None\<close> stands for the result -1.\<close>

definition alloc_desc :: "('z bufst_scheme, nat option) kop" where
  "alloc_desc =
     for_until [0..<NUM] (\<lambda>i.
       bnd (rd (\<lambda>s. vfree (vd s) i)) (\<lambda>free.
       if free then thn (upd_vd (\<lambda>d. d\<lparr>vfree := (vfree d)(i := False)\<rparr>)) (ret (Some i))
       else ret None))"

definition free_desc :: "nat \<Rightarrow> ('z bufst_scheme, unit) kop" where
  "free_desc i =
     (if i \<ge> NUM then panic ''free_desc 1'' else
      bnd (rd (\<lambda>s. vfree (vd s) i)) (\<lambda>free.
      if free then panic ''free_desc 2'' else
      thn (upd_vd (\<lambda>d. d\<lparr>desc := (desc d)(i := null_desc), vfree := (vfree d)(i := True)\<rparr>))
      (wakeup (Some C_disk_free))))"

definition free_round :: "nat \<Rightarrow> ('z bufst_scheme, nat + unit) kop" where
  "free_round i =
     bnd (rd (\<lambda>s. desc (vd s) i)) (\<lambda>d.
     thn (free_desc i)
     (ret (if d_flags d AND VRING_DESC_F_NEXT \<noteq> 0 then Inl (unat (d_next d)) else Inr ())))"

text \<open>Each round frees one descriptor and a free one is not freed again: \<open>NUM + 1\<close> rounds are enough.\<close>

definition free_chain :: "nat \<Rightarrow> ('z bufst_scheme, unit) kop" where
  "free_chain i = loop_fuel (Suc NUM) free_round i"

primrec alloc_descs :: "nat \<Rightarrow> nat list \<Rightarrow> ('z bufst_scheme, nat list option) kop" where
  "alloc_descs 0 idx = ret (Some idx)"
| "alloc_descs (Suc n) idx =
     bnd alloc_desc (\<lambda>d. case d of
       None \<Rightarrow> thn (foreach idx free_desc) (ret None)
     | Some i \<Rightarrow> alloc_descs n (idx @ [i]))"

definition alloc3_desc :: "('z bufst_scheme, nat list option) kop" where
  "alloc3_desc = alloc_descs 3 []"

section \<open>Requests\<close>

text \<open>The three descriptors of a transfer of buffer \<open>b\<close>, and the head in the ring.\<close>

definition format_request :: "nat \<Rightarrow> bool \<Rightarrow> addr \<Rightarrow> nat \<Rightarrow> nat \<Rightarrow> nat \<Rightarrow> vdisk \<Rightarrow> vdisk" where
  "format_request b write sector i0 i1 i2 d =
     d\<lparr>dops := (dops d)(i0 := \<lparr>r_type = (if write then VIRTIO_BLK_T_OUT else VIRTIO_BLK_T_IN),
         r_reserved = 0, r_sector = sector\<rparr>),
       desc := (desc d)(
         i0 := \<lparr>d_addr = D_op i0, d_len = 16, d_flags = VRING_DESC_F_NEXT, d_next = of_nat i1\<rparr>,
         i1 := \<lparr>d_addr = D_data b, d_len = of_nat BSIZE,
           d_flags = (if write then 0 else VRING_DESC_F_WRITE) OR VRING_DESC_F_NEXT, d_next = of_nat i2\<rparr>,
         i2 := \<lparr>d_addr = D_status i0, d_len = 1, d_flags = VRING_DESC_F_WRITE, d_next = 0\<rparr>),
       info_status := (info_status d)(i0 := 0xff),
       info_b := (info_b d)(i0 := Some b)\<rparr>"

definition submit :: "nat \<Rightarrow> vdisk \<Rightarrow> vdisk" where
  "submit i0 d = d\<lparr>avail_ring := (avail_ring d)(unat (avail_idx d) mod NUM := of_nat i0),
     avail_idx := avail_idx d + 1, vmmio := (vmmio d)(VIRTIO_MMIO_QUEUE_NOTIFY := 0)\<rparr>"

definition vio_descs :: "('z bufst_scheme, nat list) kop" where
  "vio_descs =
     loop (\<lambda>_. 0) (\<lambda>_.
       bnd alloc3_desc (\<lambda>r. case r of
         Some idx \<Rightarrow> ret (Inr idx)
       | None \<Rightarrow> thn (sleep C_disk_free L_vdisk) (ret (Inl ())))) ()"

definition virtio_disk_rw :: "nat \<Rightarrow> bool \<Rightarrow> ('z bufst_scheme, unit) kop" where
  "virtio_disk_rw b write =
     bnd (rd (\<lambda>s. ucast (blockno (bufs s b) * 2))) (\<lambda>sector.
     thn (acquire L_vdisk) (
     bnd vio_descs (\<lambda>idx.
     thn (upd_vd (format_request b write sector (idx ! 0) (idx ! 1) (idx ! 2))) (
     thn (upd_buf b (\<lambda>k. k\<lparr>bdisk := 1\<rparr>)) (
     thn (upd_vd (submit (idx ! 0))) (
     thn (while_off (\<lambda>s. bdisk (bufs s b) = 1) (sleep (C_buf b) L_vdisk)) (
     thn (upd_vd (\<lambda>d. d\<lparr>info_b := (info_b d)(idx ! 0 := None)\<rparr>)) (
     thn (free_chain (idx ! 0))
     (release L_vdisk)))))))))"

text \<open>One completed request of the used ring.\<close>

definition vio_complete :: "('z bufst_scheme, unit + unit) kop" where
  "vio_complete =
     bnd (rd (\<lambda>s. used_idx (vd s) \<noteq> usedq_idx (vd s))) (\<lambda>more.
     if more then
       bnd (rd (\<lambda>s. unat (usedq_id (vd s) (unat (used_idx (vd s)) mod NUM)))) (\<lambda>id.
       bnd (rd (\<lambda>s. info_status (vd s) id)) (\<lambda>status.
       if status \<noteq> 0 then panic ''virtio_disk_intr status'' else
       bnd (rd (\<lambda>s. info_b (vd s) id)) (\<lambda>ob. case ob of
         None \<Rightarrow> panic ''kerneltrap''
       | Some b \<Rightarrow>
           thn (upd_buf b (\<lambda>k. k\<lparr>bdisk := 0\<rparr>)) (
           thn (wakeup (Some (C_buf b))) (
           thn (upd_vd (\<lambda>d. d\<lparr>used_idx := used_idx d + 1\<rparr>))
           (ret (Inl ())))))))
     else ret (Inr ()))"

definition vio_drain :: "('z bufst_scheme, unit) kop" where
  "vio_drain = (\<lambda>s env.
     loop_fuel (Suc (unat (usedq_idx (vd s) - used_idx (vd s)))) (\<lambda>_. vio_complete) () s env)"

definition virtio_disk_intr :: "('z bufst_scheme, unit) kop" where
  "virtio_disk_intr =
     thn (acquire L_vdisk) (
     thn (upd_vd (\<lambda>d. d\<lparr>vmmio := (vmmio d)(VIRTIO_MMIO_INTERRUPT_ACK :=
            vmmio d VIRTIO_MMIO_INTERRUPT_STATUS AND 0x3)\<rparr>)) (
     thn vio_drain
     (release L_vdisk)))"

section \<open>The free descriptors\<close>

lemma alloc_desc_Ret:
  assumes "i < NUM" "vfree (vd s) i" "\<forall>j < i. \<not> vfree (vd s) j"
  shows "alloc_desc s e = Ret (Some i) (s\<lparr>vd := (vd s)\<lparr>vfree := (vfree (vd s))(i := False)\<rparr>\<rparr>) e"
proof -
  let ?body = "\<lambda>i. bnd (rd (\<lambda>s. vfree (vd s) i)) (\<lambda>free.
       if free then thn (upd_vd (\<lambda>d. d\<lparr>vfree := (vfree d)(i := False)\<rparr>)) (ret (Some i))
       else ret None) :: ('a bufst_scheme, nat option) kop"
  have "for_until ([0..<i] @ i # [Suc i..<NUM]) ?body s e =
      for_until (i # [Suc i..<NUM]) ?body (fold (\<lambda>_ t. t) [0..<i] s) e \<and> fold (\<lambda>_ t. t) [0..<i] s = s"
    by (rule for_until_skip[where I = "\<lambda>t. t = s"]) (use assms(3) in \<open>auto simp: bnd_def\<close>)
  then show ?thesis unfolding alloc_desc_def upt_split_at[OF assms(1)]
    using assms(2) by (simp add: bnd_def thn_def)
qed

lemma alloc_desc_None:
  assumes "\<forall>j < NUM. \<not> vfree (vd s) j"
  shows "alloc_desc s e = Ret None s e"
proof -
  let ?body = "\<lambda>i. bnd (rd (\<lambda>s. vfree (vd s) i)) (\<lambda>free.
       if free then thn (upd_vd (\<lambda>d. d\<lparr>vfree := (vfree d)(i := False)\<rparr>)) (ret (Some i))
       else ret None) :: ('a bufst_scheme, nat option) kop"
  have "for_until ([0..<NUM] @ []) ?body s e = for_until [] ?body (fold (\<lambda>_ t. t) [0..<NUM] s) e \<and>
      fold (\<lambda>_ t. t) [0..<NUM] s = s"
    by (rule for_until_skip[where I = "\<lambda>t. t = s"]) (use assms in \<open>auto simp: bnd_def\<close>)
  then show ?thesis unfolding alloc_desc_def by simp
qed

text \<open>The driver at rest: every descriptor is free.\<close>

definition vd_rest :: "vdisk \<Rightarrow> bool" where
  "vd_rest d \<longleftrightarrow> (\<forall>j < NUM. vfree d j)"

lemma alloc3_rest:
  assumes "vd_rest (vd s)"
  shows "alloc3_desc s e = Ret (Some [0, 1, 2])
    (s\<lparr>vd := (vd s)\<lparr>vfree := (vfree (vd s))(0 := False, 1 := False, 2 := False)\<rparr>\<rparr>) e"
proof -
  let ?f = "\<lambda>k. s\<lparr>vd := (vd s)\<lparr>vfree := k\<rparr>\<rparr>" and ?v = "vfree (vd s)"
  have v: "?v 0" "?v 1" "?v 2" using assms by (simp_all add: vd_rest_def)
  have 1: "alloc_desc s e = Ret (Some 0) (?f (?v(0 := False))) e"
    using v by (intro alloc_desc_Ret) simp_all
  have 2: "alloc_desc (?f (?v(0 := False))) e = Ret (Some 1) (?f (?v(0 := False, 1 := False))) e"
    using v alloc_desc_Ret[of 1 "?f (?v(0 := False))" e] by simp
  have 3: "alloc_desc (?f (?v(0 := False, 1 := False))) e = Ret (Some 2) (?f (?v(0 := False, 1 := False, 2 := False))) e"
    using v alloc_desc_Ret[of 2 "?f (?v(0 := False, 1 := False))" e] by (simp add: less_2_cases_iff)
  have n: "alloc3_desc = alloc_descs (Suc (Suc (Suc 0))) []" by (simp add: alloc3_desc_def eval_nat_numeral)
  show ?thesis unfolding n alloc_descs.simps by (simp add: bnd_def 1 2 3[unfolded One_nat_def])
qed

lemma under_free_desc:
  assumes "under L_vdisk i s" "d < NUM" "\<not> vfree (vd s) d"
  shows "free_desc d s e = Ret () (s\<lparr>vd := (vd s)\<lparr>desc := (desc (vd s))(d := null_desc), vfree := (vfree (vd s))(d := True)\<rparr>,
    procs := woken (Some i) (Some C_disk_free) (procs s)\<rparr>) e"
proof -
  have "under L_vdisk i (s\<lparr>vd := (vd s)\<lparr>desc := (desc (vd s))(d := null_desc), vfree := (vfree (vd s))(d := True)\<rparr>\<rparr>)"
    using assms(1) by simp
  from under_wakeup[OF this] show ?thesis
    using assms(2,3) by (simp add: free_desc_def bnd_def thn_def)
qed

text \<open>A chain of three descriptors.\<close>

definition chain3 :: "vdisk \<Rightarrow> nat \<Rightarrow> nat \<Rightarrow> nat \<Rightarrow> bool" where
  "chain3 d a b c \<longleftrightarrow> distinct [a, b, c] \<and> a < NUM \<and> b < NUM \<and> c < NUM \<and>
     d_flags (desc d a) AND VRING_DESC_F_NEXT \<noteq> 0 \<and> d_next (desc d a) = of_nat b \<and>
     d_flags (desc d b) AND VRING_DESC_F_NEXT \<noteq> 0 \<and> d_next (desc d b) = of_nat c \<and>
     d_flags (desc d c) AND VRING_DESC_F_NEXT = 0"

lemma small_u16: "n < NUM \<Longrightarrow> unat (of_nat n :: u16) = n"
  by (simp add: unsigned_of_nat take_bit_nat_eq_self)

lemma free_chain3:
  assumes "under L_vdisk i s" "chain3 (vd s) a b c" "\<not> vfree (vd s) a" "\<not> vfree (vd s) b" "\<not> vfree (vd s) c"
  shows "\<exists>P. free_chain a s e = Ret () (s\<lparr>vd := (vd s)\<lparr>desc := (desc (vd s))(a := null_desc, b := null_desc, c := null_desc),
      vfree := (vfree (vd s))(a := True, b := True, c := True)\<rparr>, procs := P\<rparr>) e \<and>
    (\<forall>j. proc_id (P j) = proc_id (procs s j))"
proof -
  note ch = assms(2)[unfolded chain3_def]
  let ?w = "woken (Some i) (Some C_disk_free)"
  let ?s1 = "s\<lparr>vd := (vd s)\<lparr>desc := (desc (vd s))(a := null_desc), vfree := (vfree (vd s))(a := True)\<rparr>, procs := ?w (procs s)\<rparr>"
  let ?s2 = "s\<lparr>vd := (vd s)\<lparr>desc := (desc (vd s))(a := null_desc, b := null_desc),
      vfree := (vfree (vd s))(a := True, b := True)\<rparr>, procs := ?w (?w (procs s))\<rparr>"
  let ?s3 = "s\<lparr>vd := (vd s)\<lparr>desc := (desc (vd s))(a := null_desc, b := null_desc, c := null_desc),
      vfree := (vfree (vd s))(a := True, b := True, c := True)\<rparr>, procs := ?w (?w (?w (procs s)))\<rparr>"
  have u: "under L_vdisk i ?s1" "under L_vdisk i ?s2" using assms(1) by simp_all
  have 1: "free_round a s e = Ret (Inl b) ?s1 e"
    using under_free_desc[OF assms(1), of a e] ch assms(3) small_u16 by (simp add: free_round_def bnd_def thn_def)
  have 2: "free_round b ?s1 e = Ret (Inl c) ?s2 e"
    using under_free_desc[OF u(1), of b e] ch assms(4) small_u16 by (simp add: free_round_def bnd_def thn_def)
  have 3: "free_round c ?s2 e = Ret (Inr ()) ?s3 e"
    using under_free_desc[OF u(2), of c e] ch assms(5) small_u16 by (simp add: free_round_def bnd_def thn_def)
  have n: "free_chain a = (loop_fuel (Suc (Suc (Suc 6))) free_round a :: ('a bufst_scheme, unit) kop)"
    by (simp add: free_chain_def)
  have "free_chain a s e = Ret () ?s3 e"
    unfolding n loop_fuel.simps by (simp add: bnd_def 1 2 3[unfolded One_nat_def])
  then show ?thesis by (intro exI[of _ "?w (?w (?w (procs s)))"]) simp
qed

section \<open>What the driver relies on\<close>

text \<open>
  A request as the virtio block device reads it: the newest entry of the ring is the head of a
  chain of header, data and status, with the flags that say in which direction they go.
\<close>

definition request :: "vdisk \<Rightarrow> nat \<Rightarrow> bool \<Rightarrow> addr \<Rightarrow> bool" where
  "request d b write sector \<longleftrightarrow>
     (\<exists>i0 i1 i2. chain3 d i0 i1 i2 \<and> avail_ring d (unat (avail_idx d - 1) mod NUM) = of_nat i0 \<and>
        d_addr (desc d i0) = D_op i0 \<and> d_len (desc d i0) = 16 \<and> d_flags (desc d i0) AND VRING_DESC_F_WRITE = 0 \<and>
        r_type (dops d i0) = (if write then VIRTIO_BLK_T_OUT else VIRTIO_BLK_T_IN) \<and> r_sector (dops d i0) = sector \<and>
        d_addr (desc d i1) = D_data b \<and> d_len (desc d i1) = of_nat BSIZE \<and>
        (d_flags (desc d i1) AND VRING_DESC_F_WRITE = 0 \<longleftrightarrow> write) \<and>
        d_addr (desc d i2) = D_status i0 \<and> d_len (desc d i2) = 1 \<and> d_flags (desc d i2) AND VRING_DESC_F_WRITE \<noteq> 0 \<and>
        info_b d i0 = Some b \<and> \<not> vfree d i0 \<and> \<not> vfree d i1 \<and> \<not> vfree d i2)"

text \<open>The blocks on the disk, and a transfer.\<close>

definition sector_of :: "u32 \<Rightarrow> addr" where
  "sector_of n = ucast (n * 2)"

definition disk_block :: "(nat \<Rightarrow> byte) \<Rightarrow> u32 \<Rightarrow> byte list" where
  "disk_block m n = map m [unat (sector_of n) * 512..<unat (sector_of n) * 512 + BSIZE]"

definition disk_write :: "(nat \<Rightarrow> byte) \<Rightarrow> u32 \<Rightarrow> byte list \<Rightarrow> nat \<Rightarrow> byte" where
  "disk_write m n bs = store_bytes m (unat (sector_of n) * 512) bs"

text \<open>Everything that other components keep.\<close>

definition same_rest :: "'z bufst_scheme \<Rightarrow> 'z bufst_scheme \<Rightarrow> bool" where
  "same_rest s s' \<longleftrightarrow> calm s s' \<and> slocks s' = slocks s \<and> cons s' = cons s \<and> devsw s' = devsw s \<and>
     pipes s' = pipes s \<and> bufst.more s' = bufst.more s"

text \<open>
  The rest of the machine while process \<open>i\<close> waits for its request: the device carries it out, the
  interrupt handler takes the buffer back, and the process is run again.  Nothing else happens.
\<close>

definition disk_env :: "nat \<Rightarrow> ('z bufst_scheme \<Rightarrow> 'z bufst_scheme) \<Rightarrow> bool" where
  "disk_env i f \<longleftrightarrow> (\<forall>t b write n.
     sched_ready i t \<and> other_plocks_free t \<and> lock_free L_vdisk t \<and> bdisk (bufs t b) = 1 \<and>
     request (vd t) b write (sector_of n) \<longrightarrow>
       resumed i (f t) \<and> same_rest t (f t) \<and> desc (vd (f t)) = desc (vd t) \<and> vfree (vd (f t)) = vfree (vd t) \<and>
       bufs (f t) = (bufs t)(b := (bufs t b)\<lparr>bdisk := 0,
         bdata := if write then bdata (bufs t b) else disk_block (img t) n\<rparr>) \<and>
       img (f t) = (if write then disk_write (img t) n (bdata (bufs t b)) else img t))"

lemma flag_bits [simp]:
  "VRING_DESC_F_NEXT \<noteq> 0" "VRING_DESC_F_NEXT AND VRING_DESC_F_WRITE = 0"
  "VRING_DESC_F_WRITE AND VRING_DESC_F_NEXT = 0" "VRING_DESC_F_WRITE \<noteq> 0"
  "(VRING_DESC_F_WRITE OR VRING_DESC_F_NEXT) AND VRING_DESC_F_NEXT \<noteq> 0"
  "(VRING_DESC_F_WRITE OR VRING_DESC_F_NEXT) AND VRING_DESC_F_WRITE \<noteq> 0"
  by (simp_all add: VRING_DESC_F_NEXT_def VRING_DESC_F_WRITE_def)

text \<open>The driver's chain is such a request.\<close>

definition queued :: "nat \<Rightarrow> bool \<Rightarrow> addr \<Rightarrow> vdisk \<Rightarrow> vdisk" where
  "queued b write sector d =
     submit 0 (format_request b write sector 0 1 2 (d\<lparr>vfree := (vfree d)(0 := False, 1 := False, 2 := False)\<rparr>))"

lemma queued_chain: "chain3 (queued b write sector d) 0 1 2"
  by (simp add: chain3_def queued_def submit_def format_request_def)

lemma queued_request: "request (queued b write sector d) b write sector"
proof -
  have "avail_ring (queued b write sector d) (unat (avail_idx (queued b write sector d) - 1) mod NUM) = of_nat 0"
    by (simp add: queued_def submit_def format_request_def)
  then show ?thesis unfolding request_def using queued_chain
    by (intro exI[of _ 0] exI[of _ 1] exI[of _ 2])
       (simp add: queued_def submit_def format_request_def)
qed

lemma queued_free: "vd_rest d \<Longrightarrow> vfree (queued b write sector d) = (vfree d)(0 := False, 1 := False, 2 := False)"
  by (simp add: queued_def submit_def format_request_def)

section \<open>A transfer\<close>

lemma vio_descs_rest:
  assumes "vd_rest (vd s)"
  shows "vio_descs s e = Ret [0, 1, 2] (s\<lparr>vd := (vd s)\<lparr>vfree := (vfree (vd s))(0 := False, 1 := False, 2 := False)\<rparr>\<rparr>) e"
  unfolding vio_descs_def
  by (rule loop_first) (simp add: bnd_def alloc3_rest[OF assms, unfolded One_nat_def])

lemma more_kept [simp]:
  "bufst.more (touch s) = bufst.more s" "bufst.more (acq L s) = bufst.more s" "bufst.more (rel L s) = bufst.more s"
  "bufst.more (sleep_st ch lk i s) = bufst.more s" "bufst.more (woke_st lk i ia s) = bufst.more s"
  "bufst.more (set_mycpu k s) = bufst.more s"
  by (simp_all add: base_defs intr_on_def intr_off_def w_sstatus_def sleep_st_def woke_st_def)

text \<open>The waiting part of a request that is in the queue.\<close>

lemma rw_wait_Off:
  assumes "under L_vdisk i s" "bdisk (bufs s b) = 1"
  shows "while_off (\<lambda>s. bdisk (bufs s b) = 1) (sleep (C_buf b) L_vdisk) s [] = Off (sleep_st (C_buf b) L_vdisk i s)"
  using assms(2) sleep_Off[OF underD(1)[OF assms(1)]]
  by (simp add: while_off_unfold[OF env_less_sleep] thn_def bnd_def)

lemma rw_wait_done:
  assumes u: "under L_vdisk i s" "bdisk (bufs s b) = 1" and r: "request (vd s) b w (sector_of n)"
    and f: "disk_env i f"
  shows "\<exists>s'. while_off (\<lambda>s. bdisk (bufs s b) = 1) (sleep (C_buf b) L_vdisk) s (f # fs) = Ret () s' fs \<and>
    under L_vdisk i s' \<and> same_rest s s' \<and> desc (vd s') = desc (vd s) \<and> vfree (vd s') = vfree (vd s) \<and>
    bufs s' = (bufs s)(b := (bufs s b)\<lparr>bdisk := 0,
         bdata := if w then bdata (bufs s b) else disk_block (img s) n\<rparr>) \<and>
    img s' = (if w then disk_write (img s) n (bdata (bufs s b)) else img s)"
proof -
  define t where "t = sleep_st (C_buf b) L_vdisk i s"
  note un = underD[OF u(1)]
  have t: "sched_ready i t" "lock_free L_vdisk t"
    using sleep_st_ready[OF un(1), of "C_buf b"] by (simp_all add: t_def)
  have tl: "lock_free L t = (if L = L_vdisk then True else if L = L_proc i then False else lock_free L s)" for L
    using t un(1) sleep_callD[OF un(1)] own_lock_onlyD(2)[of i t] lock_free_not_holding[of L t]
    by (auto simp: t_def sleep_st_def sched_ready_def)
  have o: "other_plocks_free t"
    using un(2,3) tl t(1) by (auto simp: other_plocks_free_def sched_ready_def own_lock_only_def)
  have td: "vd t = vd s" "bufs t = bufs s" "img t = img s" "bufst.more t = bufst.more s" "slocks t = slocks s"
    "cons t = cons s" "devsw t = devsw s" "pipes t = pipes s" "mem t = mem s" "freelist t = freelist s" "thr t = thr s"
    "hart t = hart s" "panicked t = panicked s" "panicking t = panicking s" "syms t = syms s" "initproc t = initproc s"
    "proc_id (procs t j) = proc_id (procs s j)" for j
    by (simp_all add: t_def) (simp_all add: sleep_st_def proc_id_def)
  have F: "resumed i (f t)" "same_rest t (f t)" "desc (vd (f t)) = desc (vd t)" "vfree (vd (f t)) = vfree (vd t)"
    "bufs (f t) = (bufs t)(b := (bufs t b)\<lparr>bdisk := 0, bdata := if w then bdata (bufs t b) else disk_block (img t) n\<rparr>)"
    "img (f t) = (if w then disk_write (img t) n (bdata (bufs t b)) else img t)"
    using f[unfolded disk_env_def, rule_format, of t b w n] t o u(2) r unfolding td by auto
  have c: "calm t (f t)" using F(2) by (simp add: same_rest_def)
  have o': "other_plocks_free (f t)"
    using o own_lock_onlyD(1)[of i "f t"] own_lock_onlyD(1)[of i t] t(1) F(1) calmD(1)[OF c]
    by (simp add: other_plocks_free_def sched_ready_def resumed_def)
  obtain ia where sl: "sleep (C_buf b) L_vdisk s (f # fs) = Ret () (woke_st L_vdisk i ia (f t)) fs"
    "under L_vdisk i (woke_st L_vdisk i ia (f t))"
    using under_sleep[OF u(1) _ F(1) _ o', of f "C_buf b" fs] calmD(1)[OF c] t(2) by (auto simp: t_def)
  let ?u = "woke_st L_vdisk i ia (f t)"
  have W: "while_off (\<lambda>s. bdisk (bufs s b) = 1) (sleep (C_buf b) L_vdisk) s (f # fs) = Ret () ?u fs"
    using u(2) sl(1) F(5) td
    by (simp add: while_off_unfold[OF env_less_sleep, of _ _ _ s] while_off_unfold[OF env_less_sleep, of _ _ _ ?u] thn_def bnd_def)
  have lf: "lock_free L_vdisk (f t)" "procs ?u = (procs (f t))(i := (procs (f t) i)\<lparr>pchan := None\<rparr>)"
    using calmD(1)[OF c] t(2) woke_st_call(3)[OF F(1), of L_vdisk ia] by simp_all
  have lk: "lock_free L ?u = lock_free L s" for L
  proof (cases "L = L_vdisk \<or> L = L_proc i")
    case True
    then show ?thesis using underD[OF sl(2)] un lock_free_not_holding by blast
  next
    case False
    then show ?thesis using woke_st_call(4)[OF F(1) lf(1), of L ia] calmD(1)[OF c] tl by simp
  qed
  have rest: "mem ?u = mem s" "freelist ?u = freelist s" "thr ?u = thr s" "panicked ?u = panicked s"
    "panicking ?u = panicking s" "syms ?u = syms s" "initproc ?u = initproc s" "hart ?u = hart s"
    using c td woke_st_call(2)[OF F(1) lf(1), of ia] by (simp_all add: calm_def) (simp_all add: woke_st_def base_defs intr_on_def intr_off_def w_sstatus_def)
  have "proc_id (procs ?u j) = proc_id (procs s j)" for j
    using calmD(4)[OF c, of j] td(17)[of j] by (cases "j = i") (simp_all add: lf(2))
  then have "calm s ?u"
    using lk rest underD(3,5)[OF sl(2)] un(3,5) by (simp add: calm_def)
  then have "same_rest s ?u" using F(2) td by (simp add: same_rest_def)
  then show ?thesis
    using W sl(2) F(3-6) td by (intro exI[of _ ?u]) simp
qed

lemma same_rest_refl [simp]: "same_rest s s"
  by (simp add: same_rest_def)

lemma same_rest_trans [trans]: "same_rest s t \<Longrightarrow> same_rest t u \<Longrightarrow> same_rest s u"
  by (simp add: same_rest_def) (blast intro: calm_trans)

lemma same_rest_upd [simp]:
  "same_rest (bufs_update g s) t = same_rest s t" "same_rest s (bufs_update g t) = same_rest s t"
  "same_rest (vd_update h s) t = same_rest s t" "same_rest s (vd_update h t) = same_rest s t"
  by (simp_all add: same_rest_def)

lemma same_rest_procs:
  "(\<And>j. proc_id (P j) = proc_id (procs s j)) \<Longrightarrow> same_rest s (s\<lparr>procs := P\<rparr>)"
  by (simp add: same_rest_def calm_procs)

lemma same_rest_critical:
  assumes "running i s" "lock_free lk s" "same_rest (acq lk s) t" "under lk i t" "\<And>j. lk \<noteq> L_proc j"
  shows "same_rest s (rel lk t)"
  using assms calm_critical[OF assms(1,2) _ assms(4,5)] by (simp add: same_rest_def)

text \<open>The driver at rest, and process \<open>i\<close> about to use it.\<close>

definition vd_ready :: "nat \<Rightarrow> 'z bufst_scheme \<Rightarrow> bool" where
  "vd_ready i s \<longleftrightarrow> running i s \<and> lock_free L_vdisk s \<and> vd_rest (vd s)"

definition rw_started :: "nat \<Rightarrow> bool \<Rightarrow> 'z bufst_scheme \<Rightarrow> 'z bufst_scheme" where
  "rw_started b w s = (acq L_vdisk s)\<lparr>bufs := (bufs s)(b := (bufs s b)\<lparr>bdisk := 1\<rparr>),
     vd := queued b w (sector_of (blockno (bufs s b))) (vd s)\<rparr>"

definition rw_data :: "nat \<Rightarrow> bool \<Rightarrow> 'z bufst_scheme \<Rightarrow> nat \<Rightarrow> buf" where
  "rw_data b w s = (bufs s)(b := (bufs s b)\<lparr>bdisk := 0,
     bdata := if w then bdata (bufs s b) else disk_block (img s) (blockno (bufs s b))\<rparr>)"

definition rw_img :: "nat \<Rightarrow> bool \<Rightarrow> 'z bufst_scheme \<Rightarrow> nat \<Rightarrow> byte" where
  "rw_img b w s = (if w then disk_write (img s) (blockno (bufs s b)) (bdata (bufs s b)) else img s)"

lemma rw_run:
  assumes "vd_ready i s"
  shows "virtio_disk_rw b w s e =
    thn (while_off (\<lambda>s. bdisk (bufs s b) = 1) (sleep (C_buf b) L_vdisk))
      (thn (upd_vd (\<lambda>d. d\<lparr>info_b := (info_b d)(0 := None)\<rparr>)) (thn (free_chain 0) (release L_vdisk)))
      (rw_started b w s) e"
    "under L_vdisk i (rw_started b w s)" "bdisk (bufs (rw_started b w s) b) = 1"
    "request (vd (rw_started b w s)) b w (sector_of (blockno (bufs s b)))"
proof -
  note d = assms[unfolded vd_ready_def]
  have vd1: "vd_rest (vd (acq L_vdisk s))" using d by simp
  show "virtio_disk_rw b w s e =
    thn (while_off (\<lambda>s. bdisk (bufs s b) = 1) (sleep (C_buf b) L_vdisk))
      (thn (upd_vd (\<lambda>d. d\<lparr>info_b := (info_b d)(0 := None)\<rparr>)) (thn (free_chain 0) (release L_vdisk)))
      (rw_started b w s) e"
    using d vio_descs_rest[OF vd1] unfolding rw_started_def queued_def
    by (simp add: virtio_disk_rw_def thn_def bnd_def acquire_Ret lock_freeD sector_of_def
        cong: outcome.case_cong)
  show "under L_vdisk i (rw_started b w s)" "bdisk (bufs (rw_started b w s) b) = 1"
    "request (vd (rw_started b w s)) b w (sector_of (blockno (bufs s b)))"
    using d under_acq[of i s L_vdisk] by (simp_all add: rw_started_def queued_request)
qed

lemma virtio_disk_rw_Off:
  assumes "vd_ready i s"
  shows "\<exists>s'. virtio_disk_rw b w s [] = Off s' \<and> img s' = img s"
  unfolding rw_run(1)[OF assms] using rw_wait_Off[OF rw_run(2,3)[OF assms], of b w]
  by (simp add: thn_def bnd_def) (simp add: rw_started_def)

lemma virtio_disk_rw_done:
  assumes d: "vd_ready i s" and f: "disk_env i f"
  shows "\<exists>s'. virtio_disk_rw b w s (f # fs) = Ret () s' fs \<and> same_rest s s' \<and> vd_ready i s' \<and>
    bufs s' = rw_data b w s \<and> img s' = rw_img b w s"
proof -
  let ?n = "blockno (bufs s b)" and ?s1 = "rw_started b w s"
  note r = d[unfolded vd_ready_def]
  obtain s2 where s2:
    "while_off (\<lambda>s. bdisk (bufs s b) = 1) (sleep (C_buf b) L_vdisk) ?s1 (f # fs) = Ret () s2 fs"
    "under L_vdisk i s2" "same_rest ?s1 s2" "desc (vd s2) = desc (vd ?s1)" "vfree (vd s2) = vfree (vd ?s1)"
    "bufs s2 = (bufs ?s1)(b := (bufs ?s1 b)\<lparr>bdisk := 0,
       bdata := if w then bdata (bufs ?s1 b) else disk_block (img ?s1) ?n\<rparr>)"
    "img s2 = (if w then disk_write (img ?s1) ?n (bdata (bufs ?s1 b)) else img ?s1)"
    using rw_wait_done[OF rw_run(2-4)[OF d] f] by blast
  let ?s3 = "s2\<lparr>vd := (vd s2)\<lparr>info_b := (info_b (vd s2))(0 := None)\<rparr>\<rparr>"
  have fr: "vfree (vd s2) = (vfree (vd s))(0 := False, 1 := False, 2 := False)"
    using queued_free r by (simp add: s2(5) rw_started_def)
  have ch: "chain3 (vd ?s3) 0 1 2"
    using queued_chain by (simp add: chain3_def s2(4) rw_started_def)
  have u3: "under L_vdisk i ?s3" using s2(2) by simp
  obtain P where P: "free_chain 0 ?s3 fs = Ret () (?s3\<lparr>vd := (vd ?s3)\<lparr>desc := (desc (vd ?s3))(0 := null_desc,
      1 := null_desc, 2 := null_desc), vfree := (vfree (vd ?s3))(0 := True, 1 := True, 2 := True)\<rparr>, procs := P\<rparr>) fs"
    "\<forall>j. proc_id (P j) = proc_id (procs ?s3 j)"
    using free_chain3[OF u3 ch, of fs] fr by auto
  let ?v4 = "(vd ?s3)\<lparr>desc := (desc (vd ?s3))(0 := null_desc, 1 := null_desc, 2 := null_desc),
      vfree := (vfree (vd ?s3))(0 := True, 1 := True, 2 := True)\<rparr>"
  let ?s4 = "?s3\<lparr>vd := ?v4, procs := P\<rparr>"
  have u4: "under L_vdisk i ?s4" using s2(2) by simp
  have fin: "virtio_disk_rw b w s (f # fs) = Ret () (rel L_vdisk ?s4) fs"
    unfolding rw_run(1)[OF d] using s2(1) P(1) under_release[OF u4, of fs] by (simp add: thn_def bnd_def)
  have "same_rest s2 (s2\<lparr>procs := P\<rparr>)" using P(2) by (intro same_rest_procs) simp
  moreover have "?s4 = (s2\<lparr>procs := P\<rparr>)\<lparr>vd := ?v4\<rparr>" by simp
  ultimately have "same_rest s2 ?s4" by (simp only: same_rest_upd)
  moreover have "same_rest (acq L_vdisk s) s2" using s2(3) by (simp add: rw_started_def)
  ultimately have "same_rest (acq L_vdisk s) ?s4" by (rule same_rest_trans[rotated])
  then have sr: "same_rest s (rel L_vdisk ?s4)" using u4 r by (intro same_rest_critical) simp_all
  then have "calm s (rel L_vdisk ?s4)" by (simp add: same_rest_def)
  then have "vd_ready i (rel L_vdisk ?s4)"
    using r fr calmD(1,2) by (fastforce simp: vd_ready_def vd_rest_def)
  moreover have "bufs ?s4 = rw_data b w s" "img ?s4 = rw_img b w s"
    using s2(6,7) by (simp_all add: rw_started_def rw_data_def rw_img_def)
  ultimately show ?thesis using fin sr by (intro exI[of _ "rel L_vdisk ?s4"]) simp
qed

text \<open>The environment of a process that uses the disk, and the rule for a transfer in it.\<close>

definition disk_envs :: "nat \<Rightarrow> ('z bufst_scheme \<Rightarrow> 'z bufst_scheme) list \<Rightarrow> bool" where
  "disk_envs i e \<longleftrightarrow> (\<forall>f \<in> set e. disk_env i f)"

lemma virtio_disk_rw_wpc:
  assumes "vd_ready i s" "disk_envs i e"
    and "\<And>s' e'. e \<noteq> [] \<Longrightarrow> e' = tl e \<Longrightarrow> disk_envs i e' \<Longrightarrow> same_rest s s' \<Longrightarrow> vd_ready i s' \<Longrightarrow>
      bufs s' = rw_data b w s \<Longrightarrow> img s' = rw_img b w s \<Longrightarrow> Q () s' e'"
    and "\<And>s'. e = [] \<Longrightarrow> img s' = img s \<Longrightarrow> R s'"
  shows "wpc (virtio_disk_rw b w) Q R s e"
proof (cases e)
  case Nil
  then show ?thesis using virtio_disk_rw_Off[OF assms(1), of b w] assms(4) by (auto simp: wpc_def)
next
  case (Cons f fs)
  then have "disk_env i f" "disk_envs i fs" using assms(2) by (simp_all add: disk_envs_def)
  then show ?thesis using virtio_disk_rw_done[OF assms(1), of f b w fs] assms(3) Cons by (auto simp: wpc_def)
qed

section \<open>Blocks\<close>

lemma length_disk_block [simp]: "length (disk_block m n) = BSIZE"
  by (simp add: disk_block_def)

lemma sector_small: "unat n < 2 ^ 31 \<Longrightarrow> unat (sector_of n) = 2 * unat n"
proof -
  assume n: "unat n < 2 ^ 31"
  have "unat (n * 2) = unat n * 2" using n by (simp add: unat_word_ariths)
  moreover have "unat (ucast x :: addr) = unat x" for x :: u32
  proof -
    have "unat x < 2 ^ 64" using unsigned_less[of x, where ?'a = nat] by simp
    then show ?thesis by (simp only: unsigned_ucast_eq) (simp add: take_bit_nat_eq_self)
  qed
  ultimately show ?thesis unfolding sector_of_def by simp
qed

text \<open>Within the size of a disk, a write changes its block and no other.\<close>

lemma disk_block_write:
  assumes "unat n < 2 ^ 31" "unat k < 2 ^ 31" "length bs = BSIZE"
  shows "disk_block (disk_write m n bs) k = (if k = n then bs else disk_block m k)"
proof (cases "k = n")
  case True
  then show ?thesis using assms(3)
    by (auto simp: disk_block_def disk_write_def store_bytes_def intro!: nth_equalityI)
next
  case False
  then have "unat k \<noteq> unat n" by (simp add: word_unat_eq_iff)
  then show ?thesis using False assms(3)
    by (auto simp: disk_block_def disk_write_def store_bytes_def sector_small[OF assms(1)] sector_small[OF assms(2)])
qed

section \<open>Properties\<close>

text \<open>
  C23: one transfer.  The driver hands the device a well-formed request and sleeps; when the device
  has carried it out, the buffer holds the block (or the disk the buffer), no other buffer or
  byte of the disk has changed, every descriptor is free again and so is the lock.
\<close>

theorem virtio_disk_rw_transfers:
  assumes "running i s" "lock_free L_vdisk s" "vd_rest (vd s)" "disk_env i f"
  shows "\<exists>s'. virtio_disk_rw b w s (f # fs) = Ret () s' fs \<and> vd_rest (vd s') \<and> lock_free L_vdisk s' \<and> running i s' \<and>
    bufs s' = (bufs s)(b := (bufs s b)\<lparr>bdisk := 0,
      bdata := if w then bdata (bufs s b) else disk_block (img s) (blockno (bufs s b))\<rparr>) \<and>
    img s' = (if w then disk_write (img s) (blockno (bufs s b)) (bdata (bufs s b)) else img s)"
proof -
  have "vd_ready i s" using assms(1-3) by (simp add: vd_ready_def)
  from virtio_disk_rw_done[OF this assms(4), of b w fs] show ?thesis
    unfolding vd_ready_def rw_data_def rw_img_def by blast
qed

text \<open>The device, the interrupt handler and the scheduler, as one state transformer.\<close>

definition disk_step :: "nat \<Rightarrow> 'z bufst_scheme \<Rightarrow> 'z bufst_scheme" where
  "disk_step i t =
     (let h = unat (avail_ring (vd t) (unat (avail_idx (vd t) - 1) mod NUM));
          b = the (info_b (vd t) h); a = unat (r_sector (dops (vd t) h)) * 512
      in if r_type (dops (vd t) h) = VIRTIO_BLK_T_OUT
         then t\<lparr>procs := (procs t)(i := (procs t i)\<lparr>pstate := RUNNING\<rparr>),
           bufs := (bufs t)(b := (bufs t b)\<lparr>bdisk := 0\<rparr>), img := store_bytes (img t) a (bdata (bufs t b))\<rparr>
         else t\<lparr>procs := (procs t)(i := (procs t i)\<lparr>pstate := RUNNING\<rparr>),
           bufs := (bufs t)(b := (bufs t b)\<lparr>bdisk := 0, bdata := map (img t) [a..<a + BSIZE]\<rparr>)\<rparr>)"

lemma disk_step_env: "disk_env i (disk_step i)"
  unfolding disk_env_def
proof (intro allI impI, elim conjE)
  fix t :: "'z bufst_scheme" and b w n
  assume t: "sched_ready i t" "request (vd t) b w (sector_of n)"
  then obtain i0 where h: "avail_ring (vd t) (unat (avail_idx (vd t) - 1) mod NUM) = of_nat i0" "i0 < NUM"
    "r_type (dops (vd t) i0) = (if w then VIRTIO_BLK_T_OUT else VIRTIO_BLK_T_IN)"
    "r_sector (dops (vd t) i0) = sector_of n" "info_b (vd t) i0 = Some b"
    by (auto simp: request_def chain3_def)
  have w: "r_type (dops (vd t) i0) = VIRTIO_BLK_T_OUT \<longleftrightarrow> w"
    by (simp add: h(3) VIRTIO_BLK_T_OUT_def VIRTIO_BLK_T_IN_def)
  let ?P = "(procs t)(i := (procs t i)\<lparr>pstate := RUNNING\<rparr>)"
  have step: "disk_step i t = (if w
      then t\<lparr>procs := ?P, bufs := (bufs t)(b := (bufs t b)\<lparr>bdisk := 0\<rparr>), img := disk_write (img t) n (bdata (bufs t b))\<rparr>
      else t\<lparr>procs := ?P, bufs := (bufs t)(b := (bufs t b)\<lparr>bdisk := 0, bdata := disk_block (img t) n\<rparr>)\<rparr>)"
    unfolding disk_step_def Let_def h(1) small_u16[OF h(2)] h(4,5) w by (simp add: disk_write_def disk_block_def)
  have r: "resumed i (t\<lparr>procs := ?P\<rparr>)" "same_rest t (t\<lparr>procs := ?P\<rparr>)"
    using t(1) by (auto simp: resumed_def sched_ready_def own_lock_only_def intro: same_rest_procs)
  show "resumed i (disk_step i t) \<and> same_rest t (disk_step i t) \<and> desc (vd (disk_step i t)) = desc (vd t) \<and>
      vfree (vd (disk_step i t)) = vfree (vd t) \<and>
      bufs (disk_step i t) = (bufs t)(b := (bufs t b)\<lparr>bdisk := 0, bdata := if w then bdata (bufs t b) else disk_block (img t) n\<rparr>) \<and>
      img (disk_step i t) = (if w then disk_write (img t) n (bdata (bufs t b)) else img t)"
    using r by (cases w) (simp_all add: step resumed_def own_lock_only_def same_rest_def)
qed

section \<open>The interrupt handler\<close>

text \<open>The completed requests that the handler has not seen: their heads, in the order of completion.\<close>

definition completed :: "vdisk \<Rightarrow> nat list" where
  "completed d = map (\<lambda>k. unat (usedq_id d ((unat (used_idx d) + k) mod NUM))) [0..<unat (usedq_idx d - used_idx d)]"

text \<open>What the handler does to the buffers: the owner of each completed chain gets its buffer back.\<close>

definition give_back :: "vdisk \<Rightarrow> nat list \<Rightarrow> (nat \<Rightarrow> buf) \<Rightarrow> nat \<Rightarrow> buf" where
  "give_back d hs B = fold (\<lambda>h B. B(the (info_b d h) := (B (the (info_b d h)))\<lparr>bdisk := 0\<rparr>)) hs B"

lemma completed_Cons:
  assumes "used_idx d \<noteq> usedq_idx d"
  shows "completed d = unat (usedq_id d (unat (used_idx d) mod NUM)) # completed (d\<lparr>used_idx := used_idx d + 1\<rparr>)"
proof -
  define m where "m = unat (usedq_idx d - (used_idx d + 1))"
  have "usedq_idx d - (used_idx d + 1) \<noteq> - 1" using assms by (simp add: diff_eq_eq diff_diff_eq2)
  then have "usedq_idx d - (used_idx d + 1) + 1 \<noteq> 0" by (metis add_eq_0_iff2)
  then have "unat (usedq_idx d - (used_idx d + 1) + 1) = Suc m"
    using unatSuc[of "usedq_idx d - (used_idx d + 1)"] by (simp add: m_def add.commute)
  moreover have "usedq_idx d - (used_idx d + 1) + 1 = usedq_idx d - used_idx d" by (simp add: diff_add_eq_diff_diff_swap)
  ultimately have n: "unat (usedq_idx d - used_idx d) = Suc m" by simp
  have ix: "(unat (used_idx d + 1) + k) mod NUM = (unat (used_idx d) + Suc k) mod NUM" for k
  proof -
    have "unat (used_idx d + 1) = (unat (used_idx d) + 1) mod 2 ^ 16" by (simp add: unat_word_ariths)
    then have "(unat (used_idx d + 1) + k) mod NUM = (((unat (used_idx d) + 1) mod 2 ^ 16) mod NUM + k) mod NUM"
      by (simp add: mod_add_left_eq)
    also have "((unat (used_idx d) + 1) mod 2 ^ 16) mod NUM = (unat (used_idx d) + 1) mod NUM"
      by (rule mod_mod_cancel) simp
    finally show ?thesis by (simp add: mod_add_left_eq)
  qed
  have "[0..<Suc m] = 0 # map Suc [0..<m]" by (simp add: upt_conv_Cons map_Suc_upt del: upt_Suc)
  then show ?thesis unfolding completed_def n by (simp add: m_def[symmetric] ix del: upt_Suc)
qed

lemma completed_Nil: "used_idx d = usedq_idx d \<longleftrightarrow> completed d = []"
proof
  show "used_idx d = usedq_idx d \<Longrightarrow> completed d = []" by (simp add: completed_def)
  show "completed d = [] \<Longrightarrow> used_idx d = usedq_idx d" using completed_Cons[of d] by fastforce
qed

lemma vio_complete_loop:
  assumes "under L_vdisk i s" "\<forall>h \<in> set (completed (vd s)). info_status (vd s) h = 0 \<and> info_b (vd s) h \<noteq> None"
    "length (completed (vd s)) < n"
  shows "\<exists>P d'. loop_fuel n (\<lambda>_. vio_complete) () s e =
      Ret () (s\<lparr>bufs := give_back (vd s) (completed (vd s)) (bufs s), procs := P, vd := d'\<rparr>) e \<and>
    completed d' = []"
  using assms
proof (induction "completed (vd s)" arbitrary: s n)
  case Nil
  then obtain j where n: "n = Suc j" by (cases n) auto
  have "vio_complete s e = Ret (Inr ()) s e"
    using Nil.hyps completed_Nil[of "vd s"] by (simp add: vio_complete_def bnd_def)
  then have "loop_fuel n (\<lambda>_. vio_complete) () s e = Ret () (s\<lparr>bufs := bufs s, procs := procs s, vd := vd s\<rparr>) e"
    by (simp add: n bnd_def)
  then show ?case using Nil.hyps[symmetric]
    by (intro exI[of _ "procs s"] exI[of _ "vd s"]) (simp add: give_back_def)
next
  case (Cons h hs)
  obtain j where n: "n = Suc j" using Cons.prems(3) by (cases n) auto
  have ne: "used_idx (vd s) \<noteq> usedq_idx (vd s)" using Cons.hyps(2) completed_Nil[of "vd s"] by auto
  let ?d = "(vd s)\<lparr>used_idx := used_idx (vd s) + 1\<rparr>"
  have h: "h = unat (usedq_id (vd s) (unat (used_idx (vd s)) mod NUM))" "hs = completed ?d"
    using completed_Cons[OF ne] Cons.hyps(2) by simp_all
  have "h \<in> set (completed (vd s))" using Cons.hyps(2)[symmetric] by simp
  then obtain b where b: "info_status (vd s) h = 0" "info_b (vd s) h = Some b" using Cons.prems(2) by blast
  let ?B = "(bufs s)(b := (bufs s b)\<lparr>bdisk := 0\<rparr>)" and ?P = "woken (Some i) (Some (C_buf b)) (procs s)"
  let ?s = "s\<lparr>bufs := ?B, procs := ?P, vd := ?d\<rparr>"
  have u: "under L_vdisk i (s\<lparr>bufs := ?B\<rparr>)" using Cons.prems(1) by simp
  have "vio_complete s e = Ret (Inl ()) ?s e"
    using ne b under_wakeup[OF u] by (simp add: vio_complete_def bnd_def thn_def h(1)[symmetric])
  then have step: "loop_fuel n (\<lambda>_. vio_complete) () s e = loop_fuel j (\<lambda>_. vio_complete) () ?s e"
    by (simp add: n bnd_def)
  have same: "give_back ?d xs B = give_back (vd s) xs B" for xs B by (simp add: give_back_def)
  have "\<exists>P d'. loop_fuel j (\<lambda>_. vio_complete) () ?s e =
      Ret () (?s\<lparr>bufs := give_back (vd ?s) (completed (vd ?s)) (bufs ?s), procs := P, vd := d'\<rparr>) e \<and> completed d' = []"
    using Cons.hyps(1)[of ?s j] Cons.prems h Cons.hyps(2)[symmetric] n by simp
  then obtain P d' where "loop_fuel j (\<lambda>_. vio_complete) () ?s e =
      Ret () (s\<lparr>bufs := give_back (vd s) hs ?B, procs := P, vd := d'\<rparr>) e" "completed d' = []"
    using h(2) same by auto
  then show ?case unfolding step Cons.hyps(2)[symmetric] using b by (auto simp: give_back_def)
qed

text \<open>
  C24: the disk interrupt handler ends with every completed request taken off the ring, in the
  order of completion, and the buffer of each given back to its owner; it touches no other buffer.
\<close>

theorem virtio_disk_intr_completes:
  assumes "running i s" "lock_free L_vdisk s"
    "\<forall>h \<in> set (completed (vd s)). info_status (vd s) h = 0 \<and> info_b (vd s) h \<noteq> None"
  shows "\<exists>s'. virtio_disk_intr s e = Ret () s' e \<and> completed (vd s') = [] \<and> lock_free L_vdisk s' \<and>
    bufs s' = give_back (vd s) (completed (vd s)) (bufs s)"
proof -
  let ?m = "(vmmio (vd s))(VIRTIO_MMIO_INTERRUPT_ACK := vmmio (vd s) VIRTIO_MMIO_INTERRUPT_STATUS AND 0x3)"
  let ?a = "(acq L_vdisk s)\<lparr>vd := (vd s)\<lparr>vmmio := ?m\<rparr>\<rparr>"
  have u: "under L_vdisk i ?a" using under_acq[OF assms(1,2)] by simp
  have c: "completed (vd ?a) = completed (vd s)" by (simp add: completed_def)
  have g: "give_back (vd ?a) xs B = give_back (vd s) xs B" for xs B by (simp add: give_back_def)
  have l: "length (completed (vd ?a)) < Suc (unat (usedq_idx (vd ?a) - used_idx (vd ?a)))" by (simp add: completed_def)
  obtain P d' where 1: "loop_fuel (Suc (unat (usedq_idx (vd ?a) - used_idx (vd ?a)))) (\<lambda>_. vio_complete) () ?a e =
      Ret () (?a\<lparr>bufs := give_back (vd s) (completed (vd s)) (bufs s), procs := P, vd := d'\<rparr>) e" "completed d' = []"
    using vio_complete_loop[OF u _ l, of e] assms(3) unfolding c g by auto
  let ?t = "?a\<lparr>bufs := give_back (vd s) (completed (vd s)) (bufs s), procs := P, vd := d'\<rparr>"
  have u': "under L_vdisk i ?t" using u by simp
  have "vio_drain ?a e = Ret () ?t e" unfolding vio_drain_def by (rule 1(1))
  then have "virtio_disk_intr s e = Ret () (rel L_vdisk ?t) e"
    using assms(2) under_release[OF u', of e]
    by (simp add: virtio_disk_intr_def thn_def bnd_def acquire_Ret lock_freeD)
  then show ?thesis using 1(2) assms(2) by (intro exI[of _ "rel L_vdisk ?t"]) simp
qed

section \<open>Examples\<close>

definition zero_buf :: buf where
  "zero_buf = \<lparr>bvalid = 0, bdisk = 0, bdev = 0, blockno = 0, refcnt = 0, bprev = 0, bnext = 0,
     bdata = replicate BSIZE 0\<rparr>"

definition zero_vdisk :: vdisk where
  "zero_vdisk = \<lparr>desc = (\<lambda>_. null_desc), avail_idx = 0, avail_ring = (\<lambda>_. 0), usedq_idx = 0, usedq_id = (\<lambda>_. 0),
     vfree = (\<lambda>_. True), used_idx = 0, info_b = (\<lambda>_. None), info_status = (\<lambda>_. 0),
     dops = (\<lambda>_. \<lparr>r_type = 0, r_reserved = 0, r_sector = 0\<rparr>), vmmio = (\<lambda>_. 0)\<rparr>"

text \<open>Process 2 runs, on a machine at rest.\<close>

definition disk_example :: bufst where
  "disk_example = \<lparr>hart = 0, csr = (\<lambda>_. zero_csrs),
     cpus = (\<lambda>_. \<lparr>cproc = Some 2, noff = 0, intena = False\<rparr>),
     locks = (\<lambda>_. \<lparr>locked = False, lname = [], lcpu = None\<rparr>),
     thr = [], panicking = False, panicked = False, mem = (\<lambda>_. 0), freelist = 0, kend = KERNBASE,
     procs = (\<lambda>_. zero_proc), initproc = None, nextpid = 1, ticks = 0,
     tframes = (\<lambda>_. zero_trapframe), syms = (\<lambda>_. 0),
     slocks = (\<lambda>_. \<lparr>slocked = False, slname = [], slpid = 0\<rparr>), uart = zero_uartdev,
     cons = \<lparr>cons_buf = (\<lambda>_. 0), cons_r = 0, cons_w = 0, cons_e = 0\<rparr>, devsw = (\<lambda>_. (None, None)),
     pipes = (\<lambda>_. zero_pipe), bufs = (\<lambda>b. zero_buf\<lparr>blockno := of_nat b\<rparr>), vd = zero_vdisk, img = (\<lambda>i. of_nat i)\<rparr>"

lemma disk_example_ready: "running 2 disk_example" "lock_free L disk_example" "vd_rest (vd disk_example)"
  by (simp_all add: disk_example_def running_def plocks_free_def base_defs vd_rest_def zero_vdisk_def)

theorem virtio_disk_rw_transfers_witness:
  "\<exists>s'. virtio_disk_rw 5 False disk_example [disk_step 2] = Ret () s' [] \<and>
    bdata (bufs s' 5) = map of_nat [5120..<6144] \<and> img s' = img disk_example"
proof -
  have "blockno (bufs disk_example 5) = 5" "img disk_example = (\<lambda>i. of_nat i)" by (simp_all add: disk_example_def)
  moreover have "unat (sector_of 5) = 10" by (simp add: sector_of_def)
  ultimately show ?thesis
    using virtio_disk_rw_transfers[OF disk_example_ready disk_step_env, of 5 False "[]"]
    by (auto simp: disk_block_def)
qed

text \<open>Two requests, for buffers 4 and 7, have been completed.\<close>

definition intr_example :: bufst where
  "intr_example = disk_example\<lparr>vd := zero_vdisk\<lparr>usedq_idx := 2, usedq_id := (\<lambda>_. 0)(1 := 3),
     info_b := [0 \<mapsto> 4, 3 \<mapsto> 7]\<rparr>, bufs := (\<lambda>_. zero_buf\<lparr>bdisk := 1\<rparr>)\<rparr>"

theorem virtio_disk_intr_completes_witness:
  "\<exists>s'. virtio_disk_intr intr_example [] = Ret () s' [] \<and> completed (vd s') = [] \<and>
    bdisk (bufs s' 4) = 0 \<and> bdisk (bufs s' 7) = 0 \<and> bdisk (bufs s' 5) = 1"
proof -
  have c: "completed (vd intr_example) = [0, 3]"
    by (simp add: intr_example_def zero_vdisk_def completed_def upt_rec)
  have b: "give_back (vd intr_example) [0, 3] (bufs intr_example) =
      (bufs intr_example)(4 := zero_buf, 7 := zero_buf)"
    by (simp add: intr_example_def zero_vdisk_def give_back_def zero_buf_def)
  have r: "running 2 intr_example" "lock_free L_vdisk intr_example"
    using disk_example_ready by (simp_all add: intr_example_def)
  have "\<forall>h \<in> set (completed (vd intr_example)). info_status (vd intr_example) h = 0 \<and> info_b (vd intr_example) h \<noteq> None"
    unfolding c by (simp add: intr_example_def zero_vdisk_def)
  from virtio_disk_intr_completes[OF r this, of "[]"] show ?thesis
    unfolding c b by (auto simp: intr_example_def zero_buf_def)
qed

end
