(* ===== verification/Bio.thy ===== *)
theory Bio
  imports Virtio
begin

text \<open>
  kernel/bio.c: the buffer cache.  The buffers are linked in the order of their last use; a block
  that is not cached takes over the least recently used buffer that nobody references.
\<close>

section \<open>Operations\<close>

text \<open>The head of the list is one more buffer, whose data is not used.\<close>

abbreviation HEAD :: nat where "HEAD \<equiv> 30"

definition link_front :: "nat \<Rightarrow> (nat \<Rightarrow> buf) \<Rightarrow> nat \<Rightarrow> buf" where
  "link_front b B0 =
     (let B1 = B0(b := (B0 b)\<lparr>bnext := bnext (B0 HEAD)\<rparr>);
          B2 = B1(b := (B1 b)\<lparr>bprev := HEAD\<rparr>);
          B3 = B2(bnext (B2 HEAD) := (B2 (bnext (B2 HEAD)))\<lparr>bprev := b\<rparr>)
      in B3(HEAD := (B3 HEAD)\<lparr>bnext := b\<rparr>))"

definition unlink :: "nat \<Rightarrow> (nat \<Rightarrow> buf) \<Rightarrow> nat \<Rightarrow> buf" where
  "unlink b B0 =
     (let B1 = B0(bnext (B0 b) := (B0 (bnext (B0 b)))\<lparr>bprev := bprev (B0 b)\<rparr>)
      in B1(bprev (B1 b) := (B1 (bprev (B1 b)))\<lparr>bnext := bnext (B1 b)\<rparr>))"

definition upd_bufs :: "((nat \<Rightarrow> buf) \<Rightarrow> nat \<Rightarrow> buf) \<Rightarrow> ('z bufst_scheme, unit) kop" where
  "upd_bufs f = upd (\<lambda>s. s\<lparr>bufs := f (bufs s)\<rparr>)"

lemma upd_bufs_app [kop_simps, simp]: "upd_bufs f s e = Ret () (s\<lparr>bufs := f (bufs s)\<rparr>) e"
  by (simp add: upd_bufs_def)

definition binit :: "('z bufst_scheme, unit) kop" where
  "binit =
     thn (initlock L_bcache ''bcache'') (
     thn (upd_bufs (\<lambda>B. B(HEAD := (B HEAD)\<lparr>bprev := HEAD, bnext := HEAD\<rparr>))) (
     foreach [0..<NBUF] (\<lambda>b.
       thn (initsleeplock (SL_buf b) ''buffer'')
       (upd_bufs (link_front b)))))"

text \<open>
  A search along the list, forwards or backwards, from the head back to the head.  A list of
  \<open>NBUF\<close> buffers is through in \<open>NBUF + 1\<close> rounds; one that does not lead back to the head by then
  never does, and the search does not end.
\<close>

definition scan_round :: "(buf \<Rightarrow> nat) \<Rightarrow> (buf \<Rightarrow> bool) \<Rightarrow> nat \<Rightarrow> ('z bufst_scheme, nat + nat option) kop" where
  "scan_round step hit b =
     (if b = HEAD then ret (Inr None)
      else bnd (rd (\<lambda>s. bufs s b)) (\<lambda>k.
        ret (if hit k then Inr (Some b) else Inl (step k))))"

definition bscan :: "(buf \<Rightarrow> nat) \<Rightarrow> (buf \<Rightarrow> bool) \<Rightarrow> ('z bufst_scheme, nat option) kop" where
  "bscan step hit =
     bnd (rd (\<lambda>s. step (bufs s HEAD))) (loop_fuel (Suc NBUF) (scan_round step hit))"

definition bget :: "u32 \<Rightarrow> u32 \<Rightarrow> ('z bufst_scheme, nat) kop" where
  "bget dev bno =
     thn (acquire L_bcache) (
     bnd (bscan bnext (\<lambda>k. bdev k = dev \<and> blockno k = bno)) (\<lambda>r. case r of
       Some b \<Rightarrow>
         thn (upd_buf b (\<lambda>k. k\<lparr>refcnt := refcnt k + 1\<rparr>)) (
         thn (release L_bcache) (
         thn (acquiresleep (SL_buf b))
         (ret b)))
     | None \<Rightarrow>
         bnd (bscan bprev (\<lambda>k. refcnt k = 0)) (\<lambda>r. case r of
           Some b \<Rightarrow>
             thn (upd_buf b (\<lambda>k. k\<lparr>bdev := dev, blockno := bno, bvalid := 0, refcnt := 1\<rparr>)) (
             thn (release L_bcache) (
             thn (acquiresleep (SL_buf b))
             (ret b)))
         | None \<Rightarrow> panic ''bget: no buffers'')))"

definition bread :: "u32 \<Rightarrow> u32 \<Rightarrow> ('z bufst_scheme, nat) kop" where
  "bread dev bno =
     bnd (bget dev bno) (\<lambda>b.
     bnd (rd (\<lambda>s. bvalid (bufs s b))) (\<lambda>v.
     thn (if v = 0 then
            thn (virtio_disk_rw b False)
            (upd_buf b (\<lambda>k. k\<lparr>bvalid := 1\<rparr>))
          else ret ())
     (ret b)))"

definition bwrite :: "nat \<Rightarrow> ('z bufst_scheme, unit) kop" where
  "bwrite b =
     bnd (holdingsleep (SL_buf b)) (\<lambda>h.
     if \<not> h then panic ''bwrite'' else
     virtio_disk_rw b True)"

definition brelse :: "nat \<Rightarrow> ('z bufst_scheme, unit) kop" where
  "brelse b =
     bnd (holdingsleep (SL_buf b)) (\<lambda>h.
     if \<not> h then panic ''brelse'' else
     thn (releasesleep (SL_buf b)) (
     thn (acquire L_bcache) (
     thn (upd_buf b (\<lambda>k. k\<lparr>refcnt := refcnt k - 1\<rparr>)) (
     bnd (rd (\<lambda>s. refcnt (bufs s b))) (\<lambda>r.
     thn (if r = 0 then upd_bufs (\<lambda>B. link_front b (unlink b B)) else ret ())
     (release L_bcache))))))"

definition bpin :: "nat \<Rightarrow> ('z bufst_scheme, unit) kop" where
  "bpin b =
     thn (acquire L_bcache) (
     thn (upd_buf b (\<lambda>k. k\<lparr>refcnt := refcnt k + 1\<rparr>))
     (release L_bcache))"

definition bunpin :: "nat \<Rightarrow> ('z bufst_scheme, unit) kop" where
  "bunpin b =
     thn (acquire L_bcache) (
     thn (upd_buf b (\<lambda>k. k\<lparr>refcnt := refcnt k - 1\<rparr>))
     (release L_bcache))"

section \<open>The list in the order of last use\<close>

text \<open>
  \<open>chain N xs\<close>: following \<open>N\<close> from the head leads through \<open>xs\<close> back to the head.  The backward
  links form the chain of the reversed list.
\<close>

definition chain_of :: "(nat \<Rightarrow> nat) \<Rightarrow> nat list \<Rightarrow> bool" where
  "chain_of N xs \<longleftrightarrow> map N (HEAD # xs) = xs @ [HEAD]"

definition lru :: "(nat \<Rightarrow> buf) \<Rightarrow> nat list \<Rightarrow> bool" where
  "lru B xs \<longleftrightarrow> chain_of (\<lambda>b. bnext (B b)) xs \<and> chain_of (\<lambda>b. bprev (B b)) (rev xs) \<and>
     distinct xs \<and> HEAD \<notin> set xs"

lemma chain_of_split:
  "chain_of N (us @ b # vs) \<longleftrightarrow> map N (HEAD # us) = us @ [b] \<and> map N (b # vs) = vs @ [HEAD]"
  unfolding chain_of_def
  using append_eq_append_conv[of "map N (HEAD # us)" "us @ [b]" "map N (b # vs)" "vs @ [HEAD]"] by simp

lemma chain_of_at:
  assumes "chain_of N (us @ b # vs)"
  shows "N (last (HEAD # us)) = b" "N b = hd (vs @ [HEAD])"
proof -
  have m: "map N (HEAD # us) = us @ [b]" "map N (b # vs) = vs @ [HEAD]"
    using assms unfolding chain_of_split by blast+
  have "last (map N (HEAD # us)) = N (last (HEAD # us))" by (rule last_map) simp
  then show "N (last (HEAD # us)) = b" unfolding m(1) by simp
  show "N b = hd (vs @ [HEAD])" using arg_cong[OF m(2), of hd] by simp
qed

lemma chain_of_unlink:
  assumes "chain_of N (us @ b # vs)" "distinct (us @ b # vs)" "HEAD \<notin> set (us @ b # vs)"
  shows "chain_of (N(last (HEAD # us) := N b)) (us @ vs)"
proof -
  let ?p = "last (HEAD # us)" and ?q = "butlast (HEAD # us)"
  have m: "map N (HEAD # us) = us @ [b]" "map N (b # vs) = vs @ [HEAD]"
    using assms(1) unfolding chain_of_split by blast+
  have q: "HEAD # us = ?q @ [?p]" by (rule append_butlast_last_id[symmetric]) simp
  have d: "distinct (HEAD # us)" "?p \<notin> set vs"
    using assms(2,3) by (auto dest: last_in_set)
  have "distinct (?q @ [?p])" using d(1) unfolding q[symmetric] .
  then have n: "?p \<notin> set ?q" by simp
  have "butlast (map N (HEAD # us)) = us" unfolding m(1) by simp
  then have "map N ?q = us" by (simp only: map_butlast)
  then have "map (N(?p := N b)) (?q @ [?p]) = us @ [N b]"
    using n by (simp only: map_append map_fun_upd list.map fun_upd_same simp_thms)
  then have 1: "map (N(?p := N b)) (HEAD # us) = us @ [N b]" unfolding q[symmetric] .
  have "map N vs = tl (vs @ [HEAD])" using arg_cong[OF m(2), of tl] by simp
  then have 2: "map (N(?p := N b)) vs = tl (vs @ [HEAD])" using d(2) by (simp only: map_fun_upd simp_thms)
  have 3: "us @ N b # tl (vs @ [HEAD]) = us @ vs @ [HEAD]" unfolding chain_of_at(2)[OF assms(1)] by simp
  have "map (N(?p := N b)) ((HEAD # us) @ vs) = us @ N b # tl (vs @ [HEAD])"
    unfolding map_append 1 2 by simp
  then show ?thesis unfolding chain_of_def 3 by simp
qed

lemma chain_of_front:
  assumes "chain_of N us" "b \<notin> set us" "b \<noteq> HEAD" "HEAD \<notin> set us"
  shows "chain_of (N(b := N HEAD, HEAD := b)) (b # us)"
  using assms by (simp add: chain_of_def map_fun_upd)

lemma chain_of_back:
  assumes "chain_of N us" "b \<notin> set us" "b \<noteq> HEAD" "distinct us" "HEAD \<notin> set us"
  shows "chain_of (N(b := HEAD, last (HEAD # us) := b)) (us @ [b])"
proof -
  let ?p = "last (HEAD # us)" and ?q = "butlast (HEAD # us)"
  have q: "HEAD # us = ?q @ [?p]" by (rule append_butlast_last_id[symmetric]) simp
  have "distinct (?q @ [?p])" using assms(4,5) unfolding q[symmetric] by simp
  then have n: "?p \<notin> set ?q" by simp
  have b: "b \<notin> set ?q" "b \<noteq> ?p" using assms(2,3) by (auto dest: in_set_butlastD split: if_splits)
  have "butlast (map N (HEAD # us)) = us" using assms(1) by (simp add: chain_of_def)
  then have "map N ?q = us" by (simp only: map_butlast)
  then have "map (N(b := HEAD, ?p := b)) (?q @ [?p]) = us @ [b]"
    using n b(1) by (simp only: map_append map_fun_upd list.map fun_upd_same simp_thms)
  then have "map (N(b := HEAD, ?p := b)) (HEAD # us) = us @ [b]" unfolding q[symmetric] .
  moreover have "(N(b := HEAD, ?p := b)) b = HEAD" using b(2) by simp
  ultimately show ?thesis by (simp add: chain_of_def)
qed

text \<open>The two list operations on lists of buffers.\<close>

lemma unlink_lru:
  assumes "lru B (us @ b # vs)"
  shows "lru (unlink b B) (us @ vs)"
    "bnext (unlink b B b) = bnext (B b)"
proof -
  have l: "chain_of (\<lambda>b. bnext (B b)) (us @ b # vs)" "chain_of (\<lambda>b. bprev (B b)) (rev vs @ b # rev us)"
    "distinct (us @ b # vs)" "HEAD \<notin> set (us @ b # vs)"
    using assms by (simp_all add: lru_def)
  have p: "last (HEAD # us) = bprev (B b)"
    using chain_of_at(2)[OF l(2)] by (cases us rule: rev_cases) simp_all
  have n: "last (HEAD # rev vs) = bnext (B b)"
    using chain_of_at(2)[OF l(1)] by (cases vs) simp_all
  have ne: "bnext (B b) \<noteq> b" "bprev (B b) \<noteq> b"
    using l(3,4) p n last_in_set[of us] last_in_set[of "rev vs"] by (auto split: if_splits)
  have u: "(\<lambda>x. bnext (unlink b B x)) = (\<lambda>b. bnext (B b))(bprev (B b) := bnext (B b))"
    "(\<lambda>x. bprev (unlink b B x)) = (\<lambda>b. bprev (B b))(bnext (B b) := bprev (B b))"
    using ne by (auto simp: unlink_def Let_def fun_eq_iff)
  have "chain_of (\<lambda>x. bnext (unlink b B x)) (us @ vs)"
    using chain_of_unlink[OF l(1,3,4)] unfolding u p by simp
  moreover have "chain_of (\<lambda>x. bprev (unlink b B x)) (rev vs @ rev us)"
    using chain_of_unlink[OF l(2)] l(3,4) unfolding u n by auto
  ultimately show "lru (unlink b B) (us @ vs)" using l(3,4) by (simp add: lru_def)
  show "bnext (unlink b B b) = bnext (B b)" using ne by (auto simp: unlink_def Let_def)
qed

lemma link_front_lru:
  assumes "lru B xs" "b \<notin> set xs" "b \<noteq> HEAD"
  shows "lru (link_front b B) (b # xs)"
proof -
  have l: "chain_of (\<lambda>b. bnext (B b)) xs" "chain_of (\<lambda>b. bprev (B b)) (rev xs)" "distinct xs" "HEAD \<notin> set xs"
    using assms(1) by (simp_all add: lru_def)
  have n: "last (HEAD # rev xs) = bnext (B HEAD)"
    using l(1) by (cases xs) (simp_all add: chain_of_def)
  have ne: "bnext (B HEAD) \<noteq> b"
    using n assms(2,3) last_in_set[of "rev xs"] by (auto split: if_splits)
  have u: "(\<lambda>x. bnext (link_front b B x)) = (\<lambda>b. bnext (B b))(b := bnext (B HEAD), HEAD := b)"
    "(\<lambda>x. bprev (link_front b B x)) = (\<lambda>b. bprev (B b))(b := HEAD, bnext (B HEAD) := b)"
    using ne assms(3) by (auto simp: link_front_def Let_def fun_eq_iff)
  show ?thesis unfolding lru_def u
    using chain_of_front[OF l(1) assms(2,3) l(4)] chain_of_back[OF l(2), of b] l(3,4) assms(2,3)
    unfolding n by simp
qed

lemma move_front_lru:
  assumes "lru B (us @ b # vs)"
  shows "lru (link_front b (unlink b B)) (b # us @ vs)"
  using unlink_lru(1)[OF assms] assms by (intro link_front_lru) (auto simp: lru_def)

text \<open>The list operations change nothing but the links.\<close>

lemma links_only [simp]:
  "bvalid (link_front b B x) = bvalid (B x)" "bdisk (link_front b B x) = bdisk (B x)"
  "bdev (link_front b B x) = bdev (B x)" "blockno (link_front b B x) = blockno (B x)"
  "refcnt (link_front b B x) = refcnt (B x)" "bdata (link_front b B x) = bdata (B x)"
  "bvalid (unlink b B x) = bvalid (B x)" "bdisk (unlink b B x) = bdisk (B x)"
  "bdev (unlink b B x) = bdev (B x)" "blockno (unlink b B x) = blockno (B x)"
  "refcnt (unlink b B x) = refcnt (B x)" "bdata (unlink b B x) = bdata (B x)"
  by (simp_all add: link_front_def unlink_def Let_def)

section \<open>Searching the list\<close>

lemma scan_suffix:
  assumes "map (\<lambda>b. step (bufs s b)) ys = tl (ys @ [HEAD])" "HEAD \<notin> set ys" "length ys \<le> n"
  shows "loop_fuel (Suc n) (scan_round step hit) (hd (ys @ [HEAD])) s e = Ret (find (\<lambda>b. hit (bufs s b)) ys) s e"
  using assms
proof (induction ys arbitrary: n)
  case Nil
  then show ?case by (simp add: scan_round_def bnd_def)
next
  case (Cons b ys)
  then obtain m where n: "n = Suc m" by (cases n) auto
  have b: "b \<noteq> HEAD" "step (bufs s b) = hd (ys @ [HEAD])"
    using Cons.prems(1,2) by (auto, metis hd_Cons_tl hd_append2 list.sel(1) append_Nil list.distinct(1) append_is_Nil_conv)
  have tl: "map (\<lambda>b. step (bufs s b)) ys = tl (ys @ [HEAD])"
    using Cons.prems(1) by (cases ys) auto
  show ?case
  proof (cases "hit (bufs s b)")
    case True
    then have "scan_round step hit b s e = Ret (Inr (Some b)) s e" using b by (simp add: scan_round_def bnd_def)
    then show ?thesis using True by (simp add: bnd_def)
  next
    case False
    then have "scan_round step hit b s e = Ret (Inl (hd (ys @ [HEAD]))) s e"
      using b by (simp add: scan_round_def bnd_def)
    then have "loop_fuel (Suc n) (scan_round step hit) b s e = loop_fuel n (scan_round step hit) (hd (ys @ [HEAD])) s e"
      by (simp add: bnd_def)
    then show ?thesis using Cons.IH[OF tl, of m] Cons.prems False n by simp
  qed
qed

lemma bscan_find:
  assumes "chain_of (\<lambda>b. step (bufs s b)) xs" "HEAD \<notin> set xs" "length xs \<le> NBUF"
  shows "bscan step hit s e = Ret (find (\<lambda>b. hit (bufs s b)) xs) s e"
proof -
  have h: "step (bufs s HEAD) = hd (xs @ [HEAD])" "map (\<lambda>b. step (bufs s b)) xs = tl (xs @ [HEAD])"
    using assms(1) unfolding chain_of_def by (metis list.sel(1,3) list.simps(9))+
  have "bscan step hit s e = loop_fuel (Suc NBUF) (scan_round step hit) (step (bufs s HEAD)) s e"
    unfolding bscan_def by (simp only: bnd_def rd_app outcome.case)
  then show ?thesis unfolding h(1) using scan_suffix[OF h(2) assms(2,3)] by simp
qed

section \<open>The cache as a view of the disk\<close>

text \<open>
  What the cache relies on between operations.  A buffer that nobody references may be given to
  another block, so it holds nothing that is not on the disk.
\<close>

definition on_disk :: "u32 \<Rightarrow> bool" where
  "on_disk n \<longleftrightarrow> unat n < 2 ^ 31"

definition bc_wf :: "(nat \<Rightarrow> buf) \<Rightarrow> (nat \<Rightarrow> byte) \<Rightarrow> bool" where
  "bc_wf B m \<longleftrightarrow> (\<exists>xs. lru B xs \<and> set xs = {..<NBUF}) \<and>
     (\<forall>b < NBUF. length (bdata (B b)) = BSIZE \<and> (bvalid (B b) \<noteq> 0 \<longrightarrow> bdev (B b) = 1 \<and> on_disk (blockno (B b)))) \<and>
     (\<forall>b < NBUF. \<forall>c < NBUF. bdev (B b) = 1 \<and> bdev (B c) = 1 \<and> blockno (B b) = blockno (B c) \<longrightarrow> b = c) \<and>
     (\<forall>b < NBUF. refcnt (B b) = 0 \<and> bvalid (B b) \<noteq> 0 \<longrightarrow> bdata (B b) = disk_block m (blockno (B b)))"

text \<open>The content of a block: the cached copy, or what is on the disk.\<close>

definition blk :: "'z bufst_scheme \<Rightarrow> u32 \<Rightarrow> byte list" where
  "blk s n = (case find (\<lambda>b. bvalid (bufs s b) \<noteq> 0 \<and> blockno (bufs s b) = n) [0..<NBUF] of
     Some b \<Rightarrow> bdata (bufs s b) | None \<Rightarrow> disk_block (img s) n)"

lemma bc_wfD:
  assumes "bc_wf B m"
  shows "\<exists>xs. lru B xs \<and> set xs = {..<NBUF}"
    "b < NBUF \<Longrightarrow> length (bdata (B b)) = BSIZE" "b < NBUF \<Longrightarrow> bvalid (B b) \<noteq> 0 \<Longrightarrow> bdev (B b) = 1"
    "b < NBUF \<Longrightarrow> c < NBUF \<Longrightarrow> bdev (B b) = 1 \<Longrightarrow> bdev (B c) = 1 \<Longrightarrow> blockno (B b) = blockno (B c) \<Longrightarrow> b = c"
    "b < NBUF \<Longrightarrow> refcnt (B b) = 0 \<Longrightarrow> bvalid (B b) \<noteq> 0 \<Longrightarrow> bdata (B b) = disk_block m (blockno (B b))"
    "b < NBUF \<Longrightarrow> bvalid (B b) \<noteq> 0 \<Longrightarrow> on_disk (blockno (B b))"
  using assms unfolding bc_wf_def by blast+

lemma blk_cached:
  assumes "bc_wf (bufs s) (img s)" "b < NBUF" "bvalid (bufs s b) \<noteq> 0"
  shows "blk s (blockno (bufs s b)) = bdata (bufs s b)"
proof -
  let ?P = "\<lambda>c. bvalid (bufs s c) \<noteq> 0 \<and> blockno (bufs s c) = blockno (bufs s b)"
  have "find ?P [0..<NBUF] = Some b"
  proof (cases "find ?P [0..<NBUF]")
    case None
    then show ?thesis using assms(2,3) by (auto simp: find_None_iff)
  next
    case (Some c)
    then have "?P c" "c < NBUF" by (auto simp: find_Some_iff)
    then have "c = b" using bc_wfD(3,4)[OF assms(1)] assms(2,3) by blast
    then show ?thesis using Some by simp
  qed
  then show ?thesis by (simp add: blk_def)
qed

lemma blk_uncached:
  assumes "\<And>b. b < NBUF \<Longrightarrow> bvalid (bufs s b) \<noteq> 0 \<Longrightarrow> blockno (bufs s b) \<noteq> n"
  shows "blk s n = disk_block (img s) n"
proof -
  have "find (\<lambda>b. bvalid (bufs s b) \<noteq> 0 \<and> blockno (bufs s b) = n) [0..<NBUF] = None"
    using assms by (auto simp: find_None_iff)
  then show ?thesis by (simp add: blk_def)
qed

lemma lru_length:
  assumes "lru B xs" "set xs = {..<NBUF}"
  shows "length xs = NBUF"
  using distinct_card[of xs] assms by (simp add: lru_def)

section \<open>A process that uses the cache\<close>

text \<open>
  Process \<open>i\<close> holds the buffers \<open>H\<close>, the log keeps the buffers \<open>P\<close> in the cache, and nobody else
  uses it: each reference and each lock is accounted for.
\<close>

definition bc_ready :: "nat \<Rightarrow> nat set \<Rightarrow> nat set \<Rightarrow> 'z bufst_scheme \<Rightarrow> bool" where
  "bc_ready i H P s \<longleftrightarrow> vd_ready i s \<and> lock_free L_bcache s \<and> (\<forall>x. lock_free (L_sleep x) s) \<and>
     bc_wf (bufs s) (img s) \<and> H \<subseteq> {..<NBUF} \<and> P \<subseteq> {..<NBUF} \<and>
     (\<forall>b < NBUF. refcnt (bufs s b) = (if b \<in> H then 1 else 0) + (if b \<in> P then 1 else 0)) \<and>
     (\<forall>b < NBUF. slocked (slocks s (SL_buf b)) \<longleftrightarrow> b \<in> H) \<and>
     (\<forall>b \<in> H. slpid (slocks s (SL_buf b)) = pid (procs s i)) \<and> (\<forall>b \<in> H \<union> P. bvalid (bufs s b) \<noteq> 0)"

lemma bc_readyD:
  assumes "bc_ready i H P s"
  shows "vd_ready i s" "running i s" "lock_free L_bcache s" "lock_free (L_sleep x) s" "bc_wf (bufs s) (img s)"
    "H \<subseteq> {..<NBUF}" "P \<subseteq> {..<NBUF}"
    "b < NBUF \<Longrightarrow> refcnt (bufs s b) = (if b \<in> H then 1 else 0) + (if b \<in> P then 1 else 0)"
    "b < NBUF \<Longrightarrow> slocked (slocks s (SL_buf b)) \<longleftrightarrow> b \<in> H"
    "b \<in> H \<Longrightarrow> slpid (slocks s (SL_buf b)) = pid (procs s i)" "b \<in> H \<union> P \<Longrightarrow> bvalid (bufs s b) \<noteq> 0"
  using assms unfolding bc_ready_def vd_ready_def by blast+

text \<open>What the cache operations leave alone, and what they leave of a buffer in use.\<close>

definition bio_rest :: "'z bufst_scheme \<Rightarrow> 'z bufst_scheme \<Rightarrow> bool" where
  "bio_rest s s' \<longleftrightarrow> calm s s' \<and> cons s' = cons s \<and> devsw s' = devsw s \<and> pipes s' = pipes s \<and>
     bufst.more s' = bufst.more s \<and> (\<forall>k. slocks s' (SL_inode k) = slocks s (SL_inode k))"

definition same_view :: "'z bufst_scheme \<Rightarrow> 'z bufst_scheme \<Rightarrow> bool" where
  "same_view s s' \<longleftrightarrow> (\<forall>n. on_disk n \<longrightarrow> blk s' n = blk s n)"

definition same_buf :: "buf \<Rightarrow> buf \<Rightarrow> bool" where
  "same_buf k k' \<longleftrightarrow> bdata k' = bdata k \<and> blockno k' = blockno k \<and> bvalid k' = bvalid k \<and> bdev k' = bdev k"

lemma bio_rest_refl [simp]: "bio_rest s s" "same_buf k k"
  by (simp_all add: bio_rest_def same_buf_def)

lemma bio_rest_trans [trans]:
  "bio_rest s t \<Longrightarrow> bio_rest t u \<Longrightarrow> bio_rest s u" "same_buf k l \<Longrightarrow> same_buf l m \<Longrightarrow> same_buf k m"
  by (auto simp: bio_rest_def same_buf_def intro: calm_trans)

lemma same_view_refl [simp]: "same_view s s"
  by (simp add: same_view_def)

lemma same_view_trans [trans]: "same_view s t \<Longrightarrow> same_view t u \<Longrightarrow> same_view s u"
  by (simp add: same_view_def)

lemma same_rest_bio: "same_rest s s' \<Longrightarrow> bio_rest s s'"
  by (simp add: same_rest_def bio_rest_def)

lemma calm_fields:
  "calm s ((touch s)\<lparr>slocks := L\<rparr>)" "calm s ((touch t)\<lparr>slocks := L\<rparr>) = calm s (touch t)"
  by simp_all

lemma lru_cong:
  assumes "\<And>b. bnext (B' b) = bnext (B b)" "\<And>b. bprev (B' b) = bprev (B b)"
  shows "lru B' xs = lru B xs"
  using assms by (simp add: lru_def)

lemma slock_free_buf:
  "bc_ready i H P s \<Longrightarrow> b < NBUF \<Longrightarrow> b \<notin> H \<Longrightarrow> free_slock (SL_buf b) s"
  using bc_readyD(4,9)[of i H P s] by (simp add: free_slock_def)

text \<open>What \<open>bget\<close> makes of the buffer it returns.\<close>

definition got :: "u32 \<Rightarrow> buf \<Rightarrow> buf" where
  "got n k = (if bdev k = 1 \<and> blockno k = n then k\<lparr>refcnt := refcnt k + 1\<rparr>
     else k\<lparr>bdev := 1, blockno := n, bvalid := 0, refcnt := 1\<rparr>)"

lemma bget_Ret:
  assumes r: "bc_ready i H P s" and free: "card (H \<union> P) < NBUF \<or> (\<exists>b \<in> P. blockno (bufs s b) = n)"
    and nH: "\<forall>b \<in> H. blockno (bufs s b) \<noteq> n"
  shows "\<exists>b. bget 1 n s e = Ret b ((touch s)\<lparr>bufs := (bufs s)(b := got n (bufs s b)),
      slocks := (slocks s)(SL_buf b := locked_by (pid (procs s i)) (slocks s (SL_buf b)))\<rparr>) e \<and>
    b < NBUF \<and> b \<notin> H \<and> (bdev (bufs s b) = 1 \<and> blockno (bufs s b) = n \<or>
      b \<notin> P \<and> (\<forall>c < NBUF. \<not> (bdev (bufs s c) = 1 \<and> blockno (bufs s c) = n)))"
proof -
  note run = runningD[OF bc_readyD(2)[OF r]]
  let ?a = "acq L_bcache s"
  have lb: "lock_free L_bcache s" using bc_readyD(3)[OF r] .
  obtain xs where xs: "lru (bufs s) xs" "set xs = {..<NBUF}" using bc_wfD(1)[OF bc_readyD(5)[OF r]] by blast
  have ch: "chain_of (\<lambda>b. bnext (bufs ?a b)) xs" "chain_of (\<lambda>b. bprev (bufs ?a b)) (rev xs)"
    "HEAD \<notin> set xs" "HEAD \<notin> set (rev xs)" "length xs \<le> NBUF" "length (rev xs) \<le> NBUF"
    using xs lru_length[OF xs] by (auto simp: lru_def)
  let ?hit = "\<lambda>k. bdev k = 1 \<and> blockno k = n"
  have u: "under L_bcache i ?a" using under_acq[OF bc_readyD(2)[OF r] lb] by simp
  have fin: "thn (upd_buf b (\<lambda>_. k)) (thn (release L_bcache) (thn (acquiresleep (SL_buf b)) (ret b))) ?a e =
      Ret b ((touch s)\<lparr>bufs := (bufs s)(b := k),
        slocks := (slocks s)(SL_buf b := locked_by (pid (procs s i)) (slocks s (SL_buf b)))\<rparr>) e"
    if b: "b < NBUF" "b \<notin> H" for b k
  proof -
    let ?b = "?a\<lparr>bufs := (bufs s)(b := k)\<rparr>"
    have ub: "under L_bcache i ?b" using u by simp
    have rel: "release L_bcache ?b e = Ret () ((touch s)\<lparr>bufs := (bufs s)(b := k)\<rparr>) e"
      using under_release[OF ub, of e] lb run(5) by simp
    let ?c = "(touch s)\<lparr>bufs := (bufs s)(b := k)\<rparr>"
    have "running i ?c" "free_slock (SL_buf b) ?c"
      using bc_readyD(2)[OF r] slock_free_buf[OF r b] by (simp_all add: free_slock_def)
    from acquiresleep_Ret[OF this, of e] show ?thesis using rel
      by (simp add: thn_def bnd_def)
  qed
  show ?thesis
  proof (cases "find (\<lambda>b. ?hit (bufs s b)) xs")
    case (Some b)
    then have b: "?hit (bufs s b)" "b < NBUF" using xs(2) by (auto simp: find_Some_iff dest: nth_mem)
    have bH: "b \<notin> H" using nH b by blast
    have "bget 1 n s e = thn (upd_buf b (\<lambda>k. k\<lparr>refcnt := refcnt k + 1\<rparr>))
        (thn (release L_bcache) (thn (acquiresleep (SL_buf b)) (ret b))) ?a e"
      using bscan_find[OF ch(1,3,5), of ?hit e] Some lb
      by (simp add: bget_def thn_def bnd_def acquire_Ret lock_freeD)
    also have "\<dots> = thn (upd_buf b (\<lambda>_. got n (bufs s b)))
        (thn (release L_bcache) (thn (acquiresleep (SL_buf b)) (ret b))) ?a e"
      using b(1) by (simp add: thn_def bnd_def got_def)
    finally show ?thesis using fin[OF b(2) bH] b bH by auto
  next
    case None
    then have none: "\<forall>c < NBUF. \<not> ?hit (bufs s c)" using xs(2) by (auto simp: find_None_iff)
    have "b < NBUF \<and> bdev (bufs s b) = 1" if "b \<in> P" for b
      using that bc_readyD(7)[OF r] bc_readyD(11)[OF r, of b] bc_wfD(3)[OF bc_readyD(5)[OF r], of b] by auto
    then have free: "card (H \<union> P) < NBUF" using free none by blast
    have "\<exists>c < NBUF. c \<notin> H \<union> P"
    proof (rule ccontr)
      assume "\<not> ?thesis"
      then have "{..<NBUF} \<subseteq> H \<union> P" by auto
      then have "card {..<NBUF} \<le> card (H \<union> P)"
        using bc_readyD(6,7)[OF r] by (intro card_mono) (auto intro: finite_subset)
      then show False using free by simp
    qed
    then obtain c where c: "c < NBUF" "refcnt (bufs s c) = 0" using bc_readyD(8)[OF r] by auto
    obtain b where f: "find (\<lambda>b. refcnt (bufs s b) = 0) (rev xs) = Some b"
      using c xs(2) by (cases "find (\<lambda>b. refcnt (bufs s b) = 0) (rev xs)") (auto simp: find_None_iff)
    then have b: "refcnt (bufs s b) = 0" "b < NBUF" using xs(2)
      by (auto simp: find_Some_iff rev_nth)
    then have bH: "b \<notin> H" "b \<notin> P" using bc_readyD(8)[OF r b(2)] by (auto split: if_splits)
    have n0: "find (\<lambda>b. ?hit (bufs ?a b)) xs = None" using None by simp
    have "bget 1 n s e = thn (upd_buf b (\<lambda>k. k\<lparr>bdev := 1, blockno := n, bvalid := 0, refcnt := 1\<rparr>))
        (thn (release L_bcache) (thn (acquiresleep (SL_buf b)) (ret b))) ?a e"
      using bscan_find[OF ch(1,3,5), of ?hit e] bscan_find[OF ch(2,4,6), of "\<lambda>k. refcnt k = 0" e] n0 f lb
      by (simp add: bget_def thn_def bnd_def acquire_Ret lock_freeD)
    also have "\<dots> = thn (upd_buf b (\<lambda>_. got n (bufs s b)))
        (thn (release L_bcache) (thn (acquiresleep (SL_buf b)) (ret b))) ?a e"
    proof -
      have "got n (bufs s b) = (bufs s b)\<lparr>bdev := 1, blockno := n, bvalid := 0, refcnt := 1\<rparr>"
        using none b(2) by (auto simp: got_def)
      then show ?thesis by (simp add: thn_def bnd_def)
    qed
    finally show ?thesis using fin[OF b(2) bH(1)] b bH none by auto
  qed
qed

text \<open>A buffer that has been taken for block \<open>n\<close> and holds the block.\<close>

lemma bc_ready_insert:
  assumes r: "bc_ready i H P s" and b: "b < NBUF" "b \<notin> H"
      "bdev (bufs s b) = 1 \<and> blockno (bufs s b) = n \<or> b \<notin> P \<and> (\<forall>c < NBUF. \<not> (bdev (bufs s c) = 1 \<and> blockno (bufs s c) = n))"
    and k: "bufs s' = (bufs s)(b := k)" "bnext k = bnext (bufs s b)" "bprev k = bprev (bufs s b)" "bdev k = 1"
      "blockno k = n" "bvalid k \<noteq> 0" "refcnt k = 1 + (if b \<in> P then 1 else 0)" "bdata k = blk s n" "on_disk n"
    and s': "img s' = img s" "vd_ready i s'" "calm s s'"
      "slocks s' = (slocks s)(SL_buf b := locked_by (pid (procs s i)) (slocks s (SL_buf b)))"
  shows "bc_ready i (insert b H) P s'" "blk s' j = blk s j"
proof -
  note wf = bc_readyD(5)[OF r]
  note D = bc_wfD[OF wf]
  have len: "length (blk s n) = BSIZE"
    using D(2) by (auto simp: blk_def find_Some_iff split: option.split)
  have uniq: "blockno (bufs s c) \<noteq> n" if "c < NBUF" "c \<noteq> b" "bdev (bufs s c) = 1" for c
    using b(1,3) D(4)[of c b] that by (elim disjE) auto
  have links: "lru (bufs s') xs = lru (bufs s) xs" for xs
    by (rule lru_cong) (simp_all add: k(1-3))
  have wf': "bc_wf (bufs s') (img s')"
    unfolding bc_wf_def
  proof (intro conjI allI impI)
    show "\<exists>xs. lru (bufs s') xs \<and> set xs = {..<NBUF}" using D(1) links by simp
    fix c assume c: "c < NBUF"
    show "length (bdata (bufs s' c)) = BSIZE" using D(2) c len by (simp add: k(1,8))
    show "bdev (bufs s' c) = 1" "on_disk (blockno (bufs s' c))" if "bvalid (bufs s' c) \<noteq> 0"
      using D(3,6) c that k(1,4,5,9) by (auto split: if_splits)
    show "bdata (bufs s' c) = disk_block (img s') (blockno (bufs s' c))"
      if "refcnt (bufs s' c) = 0 \<and> bvalid (bufs s' c) \<noteq> 0"
      using D(5) c that k(1,7) by (auto simp: s'(1) split: if_splits)
    fix d assume d: "d < NBUF"
    assume a: "bdev (bufs s' c) = 1 \<and> bdev (bufs s' d) = 1 \<and> blockno (bufs s' c) = blockno (bufs s' d)"
    show "c = d"
      using a D(4)[OF c d] uniq[OF c] uniq[OF d] k(5) by (auto simp: k(1) split: if_splits)
  qed
  have P: "b \<in> P \<Longrightarrow> bvalid (bufs s b) \<noteq> 0" using bc_readyD(11)[OF r] by blast
  show "bc_ready i (insert b H) P s'"
    unfolding bc_ready_def
  proof (intro conjI)
    show "\<forall>b' < NBUF. refcnt (bufs s' b') = (if b' \<in> insert b H then 1 else 0) + (if b' \<in> P then 1 else 0)"
      using bc_readyD(8)[OF r] by (simp add: k(1,7))
    show "\<forall>b' < NBUF. slocked (slocks s' (SL_buf b')) = (b' \<in> insert b H)"
      using bc_readyD(9)[OF r] by (simp add: s'(4) locked_by_def)
    show "\<forall>b' \<in> insert b H. slpid (slocks s' (SL_buf b')) = pid (procs s' i)"
      using bc_readyD(10)[OF r] calmD(5)[OF s'(3)] by (simp add: s'(4) locked_by_def)
    show "\<forall>b' \<in> insert b H \<union> P. bvalid (bufs s' b') \<noteq> 0"
      using bc_readyD(11)[OF r] k(6) by (simp add: k(1))
  qed (use s'(2) wf' b(1) bc_readyD(3,4,6,7)[OF r] calmD(1)[OF s'(3)] in simp_all)
  show "blk s' j = blk s j"
  proof (cases "j = n")
    case True
    then show ?thesis using blk_cached[OF wf' b(1)] k by simp
  next
    case False
    show ?thesis
    proof (cases "\<exists>c < NBUF. bvalid (bufs s c) \<noteq> 0 \<and> blockno (bufs s c) = j")
      case True
      then obtain c where c: "c < NBUF" "bvalid (bufs s c) \<noteq> 0" "blockno (bufs s c) = j" by blast
      show ?thesis
      proof (cases "c = b")
        case True
        then have "blockno (bufs s b) \<noteq> n" "bdev (bufs s b) = 1" using c False D(3)[OF c(1,2)] by auto
        then have "b \<notin> P" using b(3) by blast
        then have "refcnt (bufs s b) = 0" using bc_readyD(8)[OF r b(1)] b(2) by simp
        then have "blk s j = disk_block (img s) j" using D(5)[OF b(1)] c True blk_cached[OF wf b(1)] by simp
        moreover have "blk s' j = disk_block (img s') j"
        proof (rule blk_uncached)
          fix d assume "d < NBUF" "bvalid (bufs s' d) \<noteq> 0"
          then show "blockno (bufs s' d) \<noteq> j"
            using c True False D(3,4) k(5) by (fastforce simp: k(1) split: if_splits)
        qed
        ultimately show ?thesis by (simp add: s'(1))
      next
        case False
        then show ?thesis using blk_cached[OF wf c(1,2)] blk_cached[OF wf' c(1)] c by (simp add: k(1))
      qed
    next
      case none: False
      have "blk s j = disk_block (img s) j" using none by (intro blk_uncached) blast
      moreover have "blk s' j = disk_block (img s') j"
        using none False k(5) by (intro blk_uncached) (auto simp: k(1) split: if_splits)
      ultimately show ?thesis by (simp add: s'(1))
    qed
  qed
qed

lemma bread_wpc:
  fixes s :: "'z bufst_scheme"
  assumes r: "bc_ready i H P s" and env: "disk_envs i e"
    and free: "card (H \<union> P) < NBUF \<or> (\<exists>b \<in> P. blockno (bufs s b) = n)"
    and nH: "\<forall>b \<in> H. blockno (bufs s b) \<noteq> n" and od: "on_disk n"
    and Q: "\<And>b s' e'. bc_ready i (insert b H) P s' \<Longrightarrow> b \<notin> H \<Longrightarrow> b < NBUF \<Longrightarrow> blockno (bufs s' b) = n \<Longrightarrow>
      bdev (bufs s' b) = 1 \<Longrightarrow> bdata (bufs s' b) = blk s n \<Longrightarrow> same_view s s' \<Longrightarrow>
      \<forall>c \<in> H \<union> P. same_buf (bufs s c) (bufs s' c) \<Longrightarrow> img s' = img s \<Longrightarrow> bio_rest s s' \<Longrightarrow>
      disk_envs i e' \<Longrightarrow> length e \<le> Suc (length e') \<Longrightarrow> length e' \<le> length e \<Longrightarrow> Q b s' e'"
    and R: "\<And>s'. e = [] \<Longrightarrow> img s' = img s \<Longrightarrow> R s'"
  shows "wpc (bread 1 n) Q R s e"
proof -
  note wf = bc_readyD(5)[OF r]
  obtain b where b: "bget 1 n s e = Ret b ((touch s)\<lparr>bufs := (bufs s)(b := got n (bufs s b)),
      slocks := (slocks s)(SL_buf b := locked_by (pid (procs s i)) (slocks s (SL_buf b)))\<rparr>) e"
    "b < NBUF" "b \<notin> H" "bdev (bufs s b) = 1 \<and> blockno (bufs s b) = n \<or>
      b \<notin> P \<and> (\<forall>c < NBUF. \<not> (bdev (bufs s c) = 1 \<and> blockno (bufs s c) = n))"
    using bget_Ret[OF r free nH, of e] by blast
  let ?L = "(slocks s)(SL_buf b := locked_by (pid (procs s i)) (slocks s (SL_buf b)))"
  let ?s1 = "(touch s)\<lparr>bufs := (bufs s)(b := got n (bufs s b)), slocks := ?L\<rparr>"
  have g: "bnext (got n k) = bnext k" "bprev (got n k) = bprev k" "bdev (got n k) = 1" "blockno (got n k) = n" for k
    by (auto simp: got_def)
  have ref: "refcnt (got n (bufs s b)) = 1 + (if b \<in> P then 1 else 0)"
    using bc_readyD(8)[OF r b(2)] b(3,4) by (auto simp: got_def)
  have v1: "vd_ready i ?s1" using bc_readyD(1)[OF r] by (simp add: vd_ready_def)
  have more1: "bio_rest s ?s1" by (simp add: bio_rest_def)
  have nb: "b \<notin> H \<Longrightarrow> c \<in> H \<union> P \<Longrightarrow> c \<noteq> b \<Longrightarrow> same_buf (bufs s c) (((bufs s)(b := k)) c)" for c k by simp
  show ?thesis
  proof (cases "bvalid (got n (bufs s b)) = 0")
    case False
    then have hit: "got n (bufs s b) = (bufs s b)\<lparr>refcnt := refcnt (bufs s b) + 1\<rparr>"
      "bvalid (bufs s b) \<noteq> 0" "blockno (bufs s b) = n" by (auto simp: got_def split: if_splits)
    have d: "bdata (got n (bufs s b)) = blk s n" using blk_cached[OF wf b(2) hit(2)] hit by simp
    note ins = bc_ready_insert[OF r b(2-4), of ?s1 "got n (bufs s b)"]
    have 1: "bc_ready i (insert b H) P ?s1" "same_view s ?s1"
      using ins g ref False d v1 od by (auto simp: same_view_def)
    have "bread 1 n s e = Ret b ?s1 e" using b(1) False by (simp add: bread_def thn_def bnd_def)
    moreover have "Q b ?s1 e"
      using 1 b(2,3) g d more1 env hit bc_wfD(3)[OF wf b(2) hit(2)] by (intro Q) (auto simp: same_buf_def)
    ultimately show ?thesis by (simp add: wp_Ret)
  next
    case True
    have bP: "b \<notin> P" using True bc_readyD(11)[OF r, of b] b(3,4) by (auto simp: got_def split: if_splits)
    have none: "bvalid (bufs s c) \<noteq> 0 \<Longrightarrow> blockno (bufs s c) \<noteq> n" if "c < NBUF" for c
      using True b(2,4) that bc_wfD(3,4)[OF wf] by (auto simp: got_def split: if_splits)
    have d: "blk s n = disk_block (img s) n" using none by (intro blk_uncached) blast
    have run: "bread 1 n s e = bnd (virtio_disk_rw b False) (\<lambda>_. thn (upd_buf b (\<lambda>k. k\<lparr>bvalid := 1\<rparr>)) (ret b)) ?s1 e"
      using b(1) True by (simp add: bread_def thn_def bnd_def split: outcome.split)
    show ?thesis unfolding wpc_def run unfolding wpc_def[symmetric] wp_bnd
    proof (rule virtio_disk_rw_wpc[OF v1 env])
      fix s2 :: "'z bufst_scheme" and e'
      assume e': "e \<noteq> []" "e' = tl e" "disk_envs i e'" and s2: "same_rest ?s1 s2" "vd_ready i s2"
        "bufs s2 = rw_data b False ?s1" "img s2 = rw_img b False ?s1"
      let ?k = "(got n (bufs s b))\<lparr>bdisk := 0, bdata := disk_block (img s) n, bvalid := 1\<rparr>"
      let ?s3 = "s2\<lparr>bufs := (bufs s)(b := ?k)\<rparr>"
      have B: "(rw_data b False ?s1)(b := (rw_data b False ?s1 b)\<lparr>bvalid := 1\<rparr>) = (bufs s)(b := ?k)"
        by (auto simp: rw_data_def g fun_eq_iff)
      have im: "img ?s3 = img s" using s2(4) by (simp add: rw_img_def)
      have c: "calm s ?s3" "slocks ?s3 = ?L" "vd_ready i ?s3"
        using s2(1,2) calm_trans[OF calm_touch, of s s2] by (simp_all add: same_rest_def vd_ready_def)
      have rest: "bio_rest s ?s3"
        using c s2(1) by (simp add: bio_rest_def same_rest_def)
      note ins = bc_ready_insert[OF r b(2-4), of ?s3 ?k]
      have 1: "bc_ready i (insert b H) P ?s3" "same_view s ?s3"
        using ins g ref d im c od by (auto simp: same_view_def)
      have "Q b ?s3 e'"
        using 1 b(2,3) g d im rest e' bP by (intro Q) auto
      then show "wpc (thn (upd_buf b (\<lambda>k. k\<lparr>bvalid := 1\<rparr>)) (ret b)) Q R s2 e'"
        using B by (simp add: wpc_def thn_def bnd_def s2(3))
    next
      fix s' :: "'z bufst_scheme" assume "e = []" "img s' = img ?s1"
      then show "R s'" using R by simp
    qed
  qed
qed

lemma bc_readyI:
  assumes "vd_ready i s" "lock_free L_bcache s" "\<And>x. lock_free (L_sleep x) s" "bc_wf (bufs s) (img s)"
    "H \<subseteq> {..<NBUF}" "P \<subseteq> {..<NBUF}"
    "\<And>b. b < NBUF \<Longrightarrow> refcnt (bufs s b) = (if b \<in> H then 1 else 0) + (if b \<in> P then 1 else 0)"
    "\<And>b. b < NBUF \<Longrightarrow> slocked (slocks s (SL_buf b)) \<longleftrightarrow> b \<in> H"
    "\<And>b. b \<in> H \<Longrightarrow> slpid (slocks s (SL_buf b)) = pid (procs s i)" "\<And>b. b \<in> H \<union> P \<Longrightarrow> bvalid (bufs s b) \<noteq> 0"
  shows "bc_ready i H P s"
  using assms unfolding bc_ready_def by blast

lemma bc_ready_cong:
  assumes r: "bc_ready i H P s" and s': "vd_ready i s'" "calm s s'" "slocks s' = slocks s" "bc_wf (bufs s') (img s')"
    "\<And>b. refcnt (bufs s' b) = refcnt (bufs s b)" "\<And>b. bvalid (bufs s' b) = bvalid (bufs s b)"
  shows "bc_ready i H P s'"
proof (rule bc_readyI)
  show "lock_free L_bcache s'" "lock_free (L_sleep x) s'" for x
    using bc_readyD(3,4)[OF r] calmD(1)[OF s'(2)] by simp_all
qed (use s' bc_readyD(6-11)[OF r] calmD(5)[OF s'(2)] in simp_all)

text \<open>Changing the data of a buffer one holds.\<close>

lemma bc_ready_modify:
  assumes r: "bc_ready i H P s" and b: "b \<in> H" and d: "length d = BSIZE"
    and s': "s' = s\<lparr>bufs := (bufs s)(b := (bufs s b)\<lparr>bdata := d\<rparr>)\<rparr>"
  shows "bc_ready i H P s'" "blk s' n = (if n = blockno (bufs s b) then d else blk s n)" "bio_rest s s'"
proof -
  note wf = bc_readyD(5)[OF r]
  note D = bc_wfD[OF wf]
  have bn: "b < NBUF" using bc_readyD(6)[OF r] b by blast
  have v: "bvalid (bufs s b) \<noteq> 0" using bc_readyD(11)[OF r] b by blast
  have ref: "refcnt (bufs s b) \<noteq> 0" using bc_readyD(8)[OF r bn] b by simp
  have links: "lru (bufs s') xs = lru (bufs s) xs" for xs
    by (rule lru_cong) (simp_all add: s')
  have f: "bdev (bufs s' x) = bdev (bufs s x)" "blockno (bufs s' x) = blockno (bufs s x)"
    "bvalid (bufs s' x) = bvalid (bufs s x)" "refcnt (bufs s' x) = refcnt (bufs s x)" for x by (simp_all add: s')
  have wf': "bc_wf (bufs s') (img s')"
    unfolding bc_wf_def
  proof (intro conjI allI impI)
    show "\<exists>xs. lru (bufs s') xs \<and> set xs = {..<NBUF}" using D(1) links by simp
    fix c assume c: "c < NBUF"
    show "length (bdata (bufs s' c)) = BSIZE" using D(2) c d by (simp add: s')
    show "bdev (bufs s' c) = 1" "on_disk (blockno (bufs s' c))" if "bvalid (bufs s' c) \<noteq> 0"
      using D(3,6) c that unfolding f by blast+
    show "bdata (bufs s' c) = disk_block (img s') (blockno (bufs s' c))"
      if "refcnt (bufs s' c) = 0 \<and> bvalid (bufs s' c) \<noteq> 0"
    proof -
      have "c \<noteq> b" using that ref unfolding f by auto
      then show ?thesis using D(5)[OF c] that unfolding f by (simp add: s')
    qed
    fix c' assume c': "c' < NBUF"
    assume "bdev (bufs s' c) = 1 \<and> bdev (bufs s' c') = 1 \<and> blockno (bufs s' c) = blockno (bufs s' c')"
    then show "c = c'" using D(4)[OF c c'] unfolding f by blast
  qed
  show "bc_ready i H P s'"
  proof (rule bc_ready_cong[OF r])
    show "vd_ready i s'" "calm s s'" "slocks s' = slocks s"
      using bc_readyD(1)[OF r] by (simp_all add: s' vd_ready_def)
    show "refcnt (bufs s' c) = refcnt (bufs s c)" "bvalid (bufs s' c) = bvalid (bufs s c)" for c
      by (simp_all add: s')
  qed (rule wf')
  show "bio_rest s s'" by (simp add: s' bio_rest_def)
  show "blk s' n = (if n = blockno (bufs s b) then d else blk s n)"
  proof (cases "n = blockno (bufs s b)")
    case True
    then show ?thesis using blk_cached[OF wf' bn] v by (simp add: s')
  next
    case False
    have "(\<lambda>c. bvalid (bufs s' c) \<noteq> 0 \<and> blockno (bufs s' c) = n) = (\<lambda>c. bvalid (bufs s c) \<noteq> 0 \<and> blockno (bufs s c) = n)"
      by (auto simp: s' fun_eq_iff)
    moreover have "bdata (bufs s' c) = bdata (bufs s c)" if "find (\<lambda>c. bvalid (bufs s c) \<noteq> 0 \<and> blockno (bufs s c) = n) [0..<NBUF] = Some c" for c
      using that False by (auto simp: find_Some_iff s')
    ultimately show ?thesis using False by (auto simp: blk_def s' split: option.split)
  qed
qed

lemma holding_mine:
  assumes "bc_ready i H P s" "b \<in> H"
  shows "holdingsleep (SL_buf b) s e = Ret True (touch s) e"
proof -
  have "b < NBUF" using bc_readyD(6)[OF assms(1)] assms(2) by blast
  then show ?thesis
    using holdingsleep_Ret[OF bc_readyD(2,4)[OF assms(1)], of "SL_buf b" e] bc_readyD(9,10)[OF assms(1)] assms(2) by simp
qed

lemma bc_ready_touch: "bc_ready i H P s \<Longrightarrow> bc_ready i H P (touch s)"
  by (simp add: bc_ready_def vd_ready_def)

lemma bwrite_wpc:
  fixes s :: "'z bufst_scheme"
  assumes r: "bc_ready i H P s" and env: "disk_envs i e" and b: "b \<in> H"
    and Q: "\<And>s' e'. bc_ready i H P s' \<Longrightarrow> \<forall>c. same_buf (bufs s c) (bufs s' c) \<Longrightarrow> same_view s s' \<Longrightarrow>
      img s' = disk_write (img s) (blockno (bufs s b)) (bdata (bufs s b)) \<Longrightarrow> bio_rest s s' \<Longrightarrow>
      e \<noteq> [] \<Longrightarrow> e' = tl e \<Longrightarrow> disk_envs i e' \<Longrightarrow> Q () s' e'"
    and R: "\<And>s'. e = [] \<Longrightarrow> img s' = img s \<Longrightarrow> R s'"
  shows "wpc (bwrite b) Q R s e"
proof -
  note wf = bc_readyD(5)[OF r]
  note D = bc_wfD[OF wf]
  have bn: "b < NBUF" using bc_readyD(6)[OF r] b by blast
  have v: "bvalid (bufs s b) \<noteq> 0" using bc_readyD(11)[OF r] b by blast
  have run: "bwrite b s e = virtio_disk_rw b True (touch s) e"
    using holding_mine[OF r b, of e] by (simp add: bwrite_def bnd_def)
  have vt: "vd_ready i (touch s)" using bc_readyD(1)[OF bc_ready_touch[OF r]] .
  show ?thesis unfolding wpc_def run unfolding wpc_def[symmetric]
  proof (rule virtio_disk_rw_wpc[OF vt env])
    fix s' :: "'z bufst_scheme" and e'
    assume e': "e \<noteq> []" "e' = tl e" "disk_envs i e'" and s': "same_rest (touch s) s'" "vd_ready i s'"
      "bufs s' = rw_data b True (touch s)" "img s' = rw_img b True (touch s)"
    have B: "bufs s' = (bufs s)(b := (bufs s b)\<lparr>bdisk := 0\<rparr>)" using s'(3) by (simp add: rw_data_def)
    have im: "img s' = disk_write (img s) (blockno (bufs s b)) (bdata (bufs s b))"
      using s'(4) by (simp add: rw_img_def)
    have same: "same_buf (bufs s c) (bufs s' c)" "refcnt (bufs s' c) = refcnt (bufs s c)" for c
      by (auto simp: B same_buf_def)
    have sr: "same_rest s s'" using s'(1) by (simp add: same_rest_def calm_def)
    have c: "calm s s'" "slocks s' = slocks s" using sr by (simp_all add: same_rest_def)
    have dsk: "disk_block (img s') n = (if n = blockno (bufs s b) then bdata (bufs s b) else disk_block (img s) n)"
      if "on_disk n" for n
      using disk_block_write[of "blockno (bufs s b)" n "bdata (bufs s b)" "img s"] D(2,6)[OF bn] v that
      by (simp add: im on_disk_def)
    have links: "lru (bufs s') xs = lru (bufs s) xs" for xs by (rule lru_cong) (simp_all add: B)
    have f: "bdev (bufs s' x) = bdev (bufs s x)" "blockno (bufs s' x) = blockno (bufs s x)"
      "bvalid (bufs s' x) = bvalid (bufs s x)" "bdata (bufs s' x) = bdata (bufs s x)" for x by (simp_all add: B)
    have wf': "bc_wf (bufs s') (img s')"
      unfolding bc_wf_def
    proof (intro conjI allI impI)
      show "\<exists>xs. lru (bufs s') xs \<and> set xs = {..<NBUF}" using D(1) links by simp
      fix c assume c: "c < NBUF"
      show "length (bdata (bufs s' c)) = BSIZE" using D(2) c unfolding f by blast
      show "bdev (bufs s' c) = 1" "on_disk (blockno (bufs s' c))" if "bvalid (bufs s' c) \<noteq> 0"
        using D(3,6) c that unfolding f by blast+
      show "bdata (bufs s' c) = disk_block (img s') (blockno (bufs s' c))"
        if "refcnt (bufs s' c) = 0 \<and> bvalid (bufs s' c) \<noteq> 0"
      proof -
        have cc: "refcnt (bufs s c) = 0" "bvalid (bufs s c) \<noteq> 0" using that unfolding f same(2) by blast+
        moreover have "refcnt (bufs s b) \<noteq> 0" using bc_readyD(8)[OF r bn] b by simp
        ultimately have "c \<noteq> b" by auto
        then have "blockno (bufs s c) \<noteq> blockno (bufs s b)" using D(3,4) c bn v cc(2) by blast
        then show ?thesis using D(5,6)[OF c] cc dsk unfolding f by simp
      qed
      fix c' assume c': "c' < NBUF"
      assume "bdev (bufs s' c) = 1 \<and> bdev (bufs s' c') = 1 \<and> blockno (bufs s' c) = blockno (bufs s' c')"
      then show "c = c'" using D(4)[OF c c'] unfolding f by blast
    qed
    have "bc_ready i H P s'"
      by (rule bc_ready_cong[OF r s'(2) c wf' same(2)]) (simp add: B)
    moreover have "same_view s s'"
      unfolding same_view_def
    proof (intro allI impI)
      fix k assume k: "on_disk k"
      have f: "(\<lambda>c. bvalid (bufs s' c) \<noteq> 0 \<and> blockno (bufs s' c) = k) = (\<lambda>c. bvalid (bufs s c) \<noteq> 0 \<and> blockno (bufs s c) = k)"
        by (auto simp: B fun_eq_iff)
      show "blk s' k = blk s k"
      proof (cases "find (\<lambda>c. bvalid (bufs s c) \<noteq> 0 \<and> blockno (bufs s c) = k) [0..<NBUF]")
        case None
        then have "blockno (bufs s b) \<noteq> k" using bn v by (auto simp: find_None_iff)
        then show ?thesis unfolding blk_def f None using dsk[OF k] by auto
      next
        case (Some c)
        then show ?thesis unfolding blk_def f Some by (simp add: B)
      qed
    qed
    ultimately show "Q () s' e'" using same im same_rest_bio[OF sr] e' by (intro Q) auto
  next
    fix s' :: "'z bufst_scheme" assume "e = []" "img s' = img (touch s)"
    then show "R s'" using R by simp
  qed
qed

text \<open>Reference counts.\<close>

definition set_ref :: "nat \<Rightarrow> u32 \<Rightarrow> (nat \<Rightarrow> buf) \<Rightarrow> nat \<Rightarrow> buf" where
  "set_ref b n B = B(b := (B b)\<lparr>refcnt := n\<rparr>)"

lemma set_ref_fields [simp]:
  "bvalid (set_ref b n B x) = bvalid (B x)" "bdev (set_ref b n B x) = bdev (B x)"
  "blockno (set_ref b n B x) = blockno (B x)" "bdata (set_ref b n B x) = bdata (B x)"
  "bnext (set_ref b n B x) = bnext (B x)" "bprev (set_ref b n B x) = bprev (B x)"
  "refcnt (set_ref b n B x) = (if x = b then n else refcnt (B x))"
  by (simp_all add: set_ref_def)

text \<open>The cache changed in its links and counts only.\<close>

definition relinked :: "(nat \<Rightarrow> buf) \<Rightarrow> (nat \<Rightarrow> buf) \<Rightarrow> bool" where
  "relinked B B' \<longleftrightarrow> (\<forall>x. same_buf (B x) (B' x)) \<and> (\<exists>xs. lru B' xs \<and> set xs = {..<NBUF})"

lemma relinked_wf:
  assumes wf: "bc_wf B m" and r: "relinked B B'"
    and clean: "\<And>b. b < NBUF \<Longrightarrow> refcnt (B' b) = 0 \<Longrightarrow> bvalid (B b) \<noteq> 0 \<Longrightarrow> bdata (B b) = disk_block m (blockno (B b))"
  shows "bc_wf B' m"
proof -
  note D = bc_wfD[OF wf]
  have f: "bdev (B' x) = bdev (B x)" "blockno (B' x) = blockno (B x)" "bvalid (B' x) = bvalid (B x)"
    "bdata (B' x) = bdata (B x)" for x
    using r by (simp_all add: relinked_def same_buf_def)
  show ?thesis
    unfolding bc_wf_def f
  proof (intro conjI allI impI)
    show "\<exists>xs. lru B' xs \<and> set xs = {..<NBUF}" using r by (simp add: relinked_def)
    fix c assume c: "c < NBUF"
    show "length (bdata (B c)) = BSIZE" using D(2) c by blast
    show "bdev (B c) = 1" "on_disk (blockno (B c))" if "bvalid (B c) \<noteq> 0" using D(3,6) c that by blast+
    show "bdata (B c) = disk_block m (blockno (B c))" if "refcnt (B' c) = 0 \<and> bvalid (B c) \<noteq> 0"
      using clean c that by blast
    fix c' assume c': "c' < NBUF"
    assume "bdev (B c) = 1 \<and> bdev (B c') = 1 \<and> blockno (B c) = blockno (B c')"
    then show "c = c'" using D(4)[OF c c'] by blast
  qed
qed

lemma relinked_view:
  assumes "relinked (bufs s) (bufs s')" "img s' = img s"
  shows "blk s' n = blk s n"
proof -
  have "bvalid (bufs s' x) = bvalid (bufs s x)" "blockno (bufs s' x) = blockno (bufs s x)"
    "bdata (bufs s' x) = bdata (bufs s x)" for x
    using assms(1) by (simp_all add: relinked_def same_buf_def)
  then show ?thesis unfolding blk_def assms(2) by (simp split: option.split)
qed

lemma relinked_ref: "bc_wf B m \<Longrightarrow> relinked B (set_ref b n B)"
  using bc_wfD(1)[of B m] lru_cong[of "set_ref b n B" B] by (simp add: relinked_def same_buf_def)

lemma relinked_front:
  assumes "bc_wf B m" "b < NBUF"
  shows "relinked B (link_front b (unlink b (set_ref b n B)))"
proof -
  obtain xs where xs: "lru B xs" "set xs = {..<NBUF}" using bc_wfD(1)[OF assms(1)] by blast
  then obtain us vs where uv: "xs = us @ b # vs" using assms(2) split_list[of b xs] by auto
  have "lru (set_ref b n B) (us @ b # vs)" using xs(1) lru_cong[of "set_ref b n B" B] by (simp add: uv)
  from move_front_lru[OF this] have "lru (link_front b (unlink b (set_ref b n B))) (b # us @ vs)" .
  moreover have "set (b # us @ vs) = {..<NBUF}" using xs(2) uv by auto
  ultimately show ?thesis by (auto simp: relinked_def same_buf_def)
qed

text \<open>The buffer after \<open>brelse\<close>.\<close>

definition released :: "nat \<Rightarrow> (nat \<Rightarrow> buf) \<Rightarrow> nat \<Rightarrow> buf" where
  "released b B =
     (let B' = set_ref b (refcnt (B b) - 1) B in if refcnt (B b) - 1 = 0 then link_front b (unlink b B') else B')"

lemma brelse_Ret:
  assumes r: "bc_ready i H P s" and b: "b \<in> H"
  shows "brelse b s e = Ret () ((touch s)\<lparr>slocks := (slocks s)(SL_buf b := unlocked (slocks s (SL_buf b))),
    procs := woken (Some i) (Some (C_sleep (SL_buf b))) (procs s), bufs := released b (bufs s)\<rparr>) e"
proof -
  let ?s1 = "(touch s)\<lparr>slocks := (slocks s)(SL_buf b := unlocked (slocks s (SL_buf b))),
    procs := woken (Some i) (Some (C_sleep (SL_buf b))) (procs s)\<rparr>"
  note rt = bc_ready_touch[OF r]
  have rel: "releasesleep (SL_buf b) (touch s) e = Ret () ?s1 e"
    using releasesleep_Ret[OF bc_readyD(2,4)[OF rt], of "SL_buf b" e] by simp
  have s1: "running i ?s1" "lock_free L_bcache ?s1" using bc_readyD(2,3)[OF r] by simp_all
  have u: "under L_bcache i ((acq L_bcache ?s1)\<lparr>bufs := released b (bufs s)\<rparr>)"
    using under_acq[OF s1] by simp
  have "release L_bcache ((acq L_bcache ?s1)\<lparr>bufs := released b (bufs s)\<rparr>) e = Ret () (?s1\<lparr>bufs := released b (bufs s)\<rparr>) e"
    using under_release[OF u, of e] s1(2) runningD(5)[OF s1(1)] by simp
  then show ?thesis
    using holding_mine[OF r b, of e] rel s1(2)
    by (cases "refcnt (bufs s b) - 1 = 0")
       (simp_all add: brelse_def thn_def bnd_def acquire_Ret lock_freeD released_def set_ref_def)
qed

lemma released_relinked: "bc_wf B m \<Longrightarrow> b < NBUF \<Longrightarrow> relinked B (released b B)"
  using relinked_ref relinked_front by (simp add: released_def Let_def)

lemma released_ref: "refcnt (released b B x) = (if x = b then refcnt (B b) - 1 else refcnt (B x))"
  by (simp add: released_def Let_def)

lemma brelse_wpc:
  assumes r: "bc_ready i H P s" and b: "b \<in> H"
    and clean: "b \<in> P \<or> bdata (bufs s b) = disk_block (img s) (blockno (bufs s b))"
    and Q: "\<And>s'. bc_ready i (H - {b}) P s' \<Longrightarrow> \<forall>c. same_buf (bufs s c) (bufs s' c) \<Longrightarrow> same_view s s' \<Longrightarrow>
      img s' = img s \<Longrightarrow> bio_rest s s' \<Longrightarrow> Q () s' e"
  shows "wpc (brelse b) Q R s e"
proof -
  let ?s' = "(touch s)\<lparr>slocks := (slocks s)(SL_buf b := unlocked (slocks s (SL_buf b))),
    procs := woken (Some i) (Some (C_sleep (SL_buf b))) (procs s), bufs := released b (bufs s)\<rparr>"
  note wf = bc_readyD(5)[OF r]
  have bn: "b < NBUF" using bc_readyD(6)[OF r] b by blast
  note rl = released_relinked[OF wf bn]
  have v: "bvalid (released b (bufs s) c) = bvalid (bufs s c)" for c
    using rl by (simp add: relinked_def same_buf_def)
  have ref: "refcnt (released b (bufs s) c) = (if c \<in> H - {b} then 1 else 0) + (if c \<in> P then 1 else 0)" if "c < NBUF" for c
    using bc_readyD(8)[OF r that] b by (cases "c = b") (simp_all add: released_ref)
  have "calm s (s\<lparr>procs := woken (Some i) (Some (C_sleep (SL_buf b))) (procs s)\<rparr>)" by (rule calm_procs) simp
  then have c: "calm s ?s'" by (simp add: calm_def)
  have wf': "bc_wf (released b (bufs s)) (img s)"
  proof (rule relinked_wf[OF wf rl])
    fix c assume c: "c < NBUF" "refcnt (released b (bufs s) c) = 0" "bvalid (bufs s c) \<noteq> 0"
    show "bdata (bufs s c) = disk_block (img s) (blockno (bufs s c))"
    proof (cases "c = b")
      case True
      then show ?thesis using clean ref[OF c(1)] c(2) by auto
    next
      case False
      then show ?thesis using bc_wfD(5)[OF wf c(1) _ c(3)] c(2) by (simp add: released_ref)
    qed
  qed
  have "bc_ready i (H - {b}) P ?s'"
  proof (rule bc_readyI)
    show "vd_ready i ?s'" using bc_readyD(1)[OF r] by (simp add: vd_ready_def)
    show "slocked (slocks ?s' (SL_buf c)) \<longleftrightarrow> c \<in> H - {b}" if "c < NBUF" for c
      using bc_readyD(9)[OF r that] by (simp add: unlocked_def)
    show "refcnt (bufs ?s' c) = (if c \<in> H - {b} then 1 else 0) + (if c \<in> P then 1 else 0)" if "c < NBUF" for c
      using ref[OF that] by simp
    show "bc_wf (bufs ?s') (img ?s')" using wf' by simp
  qed (use bc_readyD(3,4,6,7,10,11)[OF r] v in auto)
  moreover have "\<forall>x. same_buf (bufs s x) (bufs ?s' x)" using rl by (simp add: relinked_def)
  moreover have "same_view s ?s'" using relinked_view[of s ?s'] rl by (simp add: same_view_def)
  moreover have "bio_rest s ?s'" using c by (simp add: bio_rest_def)
  ultimately have "Q () ?s' e" by (intro Q) auto
  then show ?thesis using wp_Ret[of "brelse b" s e "()" ?s' e Q R] brelse_Ret[OF r b, of e] by simp
qed

text \<open>Pinning and unpinning.\<close>

lemma locked_ref:
  assumes r: "bc_ready i H P s"
  shows "thn (acquire L_bcache) (thn (upd_buf b f) (release L_bcache)) s e =
    Ret () ((touch s)\<lparr>bufs := (bufs s)(b := f (bufs s b))\<rparr>) e"
proof -
  have u: "under L_bcache i ((acq L_bcache s)\<lparr>bufs := (bufs s)(b := f (bufs s b))\<rparr>)"
    using under_acq[OF bc_readyD(2,3)[OF r]] by simp
  show ?thesis
    using under_release[OF u, of e] bc_readyD(3)[OF r] runningD(5)[OF bc_readyD(2)[OF r]]
    by (simp add: thn_def bnd_def acquire_Ret lock_freeD)
qed

lemma ref_wpc:
  assumes r: "bc_ready i H P s" and b: "b \<in> H" and P': "P' = P \<union> {b} \<or> P' = P - {b}"
    and n: "n = 1 + (if b \<in> P' then 1 else 0)"
  shows "bc_ready i H P' ((touch s)\<lparr>bufs := set_ref b n (bufs s)\<rparr>)"
    "same_view s ((touch s)\<lparr>bufs := set_ref b n (bufs s)\<rparr>)" "bio_rest s ((touch s)\<lparr>bufs := set_ref b n (bufs s)\<rparr>)"
proof -
  let ?s' = "(touch s)\<lparr>bufs := set_ref b n (bufs s)\<rparr>"
  note wf = bc_readyD(5)[OF r]
  have bn: "b < NBUF" using bc_readyD(6)[OF r] b by blast
  note rl = relinked_ref[OF wf, of b n]
  have n0: "n \<noteq> 0" using n by simp
  show "same_view s ?s'" using relinked_view[of s ?s'] rl by (simp add: same_view_def)
  show "bio_rest s ?s'" by (simp add: bio_rest_def)
  show "bc_ready i H P' ?s'"
  proof (rule bc_readyI)
    show "vd_ready i ?s'" using bc_readyD(1)[OF r] by (simp add: vd_ready_def)
    show "bc_wf (bufs ?s') (img ?s')"
      using relinked_wf[OF wf rl] bc_wfD(5)[OF wf] n0 by (simp split: if_splits)
    show "P' \<subseteq> {..<NBUF}" using P' bc_readyD(7)[OF r] bn by auto
    show "refcnt (bufs ?s' c) = (if c \<in> H then 1 else 0) + (if c \<in> P' then 1 else 0)" if "c < NBUF" for c
      using bc_readyD(8)[OF r that] n b P' by auto
  qed (use bc_readyD(3,4,6,9,10,11)[OF r] P' b in auto)
qed

lemma bpin_wpc:
  assumes r: "bc_ready i H P s" and b: "b \<in> H" "b \<notin> P"
    and Q: "\<And>s'. bc_ready i H (insert b P) s' \<Longrightarrow> \<forall>c. same_buf (bufs s c) (bufs s' c) \<Longrightarrow> same_view s s' \<Longrightarrow>
      img s' = img s \<Longrightarrow> bio_rest s s' \<Longrightarrow> Q () s' e"
  shows "wpc (bpin b) Q R s e"
proof -
  have bn: "b < NBUF" using bc_readyD(6)[OF r] b by blast
  have ref: "refcnt (bufs s b) = 1" using bc_readyD(8)[OF r bn] b by simp
  have "bpin b s e = Ret () ((touch s)\<lparr>bufs := set_ref b 2 (bufs s)\<rparr>) e"
    unfolding bpin_def using locked_ref[OF r, of b "\<lambda>k. k\<lparr>refcnt := refcnt k + 1\<rparr>" e] by (simp add: set_ref_def ref)
  moreover have "Q () ((touch s)\<lparr>bufs := set_ref b 2 (bufs s)\<rparr>) e"
    using ref_wpc[OF r b(1), of "insert b P" 2] by (intro Q) (simp_all add: same_buf_def)
  ultimately show ?thesis by (simp add: wp_Ret)
qed

lemma bunpin_wpc:
  assumes r: "bc_ready i H P s" and b: "b \<in> H" "b \<in> P"
    and Q: "\<And>s'. bc_ready i H (P - {b}) s' \<Longrightarrow> \<forall>c. same_buf (bufs s c) (bufs s' c) \<Longrightarrow> same_view s s' \<Longrightarrow>
      img s' = img s \<Longrightarrow> bio_rest s s' \<Longrightarrow> Q () s' e"
  shows "wpc (bunpin b) Q R s e"
proof -
  have bn: "b < NBUF" using bc_readyD(6)[OF r] b by blast
  have ref: "refcnt (bufs s b) = 2" using bc_readyD(8)[OF r bn] b by simp
  have "bunpin b s e = Ret () ((touch s)\<lparr>bufs := set_ref b 1 (bufs s)\<rparr>) e"
    unfolding bunpin_def using locked_ref[OF r, of b "\<lambda>k. k\<lparr>refcnt := refcnt k - 1\<rparr>" e] by (simp add: set_ref_def ref)
  moreover have "Q () ((touch s)\<lparr>bufs := set_ref b 1 (bufs s)\<rparr>) e"
    using ref_wpc[OF r b(1), of "P - {b}" 1] by (intro Q) (simp_all add: same_buf_def)
  ultimately show ?thesis by (simp add: wp_Ret)
qed

section \<open>Initialisation\<close>

lemma link_all_lru:
  "lru B xs \<Longrightarrow> distinct ys \<Longrightarrow> set ys \<inter> set xs = {} \<Longrightarrow> HEAD \<notin> set ys \<Longrightarrow> lru (fold link_front ys B) (rev ys @ xs)"
proof (induction ys arbitrary: B xs)
  case (Cons y ys)
  have "lru (link_front y B) (y # xs)" using Cons.prems by (intro link_front_lru) auto
  from Cons.IH[OF this] show ?case using Cons.prems by auto
qed simp

definition booted :: "(nat \<Rightarrow> buf) \<Rightarrow> nat \<Rightarrow> buf" where
  "booted B = fold link_front [0..<NBUF] (B(HEAD := (B HEAD)\<lparr>bprev := HEAD, bnext := HEAD\<rparr>))"

lemma booted_lru: "lru (booted B) (rev [0..<NBUF])"
proof -
  have "lru (B(HEAD := (B HEAD)\<lparr>bprev := HEAD, bnext := HEAD\<rparr>)) []" by (simp add: lru_def chain_of_def)
  from link_all_lru[OF this, of "[0..<NBUF]"] show ?thesis unfolding booted_def by (simp del: upt_rec_numeral)
qed

lemma fold_links_only:
  "bvalid (fold link_front ys B x) = bvalid (B x)" "bdev (fold link_front ys B x) = bdev (B x)"
  "blockno (fold link_front ys B x) = blockno (B x)" "refcnt (fold link_front ys B x) = refcnt (B x)"
  "bdata (fold link_front ys B x) = bdata (B x)"
  by (induction ys arbitrary: B) simp_all

lemma booted_fields [simp]:
  "bvalid (booted B x) = bvalid (B x)" "bdev (booted B x) = bdev (B x)" "blockno (booted B x) = blockno (B x)"
  "refcnt (booted B x) = refcnt (B x)" "bdata (booted B x) = bdata (B x)"
  by (simp_all add: booted_def fold_links_only del: upt_rec_numeral)

text \<open>The sleep lock of a buffer, as \<open>binit\<close> leaves it.\<close>

definition new_slock :: sleeplock where
  "new_slock = \<lparr>slocked = False, slname = ''buffer'', slpid = 0\<rparr>"

definition boot_buf :: "nat \<Rightarrow> 'z bufst_scheme \<Rightarrow> 'z bufst_scheme" where
  "boot_buf b s = (set_lock (L_sleep (SL_buf b)) (\<lambda>_. \<lparr>locked = False, lname = ''sleep lock'', lcpu = None\<rparr>) s)\<lparr>
     slocks := (slocks s)(SL_buf b := new_slock), bufs := link_front b (bufs s)\<rparr>"

lemma boot_kept:
  fixes s :: "'z bufst_scheme"
  shows "slocks s (SL_buf b) = new_slock \<Longrightarrow> slocks (fold boot_buf bs s) (SL_buf b) = new_slock"
    "lock_free (L_sleep (SL_buf b)) s \<Longrightarrow> lock_free (L_sleep (SL_buf b)) (fold boot_buf bs s)"
  by (induction bs arbitrary: s) (simp_all add: boot_buf_def lock_free_def set_lock_def)

lemma boot_bufs:
  fixes s :: "'z bufst_scheme"
  shows "bufs (fold boot_buf bs s) = fold link_front bs (bufs s)" "img (fold boot_buf bs s) = img s"
    "lock_free L_bcache s \<Longrightarrow> lock_free L_bcache (fold boot_buf bs s)"
  by (induction bs arbitrary: s) (simp_all add: boot_buf_def lock_free_def set_lock_def)

lemma boot_slocks:
  fixes s :: "'z bufst_scheme"
  assumes "b \<in> set bs"
  shows "free_slock (SL_buf b) (fold boot_buf bs s)"
  using assms
proof (induction bs arbitrary: s)
  case (Cons c bs)
  show ?case
  proof (cases "c = b")
    case True
    have "slocks (boot_buf b s) (SL_buf b) = new_slock" "lock_free (L_sleep (SL_buf b)) (boot_buf b s)"
      by (simp_all add: boot_buf_def lock_free_def set_lock_def)
    then show ?thesis using boot_kept(1)[of "boot_buf b s" b bs] boot_kept(2)[of b "boot_buf b s" bs] True by (simp add: free_slock_def new_slock_def)
  next
    case False
    then show ?thesis using Cons by simp
  qed
qed simp

lemma binit_Ret:
  "binit s e = Ret () (fold boot_buf [0..<NBUF] ((set_lock L_bcache (\<lambda>_. \<lparr>locked = False, lname = ''bcache'', lcpu = None\<rparr>) s)\<lparr>
     bufs := (bufs s)(HEAD := (bufs s HEAD)\<lparr>bprev := HEAD, bnext := HEAD\<rparr>)\<rparr>)) e"
proof -
  have "foreach [0..<NBUF] (\<lambda>b. thn (initsleeplock (SL_buf b) ''buffer'') (upd_bufs (link_front b))) s' e =
      Ret () (fold boot_buf [0..<NBUF] s') e" for s' :: "'a bufst_scheme"
    by (rule conjunct1[OF foreach_fold[of _ "\<lambda>_. True"]])
       (simp_all add: boot_buf_def initsleeplock_def initlock_def thn_def bnd_def new_slock_def set_lock_def)
  then show ?thesis by (simp add: binit_def initlock_def thn_def bnd_def set_lock_def del: upt_rec_numeral foreach.simps)
qed

text \<open>
  From zeroed buffers, whatever the disk holds, \<open>binit\<close> makes an empty cache: the list leads
  through all buffers, each block reads as it is on the disk, and every buffer is free and unlocked.
\<close>

theorem binit_empty_cache:
  assumes "\<forall>b < NBUF. bufs s b = zero_buf"
  shows "\<exists>s'. binit s e = Ret () s' e \<and> lru (bufs s') (rev [0..<NBUF]) \<and> bc_wf (bufs s') (img s') \<and>
    img s' = img s \<and> (\<forall>n. blk s' n = disk_block (img s) n) \<and> lock_free L_bcache s' \<and>
    (\<forall>b < NBUF. free_slock (SL_buf b) s' \<and> refcnt (bufs s' b) = 0)"
proof -
  let ?s0 = "(set_lock L_bcache (\<lambda>_. \<lparr>locked = False, lname = ''bcache'', lcpu = None\<rparr>) s)\<lparr>
     bufs := (bufs s)(HEAD := (bufs s HEAD)\<lparr>bprev := HEAD, bnext := HEAD\<rparr>)\<rparr>"
  let ?s' = "fold boot_buf [0..<NBUF] ?s0"
  have B: "bufs ?s' = booted (bufs s)" unfolding boot_bufs booted_def by simp
  have im: "img ?s' = img s" by (simp add: boot_bufs set_lock_def del: upt_rec_numeral)
  have z: "bufs s b = zero_buf" if "b < NBUF" for b using assms that by blast
  have "bc_wf (bufs ?s') (img ?s')"
    unfolding bc_wf_def B
  proof (intro conjI allI impI)
    show "\<exists>xs. lru (booted (bufs s)) xs \<and> set xs = {..<NBUF}"
      using booted_lru by (intro exI[of _ "rev [0..<NBUF]"]) (simp add: atLeast0LessThan del: upt_rec_numeral)
  qed (simp_all add: z zero_buf_def)
  moreover have "blk ?s' n = disk_block (img ?s') n" for n
    by (rule blk_uncached) (simp add: B z zero_buf_def)
  moreover have "lock_free L_bcache ?s'"
    by (rule boot_bufs) (simp add: lock_free_def set_lock_def)
  moreover have "free_slock (SL_buf b) ?s'" if "b < NBUF" for b
    using that by (intro boot_slocks) simp
  ultimately show ?thesis
    using binit_Ret[of s e] booted_lru[of "bufs s"] im B z by (intro exI[of _ ?s']) (simp add: zero_buf_def del: upt_rec_numeral)
qed

theorem binit_empty_cache_witness:
  "\<exists>s'. binit (disk_example\<lparr>bufs := (\<lambda>_. zero_buf)\<rparr>) [] = Ret () s' [] \<and> blk s' 7 = disk_block (\<lambda>i. of_nat i) 7"
  using binit_empty_cache[of "disk_example\<lparr>bufs := (\<lambda>_. zero_buf)\<rparr>" "[]"] by (auto simp: disk_example_def)

section \<open>Reading, releasing, running out\<close>

text \<open>
  C25: \<open>bread\<close> returns a locked buffer that holds the current content of the block, after at most one
  wait for the disk; no block of the disk, as seen through the cache, changes, nor does the disk.
\<close>

theorem bread_current_content:
  assumes "bc_ready i H P s" "disk_env i f" "card (H \<union> P) < NBUF" "\<forall>b \<in> H. blockno (bufs s b) \<noteq> n" "on_disk n"
  shows "\<exists>b s' e'. bread 1 n s [f] = Ret b s' e' \<and> bc_ready i (insert b H) P s' \<and> b \<notin> H \<and> blockno (bufs s' b) = n \<and>
    bdata (bufs s' b) = blk s n \<and> (\<forall>k. on_disk k \<longrightarrow> blk s' k = blk s k) \<and> img s' = img s"
proof -
  have "disk_envs i [f]" using assms(2) by (simp add: disk_envs_def)
  then have "wp (bread 1 n) (\<lambda>b s' e'. bc_ready i (insert b H) P s' \<and> b \<notin> H \<and> blockno (bufs s' b) = n \<and>
      bdata (bufs s' b) = blk s n \<and> (\<forall>k. on_disk k \<longrightarrow> blk s' k = blk s k) \<and> img s' = img s) s [f]"
    using assms(3) by (intro bread_wpc[OF assms(1) _ _ assms(4,5)]) (auto simp: same_view_def)
  then show ?thesis unfolding wp_iff by blast
qed

text \<open>
  C26: releasing the last reference to a buffer moves it to the front of the list and leaves the order
  of the others; a buffer the log keeps stays where it is.
\<close>

theorem brelse_moves_to_front:
  assumes "bc_ready i H P s" "b \<in> H" "lru (bufs s) (us @ b # vs)"
  shows "\<exists>s'. brelse b s e = Ret () s' e \<and> lru (bufs s') (if b \<in> P then us @ b # vs else b # us @ vs) \<and>
    refcnt (bufs s' b) = (if b \<in> P then 1 else 0) \<and> \<not> slocked (slocks s' (SL_buf b))"
proof -
  have "b < NBUF" using bc_readyD(6)[OF assms(1)] assms(2) by blast
  then have r: "refcnt (bufs s b) = (if b \<in> P then 2 else 1)" using bc_readyD(8)[OF assms(1)] assms(2) by simp
  have "lru (set_ref b n (bufs s)) (us @ b # vs)" for n
    using assms(3) lru_cong[of "set_ref b n (bufs s)" "bufs s"] by simp
  note this move_front_lru[OF this]
  then have "lru (released b (bufs s)) (if b \<in> P then us @ b # vs else b # us @ vs)"
    using r by (simp add: released_def)
  then show ?thesis using brelse_Ret[OF assms(1,2), of e] r by (simp add: released_ref unlocked_def)
qed

text \<open>When every buffer is referenced, a read of a block that is not cached stops the kernel.\<close>

lemma bread_full:
  assumes "bc_ready i H P s" "H \<union> P = {..<NBUF}" "\<forall>b < NBUF. blockno (bufs s b) \<noteq> n"
  shows "\<exists>s'. bread 1 n s e = Panic ''bget: no buffers'' s'"
proof -
  let ?a = "acq L_bcache s"
  obtain xs where xs: "lru (bufs s) xs" "set xs = {..<NBUF}" using bc_wfD(1)[OF bc_readyD(5)[OF assms(1)]] by blast
  have ch: "chain_of (\<lambda>b. bnext (bufs ?a b)) xs" "chain_of (\<lambda>b. bprev (bufs ?a b)) (rev xs)"
    "HEAD \<notin> set xs" "HEAD \<notin> set (rev xs)" "length xs \<le> NBUF" "length (rev xs) \<le> NBUF"
    using xs lru_length[OF xs] by (auto simp: lru_def)
  have "find (\<lambda>b. bdev (bufs ?a b) = 1 \<and> blockno (bufs ?a b) = n) xs = None"
    using assms(3) xs(2) by (auto simp: find_None_iff)
  moreover have "find (\<lambda>b. refcnt (bufs ?a b) = 0) (rev xs) = None"
    using bc_readyD(8)[OF assms(1)] assms(2) xs(2) by (auto simp: find_None_iff)
  ultimately have "bget 1 n s e = Panic ''bget: no buffers'' ?a"
    using bscan_find[OF ch(1,3,5), of "\<lambda>k. bdev k = 1 \<and> blockno k = n" e] bscan_find[OF ch(2,4,6), of "\<lambda>k. refcnt k = 0" e]
      bc_readyD(2,3)[OF assms(1)] runningD[OF bc_readyD(2)[OF assms(1)]]
    by (simp add: bget_def thn_def bnd_def acquire_Ret lock_freeD)
  then show ?thesis by (simp add: bread_def bnd_def)
qed

section \<open>Examples\<close>

text \<open>The cache after \<open>binit\<close>.\<close>

definition bio_example :: bufst where
  "bio_example = disk_example\<lparr>bufs := booted (\<lambda>_. zero_buf)\<rparr>"

lemma bio_example_ready: "bc_ready 2 {} {} bio_example"
proof (rule bc_readyI)
  show "bc_wf (bufs bio_example) (img bio_example)"
    unfolding bc_wf_def
  proof (intro conjI allI impI)
    show "\<exists>xs. lru (bufs bio_example) xs \<and> set xs = {..<NBUF}"
      using booted_lru by (intro exI[of _ "rev [0..<NBUF]"]) (simp add: bio_example_def atLeast0LessThan del: upt_rec_numeral)
  qed (simp_all add: bio_example_def zero_buf_def)
qed (use disk_example_ready in \<open>simp_all add: bio_example_def vd_ready_def zero_buf_def\<close>, simp_all add: disk_example_def)

theorem bread_current_content_witness:
  "\<exists>b s' e'. bread 1 5 bio_example [disk_step 2] = Ret b s' e' \<and> bdata (bufs s' b) = map of_nat [5120..<6144]"
proof -
  have "blk bio_example 5 = disk_block (\<lambda>i. of_nat i) 5"
    by (subst blk_uncached) (simp_all add: bio_example_def zero_buf_def disk_example_def)
  moreover have "unat (sector_of 5) = 10" by (simp add: sector_of_def)
  ultimately show ?thesis
    using bread_current_content[OF bio_example_ready disk_step_env, of 5] by (auto simp: on_disk_def disk_block_def)
qed

text \<open>Process 2 holds buffer 7, with block 7, which is the last but 22 in the list.\<close>

definition held_example :: bufst where
  "held_example = disk_example\<lparr>slocks := (\<lambda>_. \<lparr>slocked = False, slname = [], slpid = 0\<rparr>)(SL_buf 7 := \<lparr>slocked = True, slname = [], slpid = 0\<rparr>),
     bufs := booted ((\<lambda>_. zero_buf)(7 := zero_buf\<lparr>bvalid := 1, bdev := 1, blockno := 7, refcnt := 1\<rparr>))\<rparr>"

lemma held_example_ready: "bc_ready 2 {7} {} held_example"
proof (rule bc_readyI)
  show "bc_wf (bufs held_example) (img held_example)"
    unfolding bc_wf_def
  proof (intro conjI allI impI)
    show "\<exists>xs. lru (bufs held_example) xs \<and> set xs = {..<NBUF}"
      using booted_lru by (intro exI[of _ "rev [0..<NBUF]"]) (simp add: held_example_def atLeast0LessThan del: upt_rec_numeral)
  qed (auto simp: held_example_def zero_buf_def on_disk_def split: if_splits)
qed (use disk_example_ready in \<open>simp_all add: held_example_def vd_ready_def zero_buf_def\<close>, simp_all add: disk_example_def zero_proc_def)

theorem brelse_moves_to_front_witness:
  "\<exists>s'. brelse 7 held_example [] = Ret () s' [] \<and> lru (bufs s') (7 # rev [8..<NBUF] @ rev [0..<7])"
proof -
  have "lru (bufs held_example) (rev [8..<NBUF] @ 7 # rev [0..<7])"
  proof -
    have "rev [0..<NBUF] = rev [8..<NBUF] @ 7 # rev [0..<7]"
      using arg_cong[OF upt_split_at[of 7 NBUF], of rev] by (simp del: upt_rec_numeral upt_Suc)
    then show ?thesis using booted_lru by (simp add: held_example_def del: upt_rec_numeral)
  qed
  from brelse_moves_to_front[OF held_example_ready _ this, of "[]"] show ?thesis by auto
qed

end
