(* ===== verification/Bytes.thy ===== *)
theory Bytes
  imports Prelude
begin

text \<open>
  Integers in a block of bytes, least significant byte first, as the kernel reads and writes them
  through pointers into a buffer: the log header, inodes, directory entries and indirect blocks.
\<close>

unbundle bit_operations_syntax

section \<open>Half words and words\<close>

definition get16 :: "nat \<Rightarrow> byte list \<Rightarrow> u16" where
  "get16 k bs = ucast (bs ! k) OR push_bit 8 (ucast (bs ! (k + 1)))"

definition put16 :: "nat \<Rightarrow> u16 \<Rightarrow> byte list \<Rightarrow> byte list" where
  "put16 k w bs = bs[k := ucast w, k + 1 := ucast (drop_bit 8 w)]"

definition get32 :: "nat \<Rightarrow> byte list \<Rightarrow> u32" where
  "get32 k bs = ucast (bs ! k) OR push_bit 8 (ucast (bs ! (k + 1))) OR
     push_bit 16 (ucast (bs ! (k + 2))) OR push_bit 24 (ucast (bs ! (k + 3)))"

definition put32 :: "nat \<Rightarrow> u32 \<Rightarrow> byte list \<Rightarrow> byte list" where
  "put32 k w bs = bs[k := ucast w, k + 1 := ucast (drop_bit 8 w),
     k + 2 := ucast (drop_bit 16 w), k + 3 := ucast (drop_bit 24 w)]"

section \<open>Cells\<close>

text \<open>
  The laws of reading and writing an integer that takes \<open>width\<close> bytes, and what follows for an array
  of them that starts at byte \<open>base\<close>.
\<close>

locale cell =
  fixes get :: "nat \<Rightarrow> byte list \<Rightarrow> 'w"
    and put :: "nat \<Rightarrow> 'w \<Rightarrow> byte list \<Rightarrow> byte list"
    and width :: nat
  assumes width: "0 < width"
    and length_put: "length (put k w bs) = length bs"
    and get_put: "k + width \<le> length bs \<Longrightarrow> get k (put k w bs) = w"
    and nth_put: "j < k \<or> k + width \<le> j \<Longrightarrow> put k w bs ! j = bs ! j"
    and get_cong: "(\<And>j. k \<le> j \<Longrightarrow> j < k + width \<Longrightarrow> bs ! j = cs ! j) \<Longrightarrow> get k bs = get k cs"
begin

lemma get_put_far: "j + width \<le> k \<or> k + width \<le> j \<Longrightarrow> get j (put k w bs) = get j bs"
  by (rule get_cong) (auto intro: nth_put)

text \<open>The elements of an array.\<close>

definition arr :: "nat \<Rightarrow> nat \<Rightarrow> byte list \<Rightarrow> 'w" where
  "arr base i bs = get (base + width * i) bs"

definition put_arr :: "nat \<Rightarrow> (nat \<Rightarrow> 'w) \<Rightarrow> nat list \<Rightarrow> byte list \<Rightarrow> byte list" where
  "put_arr base f is bs = fold (\<lambda>i. put (base + width * i) (f i)) is bs"

lemma apart: "i \<noteq> j \<Longrightarrow> base + width * i + width \<le> base + width * j \<or> base + width * j + width \<le> base + width * i"
proof -
  assume "i \<noteq> j"
  then have "Suc i \<le> j \<or> Suc j \<le> i" by auto
  then have "width * Suc i \<le> width * j \<or> width * Suc j \<le> width * i" by (blast intro: mult_le_mono2)
  then show ?thesis by auto
qed

lemma arr_put: "base + width * Suc i \<le> length bs \<Longrightarrow> arr base j (put (base + width * i) w bs) = (if j = i then w else arr base j bs)"
  using apart[of i j base] get_put[of "base + width * i" bs w] get_put_far[of "base + width * j" "base + width * i" w bs]
  unfolding arr_def by (simp add: algebra_simps) blast

lemma length_put_arr: "length (put_arr base f is bs) = length bs"
  unfolding put_arr_def by (induction "is" arbitrary: bs) (simp_all add: length_put)

lemma arr_put_arr:
  assumes "\<And>i. i \<in> set is \<Longrightarrow> base + width * Suc i \<le> length bs"
  shows "arr base j (put_arr base f is bs) = (if j \<in> set is then f j else arr base j bs)"
  using assms
proof (induction "is" arbitrary: bs)
  case (Cons i "is")
  let ?bs = "put (base + width * i) (f i) bs"
  have "arr base j (put_arr base f is ?bs) = (if j \<in> set is then f j else arr base j ?bs)"
    using Cons.prems by (intro Cons.IH) (simp add: length_put)
  then show ?case using arr_put[of base i bs j "f i"] Cons.prems by (auto simp: put_arr_def)
qed (simp add: put_arr_def)

lemma get_put_arr:
  "k + width \<le> base \<Longrightarrow> get k (put_arr base f is bs) = get k bs"
  unfolding put_arr_def by (induction "is" arbitrary: bs) (simp_all add: get_put_far)

lemma nth_put_arr:
  "j < base \<Longrightarrow> put_arr base f is bs ! j = bs ! j"
  unfolding put_arr_def by (induction "is" arbitrary: bs) (simp_all add: nth_put)

end

lemma ucast_bytes16: "ucast (ucast (w :: u16) :: byte) OR push_bit 8 (ucast (ucast (drop_bit 8 w) :: byte)) = w"
proof (rule bit_word_eqI)
  fix n assume "n < LENGTH(16)"
  then show "bit ((ucast (ucast w :: byte) :: u16) OR push_bit 8 (ucast (ucast (drop_bit 8 w) :: byte))) n = bit w n"
    by (auto simp: bit_simps not_less)
qed

lemma ucast_bytes32:
  "ucast (ucast (w :: u32) :: byte) OR push_bit 8 (ucast (ucast (drop_bit 8 w) :: byte)) OR
   push_bit 16 (ucast (ucast (drop_bit 16 w) :: byte)) OR push_bit 24 (ucast (ucast (drop_bit 24 w) :: byte)) = w"
proof (rule bit_word_eqI)
  fix n assume n: "n < LENGTH(32)"
  consider "n < 8" | "8 \<le> n" "n < 16" | "16 \<le> n" "n < 24" | "24 \<le> n" by linarith
  then show "bit ((ucast (ucast w :: byte) :: u32) OR push_bit 8 (ucast (ucast (drop_bit 8 w) :: byte)) OR
   push_bit 16 (ucast (ucast (drop_bit 16 w) :: byte)) OR push_bit 24 (ucast (ucast (drop_bit 24 w) :: byte))) n = bit w n"
    using n by cases (auto simp: bit_simps)
qed

interpretation cell16: cell get16 put16 2
  by unfold_locales (auto simp: get16_def put16_def nth_list_update ucast_bytes16)

interpretation cell32: cell get32 put32 4
  by unfold_locales (auto simp: get32_def put32_def nth_list_update ucast_bytes32)

lemmas cell_simps = cell16.length_put cell16.get_put cell16.get_put_far cell16.length_put_arr
  cell32.length_put cell32.get_put cell32.get_put_far cell32.length_put_arr

text \<open>The integers of one size keep clear of those of another.\<close>

lemma get_put_mixed:
  "j + 2 \<le> k \<or> k + 4 \<le> j \<Longrightarrow> get16 j (put32 k w bs) = get16 j bs"
  "j + 4 \<le> k \<or> k + 2 \<le> j \<Longrightarrow> get32 j (put16 k v bs) = get32 j bs"
  by (auto simp: get16_def put32_def get32_def put16_def nth_list_update)

end
