(* ===== verification/Log.thy ===== *)
theory Log
  imports Bio Bytes
begin

text \<open>
  kernel/log.c: the redo log.  The blocks that a group of file system calls has changed stay in the
  cache until the last of the calls ends; then they are written to the log, the header commits them,
  and they are copied to their home locations.
\<close>

section \<open>State\<close>

record superblock =
  sb_magic :: u32
  sb_size :: u32
  sb_nblocks :: u32
  sb_ninodes :: u32
  sb_nlog :: u32
  sb_logstart :: u32
  sb_inodestart :: u32
  sb_bmapstart :: u32

text \<open>Block and device numbers are kept as the 32 bits that the C code moves between \<open>int\<close> and \<open>uint\<close>.\<close>

record logheader =
  lh_n :: int
  lh_block :: "nat \<Rightarrow> u32"

record log =
  l_start :: u32
  l_outstanding :: int
  l_committing :: int
  l_dev :: u32
  l_lh :: logheader

record logst = bufst +
  lg :: log

lemma lg_frame [simp, frame_simps]:
  "cpuid (lg_update g s) = cpuid s" "mycpu (lg_update g s) = mycpu s"
  "intr_get (lg_update g s) = intr_get s" "is_holding L (lg_update g s) = is_holding L s"
  "lock_free L (lg_update g s) = lock_free L s" "cpu_wf (lg_update g s) = cpu_wf s"
  "plocks_free (lg_update g s) = plocks_free s"
  "other_plocks_free (lg_update g s) = other_plocks_free s"
  "kmem_ready (lg_update g s) = kmem_ready s"
  "touch (lg_update g s) = lg_update g (touch s)"
  "acq L (lg_update g s) = lg_update g (acq L s)" "rel L (lg_update g s) = lg_update g (rel L s)"
  "intr_on (lg_update g s) = lg_update g (intr_on s)"
  "intr_off (lg_update g s) = lg_update g (intr_off s)"
  "set_mycpu k (lg_update g s) = lg_update g (set_mycpu k s)"
  "wakeup_st ch (lg_update g s) = lg_update g (wakeup_st ch s)"
  "kalloc_st (lg_update g s) = lg_update g (kalloc_st s)"
  "kfree_st pa (lg_update g s) = lg_update g (kfree_st pa s)"
  by (simp_all add: base_defs intr_get_def r_sstatus_def intr_on_def intr_off_def w_sstatus_def
      wakeup_st_def kalloc_st_def kfree_st_def plocks_free_def other_plocks_free_def kmem_ready_def)

lemma lg_kept [simp, frame_simps]:
  "lg (touch s) = lg s" "lg (acq L s) = lg s" "lg (rel L s) = lg s" "lg (intr_on s) = lg s"
  "lg (intr_off s) = lg s" "lg (set_mycpu k s) = lg s" "lg (wakeup_st ch s) = lg s"
  "lg (kalloc_st s) = lg s" "lg (kfree_st pa s) = lg s"
  by (simp_all add: base_defs intr_on_def intr_off_def w_sstatus_def wakeup_st_def kalloc_st_def
      kfree_st_def)

lemma lg_slept [simp]: "lg (sleep_st ch lk i s) = lg s" "lg (woke_st lk i ia s) = lg s"
  by (simp_all add: sleep_st_def woke_st_def)

lemma lg_calm [simp]:
  "running i (lg_update g s) = running i s" "under lk i (lg_update g s) = under lk i s"
  "calm (lg_update g s) t = calm s t" "calm s (lg_update g t) = calm s t"
  by (simp_all add: running_def under_def sleep_call_def calm_def)


definition upd_lg :: "(log \<Rightarrow> log) \<Rightarrow> ('z logst_scheme, unit) kop" where
  "upd_lg f = upd (\<lambda>s. s\<lparr>lg := f (lg s)\<rparr>)"

definition upd_lh :: "(logheader \<Rightarrow> logheader) \<Rightarrow> ('z logst_scheme, unit) kop" where
  "upd_lh f = upd_lg (\<lambda>g. g\<lparr>l_lh := f (l_lh g)\<rparr>)"

definition upd_data :: "nat \<Rightarrow> (byte list \<Rightarrow> byte list) \<Rightarrow> ('z bufst_scheme, unit) kop" where
  "upd_data b f = upd_buf b (\<lambda>k. k\<lparr>bdata := f (bdata k)\<rparr>)"

lemma log_upd_app [kop_simps, simp]:
  "upd_lg f s e = Ret () (s\<lparr>lg := f (lg s)\<rparr>) e"
  "upd_lh h s e = Ret () (s\<lparr>lg := (lg s)\<lparr>l_lh := h (l_lh (lg s))\<rparr>\<rparr>) e"
  by (simp_all add: upd_lg_def upd_lh_def)

lemma upd_data_app [kop_simps, simp]:
  "upd_data b f s e = Ret () (s\<lparr>bufs := (bufs s)(b := (bufs s b)\<lparr>bdata := f (bdata (bufs s b))\<rparr>)\<rparr>) e"
  by (simp add: upd_data_def)

section \<open>Operations\<close>

text \<open>
  A loop over the entries of the header.  The array has \<open>LOGBLOCKS\<close> entries, so round number
  \<open>LOGBLOCKS\<close> ends the loop or leaves the array.
\<close>

definition log_round :: "(nat \<Rightarrow> ('z logst_scheme, unit) kop) \<Rightarrow> nat \<Rightarrow> ('z logst_scheme, nat + unit) kop" where
  "log_round body tail =
     bnd (rd (\<lambda>s. lh_n (l_lh (lg s)))) (\<lambda>n.
     if int tail < n then
       if tail < LOGBLOCKS then thn (body tail) (ret (Inl (Suc tail))) else undefined_behaviour
     else ret (Inr ()))"

definition log_loop :: "(nat \<Rightarrow> ('z logst_scheme, unit) kop) \<Rightarrow> ('z logst_scheme, unit) kop" where
  "log_loop body = loop_fuel (Suc LOGBLOCKS) (log_round body) 0"

text \<open>Reading a block whose number depends on the log.\<close>

definition log_bread :: "(log \<Rightarrow> u32) \<Rightarrow> ('z logst_scheme, nat) kop" where
  "log_bread f = bnd (rd lg) (\<lambda>g. bread (l_dev g) (f g))"

definition log_slot :: "nat \<Rightarrow> log \<Rightarrow> u32" where
  "log_slot tail g = l_start g + of_nat tail + 1"

definition log_home :: "nat \<Rightarrow> log \<Rightarrow> u32" where
  "log_home tail g = lh_block (l_lh g) tail"

definition copy_buf :: "nat \<Rightarrow> nat \<Rightarrow> ('z bufst_scheme, unit) kop" where
  "copy_buf dst src = bnd (rd (\<lambda>s. bdata (bufs s src))) (\<lambda>d. upd_data dst (\<lambda>_. d))"

definition recovering_msg :: "nat \<Rightarrow> ('z logst_scheme, unit) kop" where
  "recovering_msg tail =
     bnd (rd (\<lambda>s. log_home tail (lg s))) (\<lambda>dst.
     thn (printf (''recovering tail %d dst %d'' @ [CHR 0x0A]) [VW (of_nat tail), VW (scast dst)])
     (ret ()))"

definition install_one :: "bool \<Rightarrow> nat \<Rightarrow> ('z logst_scheme, unit) kop" where
  "install_one recovering tail =
     thn (if recovering then recovering_msg tail else ret ()) (
     bnd (log_bread (log_slot tail)) (\<lambda>lbuf.
     bnd (log_bread (log_home tail)) (\<lambda>dbuf.
     thn (copy_buf dbuf lbuf) (
     thn (bwrite dbuf) (
     thn (if \<not> recovering then bunpin dbuf else ret ()) (
     thn (brelse lbuf)
     (brelse dbuf)))))))"

definition install_trans :: "bool \<Rightarrow> ('z logst_scheme, unit) kop" where
  "install_trans recovering = log_loop (install_one recovering)"

definition read_head :: "('z logst_scheme, unit) kop" where
  "read_head =
     bnd (log_bread l_start) (\<lambda>b.
     bnd (rd (\<lambda>s. bdata (bufs s b))) (\<lambda>d.
     thn (upd_lh (\<lambda>h. h\<lparr>lh_n := sint (get32 0 d)\<rparr>)) (
     thn (log_loop (\<lambda>i. upd_lh (\<lambda>h. h\<lparr>lh_block := (lh_block h)(i := get32 (4 + 4 * i) d)\<rparr>)))
     (brelse b))))"

definition write_head :: "('z logst_scheme, unit) kop" where
  "write_head =
     bnd (log_bread l_start) (\<lambda>b.
     bnd (rd (\<lambda>s. lh_n (l_lh (lg s)))) (\<lambda>n.
     thn (upd_data b (put32 0 (word_of_int n))) (
     thn (log_loop (\<lambda>i. bnd (rd (\<lambda>s. log_home i (lg s))) (\<lambda>w. upd_data b (put32 (4 + 4 * i) w)))) (
     thn (bwrite b)
     (brelse b)))))"

definition recover_from_log :: "('z logst_scheme, unit) kop" where
  "recover_from_log =
     thn read_head (
     thn (install_trans True) (
     thn (upd_lh (\<lambda>h. h\<lparr>lh_n := 0\<rparr>))
     write_head))"

definition initlog :: "u32 \<Rightarrow> superblock \<Rightarrow> ('z logst_scheme, unit) kop" where
  "initlog dev sb =
     (if 4 + 4 * LOGBLOCKS \<ge> BSIZE then panic ''initlog: too big logheader'' else
      thn (initlock L_log ''log'') (
      thn (upd_lg (\<lambda>g. g\<lparr>l_start := sb_logstart sb\<rparr>)) (
      thn (upd_lg (\<lambda>g. g\<lparr>l_dev := dev\<rparr>))
      recover_from_log)))"

definition begin_round :: "('z logst_scheme, unit + unit) kop" where
  "begin_round =
     bnd (rd lg) (\<lambda>g.
     if l_committing g \<noteq> 0 then thn (sleep C_log L_log) (ret (Inl ()))
     else if lh_n (l_lh g) + (l_outstanding g + 1) * int MAXOPBLOCKS > int LOGBLOCKS then
       thn (sleep C_log L_log) (ret (Inl ()))
     else
       thn (upd_lg (\<lambda>g. g\<lparr>l_outstanding := l_outstanding g + 1\<rparr>)) (
       thn (release L_log)
       (ret (Inr ()))))"

definition begin_op :: "('z logst_scheme, unit) kop" where
  "begin_op = thn (acquire L_log) (loop (\<lambda>_. 0) (\<lambda>_. begin_round) ())"

definition write_one :: "nat \<Rightarrow> ('z logst_scheme, unit) kop" where
  "write_one tail =
     bnd (log_bread (log_slot tail)) (\<lambda>to.
     bnd (log_bread (log_home tail)) (\<lambda>from.
     thn (copy_buf to from) (
     thn (bwrite to) (
     thn (brelse from)
     (brelse to)))))"

definition write_log :: "('z logst_scheme, unit) kop" where
  "write_log = log_loop write_one"

definition commit :: "('z logst_scheme, unit) kop" where
  "commit =
     bnd (rd (\<lambda>s. lh_n (l_lh (lg s)))) (\<lambda>n.
     if n > 0 then
       thn write_log (
       thn write_head (
       thn (install_trans False) (
       thn (upd_lh (\<lambda>h. h\<lparr>lh_n := 0\<rparr>))
       write_head)))
     else ret ())"

definition end_op :: "('z logst_scheme, unit) kop" where
  "end_op =
     thn (acquire L_log) (
     thn (upd_lg (\<lambda>g. g\<lparr>l_outstanding := l_outstanding g - 1\<rparr>)) (
     bnd (rd (\<lambda>s. l_committing (lg s))) (\<lambda>c.
     if c \<noteq> 0 then panic ''log.committing'' else
     bnd (rd (\<lambda>s. l_outstanding (lg s) = 0)) (\<lambda>last.
     thn (if last then upd_lg (\<lambda>g. g\<lparr>l_committing := 1\<rparr>) else wakeup (Some C_log)) (
     thn (release L_log)
     (if last then
        thn commit (
        thn (acquire L_log) (
        thn (upd_lg (\<lambda>g. g\<lparr>l_committing := 0\<rparr>)) (
        thn (wakeup (Some C_log))
        (release L_log))))
      else ret ()))))))"

text \<open>The least index below \<open>n\<close> of the block in the header, or \<open>n\<close>.\<close>

definition log_index :: "u32 \<Rightarrow> logheader \<Rightarrow> nat" where
  "log_index bno h = (case find_index (\<lambda>i. lh_block h i = bno) [0..<nat (lh_n h)] of
     Some i \<Rightarrow> i | None \<Rightarrow> nat (lh_n h))"

definition log_write :: "nat \<Rightarrow> ('z logst_scheme, unit) kop" where
  "log_write b =
     thn (acquire L_log) (
     bnd (rd (\<lambda>s. lh_n (l_lh (lg s)) \<ge> int LOGBLOCKS)) (\<lambda>full.
     if full then panic ''too big a transaction'' else
     bnd (rd (\<lambda>s. l_outstanding (lg s) < 1)) (\<lambda>out.
     if out then panic ''log_write outside of trans'' else
     bnd (rd (\<lambda>s. blockno (bufs s b))) (\<lambda>bno.
     bnd (rd (\<lambda>s. log_index bno (l_lh (lg s)))) (\<lambda>i.
     thn (upd_lh (\<lambda>h. h\<lparr>lh_block := (lh_block h)(i := bno)\<rparr>)) (
     bnd (rd (\<lambda>s. int i = lh_n (l_lh (lg s)))) (\<lambda>new.
     thn (if new then thn (bpin b) (upd_lh (\<lambda>h. h\<lparr>lh_n := lh_n h + 1\<rparr>)) else ret ())
     (release L_log))))))))"

section \<open>The entries of the log\<close>

text \<open>
  The first \<open>n\<close> entries name distinct blocks of the disk outside the log, which lies in the first
  half of the block numbers.
\<close>

definition in_log :: "log \<Rightarrow> u32 \<Rightarrow> bool" where
  "in_log g k \<longleftrightarrow> (\<exists>j \<le> LOGBLOCKS. k = l_start g + of_nat j)"

definition log_ok :: "log \<Rightarrow> nat \<Rightarrow> bool" where
  "log_ok g n \<longleftrightarrow> l_dev g = 1 \<and> unat (l_start g) + LOGBLOCKS < 2 ^ 31 \<and> lh_n (l_lh g) = int n \<and> n \<le> LOGBLOCKS \<and>
     inj_on (lh_block (l_lh g)) {..<n} \<and> (\<forall>j < n. on_disk (log_home j g) \<and> \<not> in_log g (log_home j g))"

lemma log_okD:
  assumes "log_ok g n"
  shows "l_dev g = 1" "unat (l_start g) + LOGBLOCKS < 2 ^ 31" "lh_n (l_lh g) = int n" "n \<le> LOGBLOCKS"
    "i < n \<Longrightarrow> j < n \<Longrightarrow> log_home i g = log_home j g \<longleftrightarrow> i = j" "j < n \<Longrightarrow> on_disk (log_home j g)"
    "j < n \<Longrightarrow> \<not> in_log g (log_home j g)"
  using assms unfolding log_ok_def inj_on_def log_home_def by auto

lemma log_offset:
  assumes "unat (a :: u32) + LOGBLOCKS < 2 ^ 31" "j \<le> LOGBLOCKS"
  shows "unat (a + of_nat j) = unat a + j"
  using assms by (simp add: unat_word_ariths unat_of_nat)

lemma slot_offset: "log_slot j g = l_start g + of_nat (Suc j)"
  by (simp add: log_slot_def add.assoc add.commute)

lemma log_slots:
  assumes "unat (l_start g) + LOGBLOCKS < 2 ^ 31" "i < LOGBLOCKS" "j < LOGBLOCKS"
  shows "log_slot i g = log_slot j g \<longleftrightarrow> i = j" "log_slot j g \<noteq> l_start g" "on_disk (log_slot j g)"
    "in_log g (log_slot j g)" "on_disk (l_start g)" "in_log g (l_start g)"
proof -
  have u: "unat (log_slot j g) = unat (l_start g) + Suc j" if "j < LOGBLOCKS" for j
    using log_offset[OF assms(1), of "Suc j"] that unfolding slot_offset by simp
  show "log_slot i g = log_slot j g \<longleftrightarrow> i = j" using u[OF assms(2)] u[OF assms(3)] by (metis add_left_cancel nat.inject)
  show "log_slot j g \<noteq> l_start g" using u[OF assms(3)] by (metis add_cancel_left_right nat.distinct(1))
  show "on_disk (log_slot j g)" "on_disk (l_start g)" using u[OF assms(3)] assms by (simp_all add: on_disk_def)
  show "in_log g (log_slot j g)" using assms(3) unfolding in_log_def slot_offset by (intro exI[of _ "Suc j"]) simp
  show "in_log g (l_start g)" unfolding in_log_def by (intro exI[of _ 0]) simp
qed

lemma wp_ret_eta [wp_simps]: "wpc (ret x) Q R = Q x"
  by (intro ext) (simp add: wp_simps)

text \<open>A loop over the entries, by an invariant.\<close>

lemma log_loop_wpc:
  assumes step: "\<And>k s e. k < n \<Longrightarrow> I k s e \<Longrightarrow> wpc (body k) (\<lambda>_ s' e'. I (Suc k) s' e') R s e"
    and n: "\<And>k s e. I k s e \<Longrightarrow> lh_n (l_lh (lg s)) = int n" "n \<le> LOGBLOCKS"
    and init: "I 0 s e" and Q: "\<And>s' e'. I n s' e' \<Longrightarrow> Q () s' e'"
  shows "wpc (log_loop body) Q R s e"
  unfolding log_loop_def
proof (rule wp_loop_fuel[where I = "\<lambda>k s e. k \<le> n \<and> I k s e" and meas = "\<lambda>k s e. n - k"])
  fix k s e assume I: "k \<le> n \<and> I k s e"
  show "wpc (log_round body k) (\<lambda>r s' e'. case r of
      Inl y \<Rightarrow> (y \<le> n \<and> I y s' e') \<and> n - y < n - k | Inr z \<Rightarrow> Q z s' e') R s e"
  proof (cases "k < n")
    case True
    have "wpc (body k) (\<lambda>_ s' e'. (Suc k \<le> n \<and> I (Suc k) s' e') \<and> n - Suc k < n - k) R s e"
      using I True diff_less_mono2[of k "Suc k" n] by (intro wp_mono[OF step[OF True]]) auto
    then show ?thesis using n(1)[of k s e] I True n(2) by (simp add: log_round_def wp_simps)
  next
    case False
    then have "k = n" using I by simp
    then show ?thesis using n(1)[of k s e] I Q by (simp add: log_round_def wp_simps)
  qed
qed (use init n(2) in simp_all)

lemma log_bread_wpc:
  assumes "wpc (bread (l_dev (lg s)) (f (lg s))) Q R s e"
  shows "wpc (log_bread f) Q R s e"
  using assms by (simp add: log_bread_def wp_simps)

lemma same_more: "bufst.more s' = bufst.more s \<Longrightarrow> lg s' = lg s \<and> logst.more s' = logst.more s"
  by (cases s, cases s') simp

lemma bio_rest_lg: "bio_rest s s' \<Longrightarrow> lg s' = lg s"
  using same_more[of s' s] by (simp add: bio_rest_def)

lemma lg_bio [simp]:
  "vd_ready i (lg_update g s) = vd_ready i s" "bc_ready i H P (lg_update g s) = bc_ready i H P s"
  "blk (lg_update g s) k = blk s k"
  by (simp_all add: vd_ready_def bc_ready_def blk_def split: option.split)

section \<open>The cache with the blocks the log keeps\<close>

lemma blk_clean:
  assumes r: "bc_ready i H P s" and "\<And>b. b \<in> H \<union> P \<Longrightarrow> blockno (bufs s b) \<noteq> k"
  shows "blk s k = disk_block (img s) k"
proof (cases "\<exists>b < NBUF. bvalid (bufs s b) \<noteq> 0 \<and> blockno (bufs s b) = k")
  case True
  then obtain b where b: "b < NBUF" "bvalid (bufs s b) \<noteq> 0" "blockno (bufs s b) = k" by blast
  then have "b \<notin> H \<union> P" using assms(2) by blast
  then have "refcnt (bufs s b) = 0" using bc_readyD(8)[OF r b(1)] by simp
  then show ?thesis using bc_wfD(5)[OF bc_readyD(5)[OF r] b(1) _ b(2)] blk_cached[OF bc_readyD(5)[OF r] b(1,2)] b(3) by simp
next
  case False
  then show ?thesis by (intro blk_uncached) blast
qed

lemma blk_held:
  assumes "bc_ready i H P s" "b \<in> H \<union> P"
  shows "blk s (blockno (bufs s b)) = bdata (bufs s b)" "length (bdata (bufs s b)) = BSIZE" "bdev (bufs s b) = 1"
    "on_disk (blockno (bufs s b))" "b < NBUF"
proof -
  have b: "b < NBUF" "bvalid (bufs s b) \<noteq> 0" using assms bc_readyD(6,7,11)[OF assms(1)] by auto
  note wf = bc_readyD(5)[OF assms(1)]
  show "blk s (blockno (bufs s b)) = bdata (bufs s b)" using blk_cached[OF wf b] .
  show "length (bdata (bufs s b)) = BSIZE" "bdev (bufs s b) = 1" "on_disk (blockno (bufs s b))" "b < NBUF"
    using bc_wfD(2,3,6)[OF wf b(1)] b by simp_all
qed

lemma held_inj:
  assumes "bc_ready i H P s" "b \<in> H \<union> P" "c \<in> H \<union> P" "blockno (bufs s b) = blockno (bufs s c)"
  shows "b = c"
  using bc_wfD(4)[OF bc_readyD(5)[OF assms(1)]] blk_held(3,5)[OF assms(1)] assms(2-4) by blast

text \<open>Copying one held buffer to another.\<close>

lemma copy_wpc:
  assumes r: "bc_ready i H P s" and b: "dst \<in> H" "src \<in> H"
    and Q: "\<And>s'. bc_ready i H P s' \<Longrightarrow> bio_rest s s' \<Longrightarrow> img s' = img s \<Longrightarrow> bdata (bufs s' dst) = bdata (bufs s src) \<Longrightarrow>
      blockno (bufs s' dst) = blockno (bufs s dst) \<Longrightarrow> \<forall>c. c \<noteq> dst \<longrightarrow> bufs s' c = bufs s c \<Longrightarrow>
      bufst.more s' = bufst.more s \<Longrightarrow> Q () s' e"
  shows "wpc (copy_buf dst src) Q R s e"
proof -
  let ?s' = "s\<lparr>bufs := (bufs s)(dst := (bufs s dst)\<lparr>bdata := bdata (bufs s src)\<rparr>)\<rparr>"
  have "length (bdata (bufs s src)) = BSIZE" using blk_held(2)[OF r] b by blast
  from bc_ready_modify[OF r b(1) this refl] have "Q () ?s' e" by (intro Q) simp_all
  then show ?thesis by (simp add: copy_buf_def wp_Ret bnd_def)
qed

section \<open>The disk as a map from block numbers\<close>

definition dsk :: "(nat \<Rightarrow> byte) \<Rightarrow> u32 \<Rightarrow> byte list" where
  "dsk m = (\<lambda>k. if on_disk k then disk_block m k else [])"

lemma dsk_write: "on_disk k \<Longrightarrow> length d = BSIZE \<Longrightarrow> dsk (disk_write m k d) = (dsk m)(k := d)"
  using disk_block_write[of k _ d m] by (auto simp: dsk_def on_disk_def fun_eq_iff)

primrec written :: "(nat \<Rightarrow> u32) \<Rightarrow> (nat \<Rightarrow> byte list) \<Rightarrow> nat \<Rightarrow> (u32 \<Rightarrow> byte list) \<Rightarrow> u32 \<Rightarrow> byte list" where
  "written f D 0 m = m"
| "written f D (Suc k) m = (written f D k m)(f k := D k)"

lemma written_other: "(\<And>j. j < k \<Longrightarrow> f j \<noteq> x) \<Longrightarrow> written f D k m x = m x"
  by (induction k) auto

lemma written_at: "(\<And>i. i < k \<Longrightarrow> f i = f j \<longleftrightarrow> i = j) \<Longrightarrow> j < k \<Longrightarrow> written f D k m (f j) = D j"
proof (induction k)
  case (Suc k)
  show ?case
  proof (cases "j = k")
    case False
    then have "f j \<noteq> f k" "j < k" using Suc.prems(1)[of k] Suc.prems(2) by auto
    then show ?thesis using Suc by simp
  qed simp
qed simp

text \<open>What the log leaves alone beside its own fields and the console output.\<close>

definition log_rest :: "'z logst_scheme \<Rightarrow> 'z logst_scheme \<Rightarrow> bool" where
  "log_rest s s' \<longleftrightarrow> calm (s\<lparr>thr := thr s'\<rparr>) s' \<and> cons s' = cons s \<and> devsw s' = devsw s \<and> pipes s' = pipes s \<and>
     logst.more s' = logst.more s \<and> (\<forall>k. slocks s' (SL_inode k) = slocks s (SL_inode k))"

lemma bio_log_rest: "bio_rest s s' \<Longrightarrow> log_rest s s'"
  using same_more[of s' s] by (simp add: log_rest_def bio_rest_def calm_def)

lemma log_rest_refl [simp]: "log_rest s s" "log_rest s (lg_update g s)"
  by (simp_all add: log_rest_def)

lemma log_rest_trans [trans]: "log_rest s t \<Longrightarrow> log_rest t u \<Longrightarrow> log_rest s u"
  by (simp add: log_rest_def calm_def)

lemma thr_calm [simp]:
  "vd_ready i (thr_update g s) = vd_ready i s" "bc_ready i H P (thr_update g s) = bc_ready i H P s"
  by (simp_all add: vd_ready_def bc_ready_def running_def)

section \<open>Writing the log\<close>

type_synonym 's env = "('s \<Rightarrow> 's) list"

text \<open>The cache keeps the home blocks of the entries \<open>K\<close>, in the buffers \<open>P\<close>.\<close>

definition pinned :: "log \<Rightarrow> nat set \<Rightarrow> nat set \<Rightarrow> 'z bufst_scheme \<Rightarrow> bool" where
  "pinned g K P s \<longleftrightarrow> (\<lambda>b. blockno (bufs s b)) ` P = (\<lambda>j. log_home j g) ` K"

lemma pinned_cong: "\<forall>c \<in> P. same_buf (bufs s c) (bufs s' c) \<Longrightarrow> pinned g K P s' = pinned g K P s"
  by (auto simp: pinned_def same_buf_def cong: image_cong)

lemma pinned_card:
  assumes "bc_ready i H P s" "pinned g K P s" "finite K"
  shows "card P \<le> card K"
proof -
  have "inj_on (\<lambda>b. blockno (bufs s b)) P" using held_inj[OF assms(1)] by (auto simp: inj_on_def)
  then have "card P = card ((\<lambda>b. blockno (bufs s b)) ` P)" by (simp add: card_image)
  then show ?thesis using assms(2) card_image_le[OF assms(3), of "\<lambda>j. log_home j g"] by (simp add: pinned_def)
qed

lemma room:
  assumes "bc_ready i H P s" "card H + card P < NBUF"
  shows "card (H \<union> P) < NBUF"
  using card_Un_le[of H P] assms(2) by simp

text \<open>Reading a block of the log and then the home block of the same entry.\<close>

lemma bread2_wpc:
  fixes s :: "'z logst_scheme"
  assumes r: "bc_ready i {} P s" and g: "log_ok (lg s) n" and p: "pinned (lg s) K P s" and j: "j < n"
    and room: "card P + 2 \<le> NBUF \<or> j \<in> K \<and> card P + 1 \<le> NBUF" and K: "K \<subseteq> {..<n}" and env: "disk_envs i e"
    and Q: "\<And>a b s' e'. bc_ready i {a, b} P s' \<Longrightarrow> a \<noteq> b \<Longrightarrow> a \<notin> P \<Longrightarrow> blockno (bufs s' a) = log_slot j (lg s) \<Longrightarrow>
      blockno (bufs s' b) = log_home j (lg s) \<Longrightarrow> bdata (bufs s' a) = blk s (log_slot j (lg s)) \<Longrightarrow>
      bdata (bufs s' b) = blk s (log_home j (lg s)) \<Longrightarrow> bio_rest s s' \<Longrightarrow> img s' = img s \<Longrightarrow>
      \<forall>c \<in> P. same_buf (bufs s c) (bufs s' c) \<Longrightarrow> disk_envs i e' \<Longrightarrow> length e \<le> 2 + length e' \<Longrightarrow>
      length e' \<le> length e \<Longrightarrow> wpc (f a b) Q R s' e'"
    and R: "\<And>s'. length e < 2 \<Longrightarrow> img s' = img s \<Longrightarrow> R s'"
  shows "wpc (bnd (log_bread (log_slot j)) (\<lambda>a. bnd (log_bread (log_home j)) (f a))) Q R s e"
  unfolding wp_bnd
proof (rule log_bread_wpc)
  let ?g = "lg s"
  note G = log_okD[OF g]
  have jl: "j < LOGBLOCKS" using j G(4) by simp
  note sl = log_slots[OF G(2) jl jl]
  have ne: "log_home j ?g \<noteq> log_slot j ?g" using G(7)[OF j] sl(4) by metis
  have room1: "card ({} \<union> P) < NBUF" using room by auto
  have slotP: "blockno (bufs s b) \<noteq> log_slot j ?g" if "b \<in> P" for b
  proof -
    have "blockno (bufs s b) \<in> (\<lambda>j. log_home j ?g) ` K" using p that unfolding pinned_def by blast
    then obtain k where "k < n" "blockno (bufs s b) = log_home k ?g" using K by blast
    then show ?thesis using G(7) sl(4) by metis
  qed
  have d1: "l_dev (lg s) = 1" by (rule G(1))
  show "wpc (bread (l_dev (lg s)) (log_slot j (lg s))) (\<lambda>a. wpc (log_bread (log_home j)) (\<lambda>x. wpc (f a x) Q R) R) R s e"
    unfolding d1
  proof (rule bread_wpc[OF r env])
    fix a and s1 :: "'z logst_scheme" and e1 :: "('z logst_scheme) env"
    assume a: "bc_ready i (insert a {}) P s1" "a < NBUF" "blockno (bufs s1 a) = log_slot j ?g" "bdata (bufs s1 a) = blk s (log_slot j ?g)"
      "same_view s s1" "\<forall>c \<in> {} \<union> P. same_buf (bufs s c) (bufs s1 c)" "img s1 = img s" "bio_rest s s1" "disk_envs i e1"
      "length e \<le> Suc (length e1)" "length e1 \<le> length e"
    have aP: "a \<notin> P"
    proof
      assume "a \<in> P"
      then have "blockno (bufs s1 a) = blockno (bufs s a)" using a(6) by (simp add: same_buf_def)
      then show False using slotP[OF \<open>a \<in> P\<close>] a(3) by simp
    qed
    have lg1: "lg s1 = ?g" using bio_rest_lg[OF a(8)] .
    have p1: "pinned ?g K P s1" using p pinned_cong[of P s s1] a(6) by simp
    have fP: "finite P" using bc_readyD(7)[OF r] finite_subset by blast
    have room2: "card (insert a {} \<union> P) < NBUF \<or> (\<exists>b \<in> P. blockno (bufs s1 b) = log_home j ?g)"
    proof (cases "j \<in> K")
      case True
      then have "log_home j ?g \<in> (\<lambda>b. blockno (bufs s1 b)) ` P" using p1 unfolding pinned_def by blast
      then show ?thesis by auto
    next
      case False
      then show ?thesis using room fP aP by simp
    qed
    show "wpc (log_bread (log_home j)) (\<lambda>x. wpc (f a x) Q R) R s1 e1"
    proof (rule log_bread_wpc, unfold lg1 d1, rule bread_wpc[OF a(1,9) room2])
      show "\<forall>b \<in> insert a {}. blockno (bufs s1 b) \<noteq> log_home j ?g" using a(3) ne by simp
      show "on_disk (log_home j ?g)" using G(6)[OF j] .
      fix b and s2 :: "'z logst_scheme" and e2 :: "('z logst_scheme) env"
      assume b: "bc_ready i (insert b (insert a {})) P s2" "b \<notin> insert a {}" "blockno (bufs s2 b) = log_home j ?g"
        "bdata (bufs s2 b) = blk s1 (log_home j ?g)" "same_view s1 s2"
        "\<forall>c \<in> insert a {} \<union> P. same_buf (bufs s1 c) (bufs s2 c)" "img s2 = img s1" "bio_rest s1 s2" "disk_envs i e2"
        "length e1 \<le> Suc (length e2)" "length e2 \<le> length e1"
      have "insert b (insert a {}) = {a, b}" by auto
      then have "bc_ready i {a, b} P s2" using b(1) by simp
      moreover have "same_buf (bufs s1 a) (bufs s2 a)" using b(6) by blast
      moreover have "blk s1 (log_home j ?g) = blk s (log_home j ?g)" using a(5) G(6)[OF j] by (simp add: same_view_def)
      moreover have "\<forall>c \<in> P. same_buf (bufs s c) (bufs s2 c)" using a(6) b(6) bio_rest_trans(2) by blast
      ultimately show "wpc (f a b) Q R s2 e2"
        using a b aP bio_rest_trans(1)[OF a(8) b(8)] by (intro Q) (auto simp: same_buf_def)
    next
      fix s' :: "'z logst_scheme" assume "e1 = []" "img s' = img s1"
      then show "R s'" using a(7,10) by (intro R) auto
    qed
  next
    fix s' :: "'z logst_scheme" assume "e = []" "img s' = img s"
    then show "R s'" by (intro R) auto
  qed (use room1 sl(3) in auto)
qed

lemma disk_calm [simp]: "disk_envs i ([] :: ('z bufst_scheme \<Rightarrow> 'z bufst_scheme) list)"
  by (simp add: disk_envs_def)

lemma write_one_wpc:
  fixes s :: "'z logst_scheme"
  assumes r: "bc_ready i {} P s" and g: "log_ok (lg s) n" and p: "pinned (lg s) {..<n} P s" and j: "j < n"
    and n: "n < LOGBLOCKS" and env: "disk_envs i e"
    and Q: "\<And>s' e'. bc_ready i {} P s' \<Longrightarrow> bio_rest s s' \<Longrightarrow>
      dsk (img s') = (dsk (img s))(log_slot j (lg s) := blk s (log_home j (lg s))) \<Longrightarrow>
      \<forall>c \<in> P. same_buf (bufs s c) (bufs s' c) \<Longrightarrow> disk_envs i e' \<Longrightarrow> length e \<le> 3 + length e' \<Longrightarrow>
      length e' < length e \<Longrightarrow> Q () s' e'"
    and R: "\<And>s'. length e < 3 \<Longrightarrow> img s' = img s \<Longrightarrow> R s'"
  shows "wpc (write_one j) Q R s e"
  unfolding write_one_def
proof (rule bread2_wpc[OF r g p j _ _ env])
  let ?g = "lg s"
  note G = log_okD[OF g]
  have jl: "j < LOGBLOCKS" using j G(4) by simp
  note sl = log_slots[OF G(2) jl jl]
  have "card P \<le> n" using pinned_card[OF r p] by simp
  then show "card P + 2 \<le> NBUF \<or> j \<in> {..<n} \<and> card P + 1 \<le> NBUF" using j n by simp
  fix a b and s1 :: "'z logst_scheme" and e1 :: "('z logst_scheme) env"
  assume ab: "bc_ready i {a, b} P s1" "a \<noteq> b" "a \<notin> P" "blockno (bufs s1 a) = log_slot j ?g"
    "blockno (bufs s1 b) = log_home j ?g" "bdata (bufs s1 a) = blk s (log_slot j ?g)"
    "bdata (bufs s1 b) = blk s (log_home j ?g)" "bio_rest s s1" "img s1 = img s"
    "\<forall>c \<in> P. same_buf (bufs s c) (bufs s1 c)" "disk_envs i e1" "length e \<le> 2 + length e1" "length e1 \<le> length e"
  have p1: "pinned ?g {..<n} P s1" using p pinned_cong[of P s s1] ab(10) by simp
  have bP: "b \<in> P"
  proof -
    have "log_home j ?g \<in> (\<lambda>b. blockno (bufs s1 b)) ` P" using p1 j unfolding pinned_def by blast
    then obtain c where "c \<in> P" "blockno (bufs s1 c) = log_home j ?g" by auto
    then show ?thesis using held_inj[OF ab(1), of b c] ab(5) by auto
  qed
  show "wpc (thn (copy_buf a b) (thn (bwrite a) (thn (brelse b) (brelse a)))) Q R s1 e1"
    unfolding wp_thn
  proof (rule copy_wpc[OF ab(1)])
    fix s2 :: "'z logst_scheme"
    assume c: "bc_ready i {a, b} P s2" "bio_rest s1 s2" "img s2 = img s1" "bdata (bufs s2 a) = bdata (bufs s1 b)"
      "blockno (bufs s2 a) = blockno (bufs s1 a)" "\<forall>c. c \<noteq> a \<longrightarrow> bufs s2 c = bufs s1 c"
    have len: "length (bdata (bufs s2 a)) = BSIZE" using blk_held(2)[OF c(1)] by simp
    have slot: "blockno (bufs s2 a) = log_slot j ?g" using c(5) ab(4) by simp
    show "wpc (bwrite a) (\<lambda>_. wpc (brelse b) (\<lambda>_. wpc (brelse a) Q R) R) R s2 e1"
    proof (rule bwrite_wpc[OF c(1) ab(11)])
      fix s3 :: "'z logst_scheme" and e3 :: "('z logst_scheme) env"
      assume w: "bc_ready i {a, b} P s3" "\<forall>c. same_buf (bufs s2 c) (bufs s3 c)"
        "img s3 = disk_write (img s2) (blockno (bufs s2 a)) (bdata (bufs s2 a))" "bio_rest s2 s3" "e1 \<noteq> []" "e3 = tl e1" "disk_envs i e3"
      show "wpc (brelse b) (\<lambda>_. wpc (brelse a) Q R) R s3 e3"
      proof (rule brelse_wpc[OF w(1)])
        fix s4 :: "'z logst_scheme"
        assume x: "bc_ready i ({a, b} - {b}) P s4" "\<forall>c. same_buf (bufs s3 c) (bufs s4 c)" "img s4 = img s3" "bio_rest s3 s4"
        have 4: "bc_ready i {a} P s4" using x(1) ab(2) by (simp add: insert_Diff_if)
        have clean: "bdata (bufs s4 a) = disk_block (img s4) (blockno (bufs s4 a))"
          using w(2,3) x(2,3) disk_block_write[of "log_slot j ?g" "log_slot j ?g" "bdata (bufs s2 a)" "img s2"] sl(3) len slot
          by (simp add: same_buf_def on_disk_def)
        show "wpc (brelse a) Q R s4 e3"
        proof (rule brelse_wpc[OF 4])
          fix s5 :: "'z logst_scheme"
          assume y: "bc_ready i ({a} - {a}) P s5" "\<forall>c. same_buf (bufs s4 c) (bufs s5 c)" "img s5 = img s4" "bio_rest s4 s5"
          have "dsk (img s5) = (dsk (img s))(log_slot j ?g := blk s (log_home j ?g))"
            using dsk_write[OF sl(3) len, of "img s2"] slot c(3,4) ab(7,9) w(3) x(3) y(3) by simp
          moreover have "bio_rest s s5"
            using bio_rest_trans(1)[OF ab(8)] bio_rest_trans(1)[OF c(2)] bio_rest_trans(1)[OF w(4)] bio_rest_trans(1)[OF x(4)] y(4) by blast
          moreover have "\<forall>c \<in> P. same_buf (bufs s c) (bufs s5 c)"
            using ab(3,10) c(6) w(2) x(2) y(2) by (auto simp: same_buf_def)
          ultimately show "Q () s5 e3"
            using y(1) w(5-7) ab(12,13) by (intro Q) (auto simp: neq_Nil_conv)
        qed (use clean in simp_all)
      qed (use bP in simp_all)
    next
      fix s' :: "'z logst_scheme" assume "e1 = []" "img s' = img s2"
      then show "R s'" using ab(9,12) c(3) by (intro R) auto
    qed simp
  qed simp_all
qed (use R in auto)

lemma blk_pinned:
  assumes "bc_ready i {} P s" "bc_ready i {} P s'" "pinned g K P s" "j \<in> K" "\<forall>c \<in> P. same_buf (bufs s c) (bufs s' c)"
  shows "blk s' (log_home j g) = blk s (log_home j g)"
proof -
  have "log_home j g \<in> (\<lambda>b. blockno (bufs s b)) ` P" using assms(3,4) unfolding pinned_def by blast
  then obtain b where b: "b \<in> P" "log_home j g = blockno (bufs s b)" by auto
  then have "same_buf (bufs s b) (bufs s' b)" using assms(5) by blast
  then show ?thesis using blk_held(1)[OF assms(1), of b] blk_held(1)[OF assms(2), of b] b by (simp add: same_buf_def)
qed

lemma write_log_wpc:
  fixes s :: "'z logst_scheme"
  assumes r: "bc_ready i {} P s" and g: "log_ok (lg s) n" and p: "pinned (lg s) {..<n} P s"
    and n: "n < LOGBLOCKS" and env: "disk_envs i e"
    and Q: "\<And>s' e'. bc_ready i {} P s' \<Longrightarrow> bio_rest s s' \<Longrightarrow>
      dsk (img s') = written (\<lambda>j. log_slot j (lg s)) (\<lambda>j. blk s (log_home j (lg s))) n (dsk (img s)) \<Longrightarrow>
      \<forall>c \<in> P. same_buf (bufs s c) (bufs s' c) \<Longrightarrow> disk_envs i e' \<Longrightarrow> length e \<le> 3 * n + length e' \<Longrightarrow>
      (0 < n \<Longrightarrow> e \<noteq> []) \<Longrightarrow> Q () s' e'"
    and R: "\<And>s' k. k < n \<Longrightarrow> length e < 3 * n \<Longrightarrow>
      dsk (img s') = written (\<lambda>j. log_slot j (lg s)) (\<lambda>j. blk s (log_home j (lg s))) k (dsk (img s)) \<Longrightarrow> R s'"
  shows "wpc write_log Q R s e"
proof -
  let ?g = "lg s"
  let ?m = "\<lambda>k. written (\<lambda>j. log_slot j ?g) (\<lambda>j. blk s (log_home j ?g)) k (dsk (img s))"
  let ?I = "\<lambda>k (s' :: 'z logst_scheme) (e' :: 'z logst_scheme env). bc_ready i {} P s' \<and> bio_rest s s' \<and> dsk (img s') = ?m k \<and>
    (\<forall>c \<in> P. same_buf (bufs s c) (bufs s' c)) \<and> disk_envs i e' \<and> length e \<le> 3 * k + length e' \<and>
    length e' \<le> length e \<and> (0 < k \<longrightarrow> e \<noteq> [])"
  show ?thesis unfolding write_log_def
  proof (rule log_loop_wpc[where I = ?I and n = n])
    fix k and t :: "'z logst_scheme" and e' :: "'z logst_scheme env"
    assume k: "k < n" and I: "?I k t e'"
    have lg: "lg t = ?g" using bio_rest_lg I by blast
    have bl: "blk t (log_home k ?g) = blk s (log_home k ?g)" using blk_pinned[OF r, of t ?g "{..<n}"] p I k by blast
    show "wpc (write_one k) (\<lambda>_ s' e'. ?I (Suc k) s' e') R t e'"
    proof (rule write_one_wpc[where P = P and n = n])
      fix u :: "'z logst_scheme" and e2 :: "'z logst_scheme env"
      assume u: "bc_ready i {} P u" "bio_rest t u" "dsk (img u) = (dsk (img t))(log_slot k (lg t) := blk t (log_home k (lg t)))"
        "\<forall>c \<in> P. same_buf (bufs t c) (bufs u c)" "disk_envs i e2" "length e' \<le> 3 + length e2" "length e2 < length e'"
      have "dsk (img u) = ?m (Suc k)" using u(3) I bl by (simp add: lg)
      then show "?I (Suc k) u e2"
        using u I bio_rest_trans(1)[of s t u] bio_rest_trans(2) by (auto simp: same_buf_def)
    next
      fix u :: "'z logst_scheme" assume "length e' < 3" "img u = img t"
      then show "R u" using I k by (intro R[of k]) auto
    qed (use I p g pinned_cong[of P s t] n k in \<open>auto simp: lg\<close>)
  next
    show "lh_n (l_lh (lg t)) = int n" if "?I k t e'" for k t e'
      using log_okD(3)[OF g] bio_rest_lg[of s t] that by simp
  qed (use r env n Q in auto)
qed

section \<open>The header\<close>

text \<open>What \<open>write_head\<close> makes of a block, and what \<open>read_head\<close> reads from it.\<close>

definition head_bytes :: "log \<Rightarrow> byte list \<Rightarrow> byte list" where
  "head_bytes g d = cell32.put_arr 4 (\<lambda>i. log_home i g) [0..<nat (lh_n (l_lh g))] (put32 0 (word_of_int (lh_n (l_lh g))) d)"

lemma wp_upd_data [wp_simps]:
  "wpc (upd_data b f) Q R s e = Q () (s\<lparr>bufs := (bufs s)(b := (bufs s b)\<lparr>bdata := f (bdata (bufs s b))\<rparr>)\<rparr>) e"
  by (simp add: wp_Ret)

lemma write_head_wpc:
  fixes s :: "'z logst_scheme"
  assumes r: "bc_ready i {} P s" and g: "log_ok (lg s) n" and p: "\<forall>b \<in> P. blockno (bufs s b) \<noteq> l_start (lg s)"
    and room: "card P < NBUF" and env: "disk_envs i e"
    and Q: "\<And>s' e'. bc_ready i {} P s' \<Longrightarrow> bio_rest s s' \<Longrightarrow>
      dsk (img s') = (dsk (img s))(l_start (lg s) := head_bytes (lg s) (blk s (l_start (lg s)))) \<Longrightarrow>
      \<forall>c \<in> P. same_buf (bufs s c) (bufs s' c) \<Longrightarrow> disk_envs i e' \<Longrightarrow> length e \<le> 2 + length e' \<Longrightarrow> Q () s' e'"
    and R: "\<And>s'. length e < 2 \<Longrightarrow> img s' = img s \<Longrightarrow> R s'"
  shows "wpc write_head Q R s e"
  unfolding write_head_def wp_bnd
proof (rule log_bread_wpc)
  let ?g = "lg s"
  let ?n = "word_of_int (lh_n (l_lh ?g)) :: u32"
  note G = log_okD[OF g]
  have sl: "on_disk (l_start ?g)" using log_slots(5)[OF G(2), of 0 0] by simp
  have d1: "l_dev (lg s) = 1" by (rule G(1))
  show "wpc (bread (l_dev ?g) (l_start ?g)) (\<lambda>b. wpc (rd (\<lambda>s. lh_n (l_lh (lg s)))) (\<lambda>n. wpc (thn (upd_data b (put32 0 (word_of_int n)))
      (thn (log_loop (\<lambda>i. bnd (rd (\<lambda>s. log_home i (lg s))) (\<lambda>w. upd_data b (put32 (4 + 4 * i) w)))) (thn (bwrite b) (brelse b)))) Q R) R) R s e"
    unfolding d1
  proof (rule bread_wpc[OF r env])
    fix b and s1 :: "'z logst_scheme" and e1 :: "'z logst_scheme env"
    assume b: "bc_ready i (insert b {}) P s1" "b < NBUF" "blockno (bufs s1 b) = l_start ?g" "bdata (bufs s1 b) = blk s (l_start ?g)"
      "\<forall>c \<in> {} \<union> P. same_buf (bufs s c) (bufs s1 c)" "img s1 = img s" "bio_rest s s1" "disk_envs i e1" "length e \<le> Suc (length e1)"
    have lg1: "lg s1 = ?g" using bio_rest_lg[OF b(7)] .
    let ?d = "\<lambda>k. cell32.put_arr 4 (\<lambda>i. log_home i ?g) [0..<k] (put32 0 ?n (blk s (l_start ?g)))"
    let ?s = "\<lambda>k. s1\<lparr>bufs := (bufs s1)(b := (bufs s1 b)\<lparr>bdata := ?d k\<rparr>)\<rparr>"
    have bP: "b \<notin> P"
    proof
      assume "b \<in> P"
      then show False using p b(3,5) by (auto simp: same_buf_def)
    qed
    have len: "length (?d k) = BSIZE" for k
      using blk_held(2)[OF b(1), of b] b(4) by (simp add: cell_simps)
    have dn: "?d n = head_bytes ?g (blk s (l_start ?g))" using G(3) by (simp add: head_bytes_def)
    note m = bc_ready_modify[OF b(1) _ len[of n] refl]
    have fin: "wpc (thn (bwrite b) (brelse b)) Q R (?s n) e1"
      unfolding wp_thn
    proof (rule bwrite_wpc[OF m(1) b(8)])
      fix s3 :: "'z logst_scheme" and e3 :: "'z logst_scheme env"
      assume w: "bc_ready i (insert b {}) P s3" "\<forall>c. same_buf (bufs (?s n) c) (bufs s3 c)"
        "img s3 = disk_write (img (?s n)) (blockno (bufs (?s n) b)) (bdata (bufs (?s n) b))" "bio_rest (?s n) s3"
        "e1 \<noteq> []" "e3 = tl e1" "disk_envs i e3"
      have sb: "same_buf (bufs (?s n) b) (bufs s3 b)" using w(2) by blast
      have im: "img s3 = disk_write (img s) (l_start ?g) (?d n)" using w(3) b(3,6) by simp
      have clean: "bdata (bufs s3 b) = disk_block (img s3) (blockno (bufs s3 b))"
        using sb b(3) im disk_block_write[of "l_start ?g" "l_start ?g" "?d n" "img s"] sl len
        by (simp add: same_buf_def on_disk_def)
      show "wpc (brelse b) Q R s3 e3"
      proof (rule brelse_wpc[OF w(1)])
        fix s4 :: "'z logst_scheme"
        assume x: "bc_ready i (insert b {} - {b}) P s4" "\<forall>c. same_buf (bufs s3 c) (bufs s4 c)" "img s4 = img s3" "bio_rest s3 s4"
        have "bio_rest s (?s n)" using bio_rest_trans(1)[OF b(7) m(3)] by simp
        then have "bio_rest s s4" using bio_rest_trans(1) w(4) x(4) by blast
        moreover have "dsk (img s4) = (dsk (img s))(l_start ?g := head_bytes ?g (blk s (l_start ?g)))"
          using x(3) im dsk_write[OF sl len[of n], of "img s"] dn by simp
        moreover have "\<forall>c \<in> P. same_buf (bufs s c) (bufs s4 c)"
        proof
          fix c assume c: "c \<in> P"
          then have "c \<noteq> b" using bP by blast
          then have "same_buf (bufs s1 c) (bufs s3 c)" using w(2)[rule_format, of c] by simp
          then show "same_buf (bufs s c) (bufs s4 c)" using b(5) c x(2) by (simp add: same_buf_def)
        qed
        ultimately show "Q () s4 e3" using x(1) w(5-7) b(9) by (intro Q) (auto simp: neq_Nil_conv)
      qed (use clean in simp_all)
    next
      fix s' :: "'z logst_scheme" assume "e1 = []" "img s' = img (?s n)"
      then show "R s'" using b(6,9) by (intro R) auto
    qed simp_all
    have body: "wpc (bnd (rd (\<lambda>s. log_home k (lg s))) (\<lambda>w. upd_data b (put32 (4 + 4 * k) w)))
        (\<lambda>_ s' e'. s' = ?s (Suc k) \<and> e' = e1) R s' e'" if "s' = ?s k \<and> e' = e1" for k s' e'
      using that by (simp add: wp_simps lg1 cell32.put_arr_def)
    have "wpc (log_loop (\<lambda>i. bnd (rd (\<lambda>s. log_home i (lg s))) (\<lambda>w. upd_data b (put32 (4 + 4 * i) w))))
        (\<lambda>_. wpc (thn (bwrite b) (brelse b)) Q R) R (?s 0) e1"
      by (rule log_loop_wpc[where I = "\<lambda>k s' e'. s' = ?s k \<and> e' = e1" and n = n])
        (use body fin G(3,4) lg1 in auto)
    then show "wpc (rd (\<lambda>s. lh_n (l_lh (lg s)))) (\<lambda>n. wpc (thn (upd_data b (put32 0 (word_of_int n)))
      (thn (log_loop (\<lambda>i. bnd (rd (\<lambda>s. log_home i (lg s))) (\<lambda>w. upd_data b (put32 (4 + 4 * i) w)))) (thn (bwrite b) (brelse b)))) Q R) R s1 e1"
      unfolding wp_rd wp_thn wp_upd_data lg1 b(4) by (simp add: cell32.put_arr_def)
  next
    fix s' :: "'z logst_scheme" assume "e = []" "img s' = img s"
    then show "R s'" by (intro R) auto
  qed (use room sl in auto)
qed

section \<open>Installing the blocks\<close>

text \<open>The console can be written to: recovery reports each block.\<close>

definition con_ok :: "'z kout_scheme \<Rightarrow> bool" where
  "con_ok s \<longleftrightarrow> \<not> panicked s \<and> \<not> panicking s \<and> lock_free L_pr s"

lemma con_ok_rest: "log_rest s s' \<Longrightarrow> con_ok s' = con_ok s"
  by (simp add: log_rest_def calm_def con_ok_def)

lemma recovering_msg_Ret:
  assumes "con_ok s" "running i s"
  shows "\<exists>T. recovering_msg j s e = Ret () ((touch s)\<lparr>thr := T\<rparr>) e"
proof -
  let ?a = "[VW (of_nat j), VW (scast (log_home j (lg s)))]"
  obtain out where f: "format (''recovering tail %d dst %d'' @ [CHR 0x0A]) ?a = Some out"
    by (simp add: fmt_at_def nul_def)
  have "printf (''recovering tail %d dst %d'' @ [CHR 0x0A]) ?a s e = Ret 0 ((touch s)\<lparr>thr := thr s @ bytes_of out\<rparr>) e"
    using assms(1) runningD(5)[OF assms(2)] by (intro printf_Ret[OF f]) (simp_all add: con_ok_def)
  then have "recovering_msg j s e = Ret () ((touch s)\<lparr>thr := thr s @ bytes_of out\<rparr>) e"
    unfolding recovering_msg_def by (simp only: bnd_def thn_def rd_app outcome.case ret_app)
  then show ?thesis by blast
qed

lemma pinned_remove:
  assumes r: "bc_ready i H P s" and p: "pinned g K P s" and g: "log_ok g n" and K: "K \<subseteq> {..<n}" "j \<in> K"
    and b: "b \<in> P" "blockno (bufs s b) = log_home j g"
  shows "pinned g (K - {j}) (P - {b}) s"
proof -
  have "inj_on (\<lambda>b. blockno (bufs s b)) P" using held_inj[OF r] by (auto simp: inj_on_def)
  then have "(\<lambda>b. blockno (bufs s b)) ` (P - {b}) = (\<lambda>b. blockno (bufs s b)) ` P - (\<lambda>b. blockno (bufs s b)) ` {b}"
    using b(1) inj_on_image_set_diff[of "\<lambda>b. blockno (bufs s b)" P P "{b}"] by blast
  moreover have "inj_on (\<lambda>j. log_home j g) K" using log_okD(5)[OF g] K(1) by (auto simp: inj_on_def)
  then have "(\<lambda>j. log_home j g) ` (K - {j}) = (\<lambda>j. log_home j g) ` K - (\<lambda>j. log_home j g) ` {j}"
    using K(2) inj_on_image_set_diff[of "\<lambda>j. log_home j g" K K "{j}"] by blast
  ultimately show ?thesis using p b(2) by (simp add: pinned_def)
qed

lemma pinned_buffer:
  assumes "bc_ready i H P s" "pinned g K P s" "j \<in> K" "b \<in> H" "blockno (bufs s b) = log_home j g"
  shows "b \<in> P"
proof -
  have "log_home j g \<in> (\<lambda>b. blockno (bufs s b)) ` P" using assms(2,3) unfolding pinned_def by blast
  then obtain c where "c \<in> P" "blockno (bufs s c) = log_home j g" by auto
  then show ?thesis using held_inj[OF assms(1), of b c] assms(4,5) by auto
qed

lemma install_body_wpc:
  fixes s :: "'z logst_scheme"
  assumes r: "bc_ready i {} P s" and g: "log_ok (lg s) n" and K: "K \<subseteq> {..<n}" and p: "pinned (lg s) K P s" and j: "j < n"
    and rec: "if rec then K = {} else j \<in> K" and room: "card P + 2 \<le> NBUF \<or> j \<in> K \<and> card P + 1 \<le> NBUF"
    and env: "disk_envs i e"
    and Q: "\<And>s' e' P'. bc_ready i {} P' s' \<Longrightarrow> pinned (lg s) (K - {j}) P' s' \<Longrightarrow> bio_rest s s' \<Longrightarrow>
      dsk (img s') = (dsk (img s))(log_home j (lg s) := dsk (img s) (log_slot j (lg s))) \<Longrightarrow>
      disk_envs i e' \<Longrightarrow> length e \<le> 3 + length e' \<Longrightarrow> Q () s' e'"
    and R: "\<And>s'. length e < 3 \<Longrightarrow> img s' = img s \<Longrightarrow> R s'"
  shows "wpc (bnd (log_bread (log_slot j)) (\<lambda>a. bnd (log_bread (log_home j)) (\<lambda>b.
    thn (copy_buf b a) (thn (bwrite b) (thn (if \<not> rec then bunpin b else ret ()) (thn (brelse a) (brelse b))))))) Q R s e"
proof (rule bread2_wpc[OF r g p j room K env])
  let ?g = "lg s"
  note G = log_okD[OF g]
  have jl: "j < LOGBLOCKS" using j G(4) by simp
  note sl = log_slots[OF G(2) jl jl]
  note od = G(6)[OF j]
  fix a b and s1 :: "'z logst_scheme" and e1 :: "'z logst_scheme env"
  assume ab: "bc_ready i {a, b} P s1" "a \<noteq> b" "a \<notin> P" "blockno (bufs s1 a) = log_slot j ?g"
    "blockno (bufs s1 b) = log_home j ?g" "bdata (bufs s1 a) = blk s (log_slot j ?g)"
    "bdata (bufs s1 b) = blk s (log_home j ?g)" "bio_rest s s1" "img s1 = img s"
    "\<forall>c \<in> P. same_buf (bufs s c) (bufs s1 c)" "disk_envs i e1" "length e \<le> 2 + length e1"
  have p1: "pinned ?g K P s1" using p pinned_cong[of P s s1] ab(10) by simp
  have slotP: "blockno (bufs s c) \<noteq> log_slot j ?g" if "c \<in> P" for c
    using held_inj[OF ab(1), of a c] ab(3,4,10) that by (auto simp: same_buf_def)
  have src: "blk s (log_slot j ?g) = dsk (img s) (log_slot j ?g)"
    using blk_clean[OF r, of "log_slot j ?g"] slotP sl(3) by (simp add: dsk_def)
  have ne: "log_slot j ?g \<noteq> log_home j ?g" using ab(4,5) held_inj[OF ab(1), of a b] ab(2) by auto
  let ?P = "if rec then P else P - {b}"
  have bP: "b \<in> P" if "\<not> rec" using pinned_buffer[OF ab(1) p1, of j b] ab(5) rec that by simp
  have p2: "pinned ?g (K - {j}) ?P s1"
  proof (cases rec)
    case True
    then show ?thesis using p1 rec by simp
  next
    case False
    then show ?thesis using pinned_remove[OF ab(1) p1 g K _ bP ab(5)] rec by simp
  qed
  have rec': "b \<notin> P" if rec using p1 rec that by (simp add: pinned_def)
  show "wpc (thn (copy_buf b a) (thn (bwrite b) (thn (if \<not> rec then bunpin b else ret ()) (thn (brelse a) (brelse b))))) Q R s1 e1"
    unfolding wp_thn
  proof (rule copy_wpc[OF ab(1)])
    fix s2 :: "'z logst_scheme"
    assume c: "bc_ready i {a, b} P s2" "bio_rest s1 s2" "img s2 = img s1" "bdata (bufs s2 b) = bdata (bufs s1 a)"
      "blockno (bufs s2 b) = blockno (bufs s1 b)" "\<forall>c. c \<noteq> b \<longrightarrow> bufs s2 c = bufs s1 c"
    have len: "length (bdata (bufs s2 b)) = BSIZE" using blk_held(2)[OF c(1)] by simp
    have home: "blockno (bufs s2 b) = log_home j ?g" using c(5) ab(5) by simp
    show "wpc (bwrite b) (\<lambda>_. wpc (if \<not> rec then bunpin b else ret ()) (\<lambda>_. wpc (brelse a) (\<lambda>_. wpc (brelse b) Q R) R) R) R s2 e1"
    proof (rule bwrite_wpc[OF c(1) ab(11)])
      fix s3 :: "'z logst_scheme" and e3 :: "'z logst_scheme env"
      assume w: "bc_ready i {a, b} P s3" "\<forall>c. same_buf (bufs s2 c) (bufs s3 c)"
        "img s3 = disk_write (img s2) (blockno (bufs s2 b)) (bdata (bufs s2 b))" "bio_rest s2 s3" "e1 \<noteq> []" "e3 = tl e1" "disk_envs i e3"
      have fin: "wpc (brelse a) (\<lambda>_. wpc (brelse b) Q R) R s4 e3"
        if u: "bc_ready i {a, b} ?P s4" "\<forall>c. same_buf (bufs s3 c) (bufs s4 c)" "img s4 = img s3" "bio_rest s3 s4"
        for s4 :: "'z logst_scheme"
      proof -
        have d: "disk_block (img s4) k = (if k = log_home j ?g then bdata (bufs s2 b) else disk_block (img s) k)" if "on_disk k" for k
          using disk_block_write[of "log_home j ?g" k "bdata (bufs s2 b)" "img s2"] that od len home u(3) w(3) c(3) ab(9)
          by (simp add: on_disk_def)
        have A: "bdata (bufs s4 a) = disk_block (img s4) (blockno (bufs s4 a))"
          using d[OF sl(3)] ne ab(2,4,6) src sl(3) u(2) w(2) c(6) by (simp add: same_buf_def dsk_def)
        show ?thesis
        proof (rule brelse_wpc[OF u(1)])
          fix s5 :: "'z logst_scheme"
          assume x: "bc_ready i ({a, b} - {a}) ?P s5" "\<forall>c. same_buf (bufs s4 c) (bufs s5 c)" "img s5 = img s4" "bio_rest s4 s5"
          have 5: "bc_ready i {b} ?P s5" using x(1) ab(2) by (simp add: insert_Diff_if)
          have B: "bdata (bufs s5 b) = disk_block (img s5) (blockno (bufs s5 b))"
            using d[OF od] home u(2) w(2) x(2,3) by (simp add: same_buf_def)
          show "wpc (brelse b) Q R s5 e3"
          proof (rule brelse_wpc[OF 5])
            fix s6 :: "'z logst_scheme"
            assume y: "bc_ready i ({b} - {b}) ?P s6" "\<forall>c. same_buf (bufs s5 c) (bufs s6 c)" "img s6 = img s5" "bio_rest s5 s6"
            have "dsk (img s6) = (dsk (img s))(log_home j ?g := dsk (img s) (log_slot j ?g))"
              using dsk_write[OF od len, of "img s2"] home c(3,4) ab(6,9) w(3) u(3) x(3) y(3) src by simp
            moreover have "bio_rest s s6"
              using bio_rest_trans(1)[OF ab(8)] bio_rest_trans(1)[OF c(2)] bio_rest_trans(1)[OF w(4)] bio_rest_trans(1)[OF u(4)]
                bio_rest_trans(1)[OF x(4)] y(4) by blast
            moreover have "\<forall>c \<in> ?P. same_buf (bufs s1 c) (bufs s6 c)"
              using rec' c(6) w(2) u(2) x(2) y(2) by (auto simp: same_buf_def)
            then have "pinned ?g (K - {j}) ?P s6" using p2 pinned_cong[of ?P s1 s6] by blast
            ultimately show "Q () s6 e3"
              using y(1) w(5-7) ab(12) by (intro Q[of ?P]) (auto simp: neq_Nil_conv)
          qed (use B in simp_all)
        qed (use A in simp_all)
      qed
      show "wpc (if \<not> rec then bunpin b else ret ()) (\<lambda>_. wpc (brelse a) (\<lambda>_. wpc (brelse b) Q R) R) R s3 e3"
      proof (cases rec)
        case True
        then show ?thesis using fin[of s3] w(1) by (simp add: wp_simps)
      next
        case False
        have "wpc (bunpin b) (\<lambda>_. wpc (brelse a) (\<lambda>_. wpc (brelse b) Q R) R) R s3 e3"
        proof (rule bunpin_wpc[OF w(1)])
          fix s4 :: "'z logst_scheme"
          assume "bc_ready i {a, b} (P - {b}) s4" "\<forall>c. same_buf (bufs s3 c) (bufs s4 c)" "img s4 = img s3" "bio_rest s3 s4"
          then show "wpc (brelse a) (\<lambda>_. wpc (brelse b) Q R) R s4 e3" using False by (intro fin) simp_all
        qed (use bP False in simp_all)
        then show ?thesis using False by simp
      qed
    next
      fix s' :: "'z logst_scheme" assume "e1 = []" "img s' = img s2"
      then show "R s'" using ab(9,12) c(3) by (intro R) auto
    qed simp
  qed simp_all
qed (use R in auto)

lemma log_rest_touch [simp]: "logst.more (touch s) = logst.more s" "log_rest s (touch s)"
  by (simp_all add: base_defs log_rest_def calm_def)

lemma install_one_wpc:
  fixes s :: "'z logst_scheme"
  assumes r: "bc_ready i {} P s" and g: "log_ok (lg s) n" and K: "K \<subseteq> {..<n}" and p: "pinned (lg s) K P s" and j: "j < n"
    and rec: "if rec then K = {} \<and> con_ok s else j \<in> K" and room: "card P + 2 \<le> NBUF \<or> j \<in> K \<and> card P + 1 \<le> NBUF"
    and env: "disk_envs i e"
    and Q: "\<And>s' e' P'. bc_ready i {} P' s' \<Longrightarrow> pinned (lg s) (K - {j}) P' s' \<Longrightarrow> log_rest s s' \<Longrightarrow> lg s' = lg s \<Longrightarrow>
      dsk (img s') = (dsk (img s))(log_home j (lg s) := dsk (img s) (log_slot j (lg s))) \<Longrightarrow>
      disk_envs i e' \<Longrightarrow> length e \<le> 3 + length e' \<Longrightarrow> Q () s' e'"
    and R: "\<And>s'. length e < 3 \<Longrightarrow> img s' = img s \<Longrightarrow> R s'"
  shows "wpc (install_one rec j) Q R s e"
proof (cases rec)
  case False
  have "wpc (bnd (log_bread (log_slot j)) (\<lambda>a. bnd (log_bread (log_home j)) (\<lambda>b.
    thn (copy_buf b a) (thn (bwrite b) (thn (if \<not> rec then bunpin b else ret ()) (thn (brelse a) (brelse b))))))) Q R s e"
  proof (rule install_body_wpc[OF r g K p j _ room env])
    fix s' :: "'z logst_scheme" and e' :: "'z logst_scheme env" and P'
    assume "bc_ready i {} P' s'" "pinned (lg s) (K - {j}) P' s'" "bio_rest s s'"
      "dsk (img s') = (dsk (img s))(log_home j (lg s) := dsk (img s) (log_slot j (lg s)))" "disk_envs i e'" "length e \<le> 3 + length e'"
    then show "Q () s' e'" using Q[of P' s' e'] bio_log_rest[of s s'] bio_rest_lg[of s s'] by blast
  qed (use rec False R in auto)
  then show ?thesis using False by (simp add: install_one_def wp_thn wp_ret_eta)
next
  case True
  obtain T where T: "recovering_msg j s e = Ret () ((touch s)\<lparr>thr := T\<rparr>) e"
    using recovering_msg_Ret[of s i j e] bc_readyD(2)[OF r] rec True by auto
  let ?t = "(touch s)\<lparr>thr := T\<rparr>"
  have t: "bc_ready i {} P ?t" "lg ?t = lg s" "pinned (lg s) K P ?t" "log_rest s ?t" "img ?t = img s"
    using bc_ready_touch[OF r] p by (simp_all add: pinned_def log_rest_def calm_def)
  have "wpc (bnd (log_bread (log_slot j)) (\<lambda>a. bnd (log_bread (log_home j)) (\<lambda>b.
    thn (copy_buf b a) (thn (bwrite b) (thn (if \<not> rec then bunpin b else ret ()) (thn (brelse a) (brelse b))))))) Q R ?t e"
  proof (rule install_body_wpc[OF t(1) _ K _ j _ room env, unfolded t(2)])
    fix s' :: "'z logst_scheme" and e' :: "'z logst_scheme env" and P'
    assume a: "bc_ready i {} P' s'" "pinned (lg s) (K - {j}) P' s'" "bio_rest ?t s'"
      "dsk (img s') = (dsk (img ?t))(log_home j (lg s) := dsk (img ?t) (log_slot j (lg s)))" "disk_envs i e'" "length e \<le> 3 + length e'"
    have "log_rest s s'" using log_rest_trans[OF t(4) bio_log_rest[OF a(3)]] .
    moreover have "lg s' = lg s" using bio_rest_lg[OF a(3)] t(2) by simp
    ultimately show "Q () s' e'" using a by (intro Q[of P']) (simp_all add: t(5))
  qed (use g t(3,5) rec True R in auto)
  then show ?thesis using True T unfolding install_one_def wp_thn by (simp add: wp_Ret)
qed

lemma install_trans_wpc:
  fixes s :: "'z logst_scheme"
  assumes r: "bc_ready i {} P s" and g: "log_ok (lg s) n" and p: "pinned (lg s) (if rec then {} else {..<n}) P s"
    and n: "rec \<and> con_ok s \<or> \<not> rec \<and> n < LOGBLOCKS" and env: "disk_envs i e"
    and Q: "\<And>s' e'. bc_ready i {} {} s' \<Longrightarrow> log_rest s s' \<Longrightarrow> lg s' = lg s \<Longrightarrow>
      dsk (img s') = written (\<lambda>j. log_home j (lg s)) (\<lambda>j. dsk (img s) (log_slot j (lg s))) n (dsk (img s)) \<Longrightarrow>
      disk_envs i e' \<Longrightarrow> length e \<le> 3 * n + length e' \<Longrightarrow> Q () s' e'"
    and R: "\<And>s' k. k < n \<Longrightarrow> length e < 3 * n \<Longrightarrow>
      dsk (img s') = written (\<lambda>j. log_home j (lg s)) (\<lambda>j. dsk (img s) (log_slot j (lg s))) k (dsk (img s)) \<Longrightarrow> R s'"
  shows "wpc (install_trans rec) Q R s e"
proof -
  let ?g = "lg s"
  let ?K = "\<lambda>k. if rec then {} else {k..<n}"
  note G = log_okD[OF g]
  let ?m = "\<lambda>k. written (\<lambda>j. log_home j ?g) (\<lambda>j. dsk (img s) (log_slot j ?g)) k (dsk (img s))"
  let ?I = "\<lambda>k (s' :: 'z logst_scheme) (e' :: 'z logst_scheme env). \<exists>P'. bc_ready i {} P' s' \<and> pinned ?g (?K k) P' s' \<and>
    log_rest s s' \<and> lg s' = ?g \<and> dsk (img s') = ?m k \<and> disk_envs i e' \<and> length e \<le> 3 * k + length e'"
  show ?thesis unfolding install_trans_def
  proof (rule log_loop_wpc[where I = ?I and n = n])
    fix k and t :: "'z logst_scheme" and e' :: "'z logst_scheme env"
    assume k: "k < n" and "?I k t e'"
    then obtain P' where I: "bc_ready i {} P' t" "pinned ?g (?K k) P' t" "log_rest s t" "lg t = ?g" "dsk (img t) = ?m k"
      "disk_envs i e'" "length e \<le> 3 * k + length e'" by blast
    have kl: "k < LOGBLOCKS" using k G(4) by simp
    have "log_home j ?g \<noteq> log_slot k ?g" if "j < k" for j
      using G(7)[of j] that k log_slots(4)[OF G(2) kl kl] by (metis less_trans)
    then have slot: "dsk (img t) (log_slot k ?g) = dsk (img s) (log_slot k ?g)"
      unfolding I(5) by (intro written_other) blast
    have "card P' \<le> card (?K k)" using pinned_card[OF I(1,2)] by simp
    then have room: "card P' + 2 \<le> NBUF \<or> k \<in> ?K k \<and> card P' + 1 \<le> NBUF" using n k by (auto split: if_splits)
    have Kk: "?K k - {k} = ?K (Suc k)" by auto
    show "wpc (install_one rec k) (\<lambda>_ s' e'. ?I (Suc k) s' e') R t e'"
    proof (rule install_one_wpc[OF I(1) _ _ I(2)[folded I(4)] k _ room I(6), unfolded I(4)])
      fix u :: "'z logst_scheme" and e2 :: "'z logst_scheme env" and P2
      assume u: "bc_ready i {} P2 u" "pinned ?g (?K k - {k}) P2 u" "log_rest t u" "lg u = ?g"
        "dsk (img u) = (dsk (img t))(log_home k ?g := dsk (img t) (log_slot k ?g))" "disk_envs i e2" "length e' \<le> 3 + length e2"
      have "dsk (img u) = ?m (Suc k)" using u(5) I(5) slot by simp
      then show "?I (Suc k) u e2"
        using u(1,2,4,6,7) log_rest_trans[OF I(3) u(3)] I(7) unfolding Kk by (intro exI[of _ P2]) auto
    next
      fix u :: "'z logst_scheme" assume "length e' < 3" "img u = img t"
      then show "R u" using I(5,7) k by (intro R[of k]) auto
    next
      show "log_ok ?g n" by (rule g)
    qed (use n k con_ok_rest[OF I(3)] in \<open>auto split: if_splits\<close>)
  next
    fix t :: "'z logst_scheme" and e' :: "'z logst_scheme env"
    assume "?I n t e'"
    then obtain P' where I: "bc_ready i {} P' t" "pinned ?g (?K n) P' t" "log_rest s t" "lg t = ?g" "dsk (img t) = ?m n"
      "disk_envs i e'" "length e \<le> 3 * n + length e'" by blast
    then have "P' = {}" by (auto simp: pinned_def split: if_splits)
    then show "Q () t e'" using I by (intro Q) simp_all
  next
    show "?I 0 s e" using r p env by (intro exI[of _ P]) (cases rec; simp add: atLeast0LessThan)
  qed (use G(3,4) in auto)
qed

section \<open>What a disk stands for\<close>

text \<open>
  \<open>disk_log\<close> is the log as the header on the disk describes it, and \<open>recovered\<close> is the disk after
  the blocks it names have been installed: the contents that a disk stands for, at any moment.
\<close>

definition disk_log :: "log \<Rightarrow> (u32 \<Rightarrow> byte list) \<Rightarrow> log" where
  "disk_log g m = g\<lparr>l_lh := \<lparr>lh_n = sint (get32 0 (m (l_start g))), lh_block = (\<lambda>j. get32 (4 + 4 * j) (m (l_start g)))\<rparr>\<rparr>"

definition recovered :: "log \<Rightarrow> (u32 \<Rightarrow> byte list) \<Rightarrow> u32 \<Rightarrow> byte list" where
  "recovered g m = (let h = disk_log g m in
     written (\<lambda>j. log_home j h) (\<lambda>j. m (log_slot j g)) (nat (lh_n (l_lh h))) m)"

definition outside :: "log \<Rightarrow> (u32 \<Rightarrow> byte list) \<Rightarrow> (u32 \<Rightarrow> byte list) \<Rightarrow> bool" where
  "outside g m m' \<longleftrightarrow> (\<forall>k. on_disk k \<and> \<not> in_log g k \<longrightarrow> m k = m' k)"

lemma disk_log_fields [simp]:
  "l_start (disk_log g m) = l_start g" "l_dev (disk_log g m) = l_dev g" "log_slot j (disk_log g m) = log_slot j g"
  "in_log (disk_log g m) k = in_log g k" "lh_n (l_lh (disk_log g m)) = sint (get32 0 (m (l_start g)))"
  by (simp_all add: disk_log_def log_slot_def in_log_def)

lemma sint_small: "n \<le> LOGBLOCKS \<Longrightarrow> sint (word_of_int (int n) :: u32) = int n"
  by (simp add: signed_of_nat signed_take_bit_int_eq_self)

lemma head_bytes_parse:
  assumes "length d = BSIZE" "lh_n (l_lh g) = int n" "n \<le> LOGBLOCKS"
  shows "sint (get32 0 (head_bytes g d)) = int n" "j < n \<Longrightarrow> get32 (4 + 4 * j) (head_bytes g d) = log_home j g"
    "length (head_bytes g d) = BSIZE"
proof -
  let ?d = "put32 0 (word_of_int (lh_n (l_lh g))) d"
  have l: "length (put32 0 w d) = BSIZE" for w using assms(1) by (simp add: cell_simps)
  have "get32 0 (head_bytes g d) = get32 0 ?d" unfolding head_bytes_def by (rule cell32.get_put_arr) simp
  also have "\<dots> = word_of_int (lh_n (l_lh g))" using assms(1) by (simp add: cell_simps)
  finally show "sint (get32 0 (head_bytes g d)) = int n" using sint_small[OF assms(3)] assms(2) by simp
  show "length (head_bytes g d) = BSIZE" using l by (simp add: head_bytes_def cell_simps)
  assume j: "j < n"
  have "cell32.arr 4 j (head_bytes g d) = (if j \<in> set [0..<n] then log_home j g else cell32.arr 4 j ?d)"
    unfolding head_bytes_def assms(2) nat_int by (rule cell32.arr_put_arr) (use assms(3) l in simp)
  then show "get32 (4 + 4 * j) (head_bytes g d) = log_home j g" using j by (simp add: cell32.arr_def)
qed

text \<open>A header that \<open>write_head\<close> has written describes the log it was written for.\<close>

lemma disk_log_head:
  assumes g: "log_ok g n" and m: "m (l_start g) = head_bytes g d" "length d = BSIZE"
  shows "log_ok (disk_log g m) n" "\<And>j. j < n \<Longrightarrow> log_home j (disk_log g m) = log_home j g"
proof -
  note G = log_okD[OF g]
  note h = head_bytes_parse[OF m(2) G(3,4)]
  show hm: "log_home j (disk_log g m) = log_home j g" if "j < n" for j
    using h(2)[OF that] m(1) by (simp add: disk_log_def log_home_def)
  have "inj_on (lh_block (l_lh (disk_log g m))) {..<n}"
    using hm G(5) by (auto simp: inj_on_def log_home_def)
  then show "log_ok (disk_log g m) n"
    using G(1,2,4,6,7) h(1) m(1) hm unfolding log_ok_def by simp
qed

lemma disk_log_empty:
  assumes "log_ok g n" "get32 0 (m (l_start g)) = 0"
  shows "log_ok (disk_log g m) 0" "recovered g m = m"
  using log_okD(1,2)[OF assms(1)] assms(2) by (simp_all add: log_ok_def recovered_def Let_def)

lemma written_idem:
  assumes "\<And>i j. i < n \<Longrightarrow> j < n \<Longrightarrow> f i = f j \<longleftrightarrow> i = j" "k \<le> n"
  shows "written f D n (written f D k m) = written f D n m"
proof
  fix x
  show "written f D n (written f D k m) x = written f D n m x"
  proof (cases "\<exists>j < n. f j = x")
    case True
    then obtain j where j: "j < n" "f j = x" by blast
    have "written f D n m' (f j) = D j" for m' by (rule written_at) (use assms(1) j(1) in auto)
    then show ?thesis using j(2) by metis
  next
    case False
    then have ne: "f j \<noteq> x" if "j < n" for j using that by blast
    have "written f D n m' x = m' x" "written f D k m' x = m' x" for m'
      using assms(2) by (auto intro!: written_other ne)
    then show ?thesis by simp
  qed
qed

lemma written_cong:
  "(\<And>j. j < n \<Longrightarrow> f j = f' j) \<Longrightarrow> (\<And>j. j < n \<Longrightarrow> D j = D' j) \<Longrightarrow> written f D n m = written f' D' n m"
  by (induction n) auto

text \<open>
  The disks that occur while the blocks of the header are installed all stand for the same contents.
\<close>

lemma recovered_steps:
  assumes h: "log_ok (disk_log g m) n" and k: "k \<le> n"
    and m': "m' = written (\<lambda>j. log_home j (disk_log g m)) (\<lambda>j. m (log_slot j g)) k m"
  shows "disk_log g m' = disk_log g m" "recovered g m' = recovered g m"
    "recovered g m = written (\<lambda>j. log_home j (disk_log g m)) (\<lambda>j. m (log_slot j g)) n m"
proof -
  note G = log_okD[OF h, unfolded disk_log_fields]
  have in_log: "m' x = m x" if "in_log g x" for x
    unfolding m' by (rule written_other) (use G(7) that k in force)
  have "m' (l_start g) = m (l_start g)" using in_log log_slots(6)[OF G(2), of 0 0] by simp
  then show d: "disk_log g m' = disk_log g m" by (simp add: disk_log_def)
  show r: "recovered g m = written (\<lambda>j. log_home j (disk_log g m)) (\<lambda>j. m (log_slot j g)) n m"
    using G(3) by (simp add: recovered_def Let_def)
  have "m' (log_slot j g) = m (log_slot j g)" if "j < n" for j
    using in_log log_slots(4)[OF G(2), of j j] that G(4) by simp
  then have "recovered g m' = written (\<lambda>j. log_home j (disk_log g m)) (\<lambda>j. m (log_slot j g)) n m'"
    unfolding recovered_def Let_def d using G(3) by (simp add: disk_log_fields) (rule written_cong; simp)
  also have "\<dots> = written (\<lambda>j. log_home j (disk_log g m)) (\<lambda>j. m (log_slot j g)) n m"
    unfolding m' by (rule written_idem) (use G(5) k in auto)
  finally show "recovered g m' = recovered g m" using r by simp
qed

lemma recovered_committed:
  assumes g: "log_ok g n" and m: "m (l_start g) = head_bytes g d" "length d = BSIZE"
    and k: "k \<le> n" and m': "m' = written (\<lambda>j. log_home j g) (\<lambda>j. m (log_slot j g)) k m"
  shows "log_ok (disk_log g m') n" "recovered g m' = written (\<lambda>j. log_home j g) (\<lambda>j. m (log_slot j g)) n m"
proof -
  note h = disk_log_head[of g n m d, OF g m]
  have c: "written (\<lambda>j. log_home j (disk_log g m)) D j m = written (\<lambda>j. log_home j g) D j m" if "j \<le> n" for D j
    using h(2) that by (intro written_cong) auto
  have "m' = written (\<lambda>j. log_home j (disk_log g m)) (\<lambda>j. m (log_slot j g)) k m" using m' c[OF k] by simp
  note s = recovered_steps[OF h(1) k this]
  show "log_ok (disk_log g m') n" using h(1) s(1) by simp
  show "recovered g m' = written (\<lambda>j. log_home j g) (\<lambda>j. m (log_slot j g)) n m" using s(2,3) c[of n] by simp
qed

section \<open>Commit\<close>

definition cleared :: "log \<Rightarrow> log" where
  "cleared g = g\<lparr>l_lh := (l_lh g)\<lparr>lh_n := 0\<rparr>\<rparr>"

lemma cleared_fields [simp]:
  "l_start (cleared g) = l_start g" "l_dev (cleared g) = l_dev g" "lh_n (l_lh (cleared g)) = 0"
  "l_outstanding (cleared g) = l_outstanding g" "l_committing (cleared g) = l_committing g" "in_log (cleared g) k = in_log g k"
  by (simp_all add: cleared_def in_log_def)

lemma log_ok_cleared: "log_ok g n \<Longrightarrow> log_ok (cleared g) 0"
  by (simp add: log_ok_def)

lemma clear_wpc:
  fixes s :: "'z logst_scheme"
  assumes r: "bc_ready i {} {} s" and g: "log_ok (lg s) n" and env: "disk_envs i e"
    and Q: "\<And>s' e' d. bc_ready i {} {} s' \<Longrightarrow> log_rest s s' \<Longrightarrow> lg s' = cleared (lg s) \<Longrightarrow> get32 0 d = 0 \<Longrightarrow>
      dsk (img s') = (dsk (img s))(l_start (lg s) := d) \<Longrightarrow> disk_envs i e' \<Longrightarrow> length e \<le> 2 + length e' \<Longrightarrow> Q () s' e'"
    and R: "\<And>s'. length e < 2 \<Longrightarrow> img s' = img s \<Longrightarrow> R s'"
  shows "wpc (thn (upd_lh (\<lambda>h. h\<lparr>lh_n := 0\<rparr>)) write_head) Q R s e"
proof -
  let ?t = "s\<lparr>lg := cleared (lg s)\<rparr>"
  have t: "bc_ready i {} {} ?t" "log_ok (lg ?t) 0" "lg ?t = cleared (lg s)" "img ?t = img s" "log_rest s ?t"
    using r log_ok_cleared[OF g] by simp_all
  have len: "length (blk ?t (l_start (lg s))) = BSIZE"
    using bc_wfD(2)[OF bc_readyD(5)[OF r]] by (auto simp: blk_def find_Some_iff split: option.split)
  have "wpc write_head Q R ?t e"
  proof (rule write_head_wpc[OF t(1,2) _ _ env])
    fix s' :: "'z logst_scheme" and e' :: "'z logst_scheme env"
    assume a: "bc_ready i {} {} s'" "bio_rest ?t s'" "dsk (img s') = (dsk (img ?t))(l_start (lg ?t) := head_bytes (lg ?t) (blk ?t (l_start (lg ?t))))"
      "disk_envs i e'" "length e \<le> 2 + length e'"
    let ?d = "head_bytes (lg ?t) (blk ?t (l_start (lg ?t)))"
    have "get32 0 ?d = 0" using len by (simp add: head_bytes_def cell32.put_arr_def cell_simps)
    then show "Q () s' e'"
      using Q[of s' ?d e'] a log_rest_trans[OF t(5) bio_log_rest[OF a(2)]] bio_rest_lg[OF a(2)] by simp
  qed (use R in auto)
  then show ?thesis by (simp add: wp_thn wp_Ret cleared_def)
qed

text \<open>Crash states of a commit: the disk stands for the old or for the new contents.\<close>

definition crash_ok :: "'z logst_scheme \<Rightarrow> (u32 \<Rightarrow> byte list) \<Rightarrow> 'z logst_scheme \<Rightarrow> bool" where
  "crash_ok s new s' \<longleftrightarrow> (\<exists>n. log_ok (disk_log (lg s) (dsk (img s'))) n) \<and>
     (outside (lg s) (recovered (lg s) (dsk (img s'))) (dsk (img s)) \<or> outside (lg s) (recovered (lg s) (dsk (img s'))) new)"

lemma commit_wpc:
  fixes s :: "'z logst_scheme"
  assumes r: "bc_ready i {} P s" and g: "log_ok (lg s) n" and p: "pinned (lg s) {..<n} P s" and n: "n < LOGBLOCKS"
    and hd: "get32 0 (dsk (img s) (l_start (lg s))) = 0" and env: "disk_envs i e"
    and Q: "\<And>s' e'. bc_ready i {} {} s' \<Longrightarrow> log_rest s s' \<Longrightarrow> lg s' = cleared (lg s) \<Longrightarrow>
      outside (lg s) (dsk (img s')) (blk s) \<Longrightarrow> get32 0 (dsk (img s') (l_start (lg s))) = 0 \<Longrightarrow>
      disk_envs i e' \<Longrightarrow> length e \<le> 6 * n + 4 + length e' \<Longrightarrow> (0 < n \<Longrightarrow> e \<noteq> []) \<Longrightarrow> Q () s' e'"
    and R: "\<And>s'. length e < 6 * n + 4 \<Longrightarrow> crash_ok s (blk s) s' \<Longrightarrow> R s'"
  shows "wpc commit Q R s e"
proof -
  let ?g = "lg s" and ?m = "dsk (img s)"
  let ?w = "\<lambda>k. written (\<lambda>j. log_slot j ?g) (\<lambda>j. blk s (log_home j ?g)) k ?m"
  note G = log_okD[OF g]
  have slots: "in_log ?g (log_slot j ?g)" "log_slot j ?g \<noteq> l_start ?g" if "j < n" for j
    using log_slots(2,4)[OF G(2), of j j] that G(4) by simp_all
  have wk: "?w k x = ?m x" if "k \<le> n" "\<not> in_log ?g x \<or> x = l_start ?g" for k x
    by (rule written_other) (use slots that in force)
  have old: "crash_ok s (blk s) s'" if "dsk (img s') = ?w k" "k \<le> n" for s' :: "'z logst_scheme" and k
  proof -
    have "get32 0 (?w k (l_start ?g)) = 0" using hd wk[OF that(2)] by simp
    from disk_log_empty[of ?g n "?w k", OF g this] show ?thesis using wk[OF that(2)] by (auto simp: crash_ok_def outside_def that(1))
  qed
  have P: "blk s k = ?m k" if "on_disk k" "\<And>j. j < n \<Longrightarrow> log_home j ?g \<noteq> k" for k
  proof -
    have "blockno (bufs s b) \<noteq> k" if "b \<in> {} \<union> P" for b
    proof -
      have "blockno (bufs s b) \<in> (\<lambda>j. log_home j ?g) ` {..<n}" using p that unfolding pinned_def by blast
      then obtain j where "j < n" "blockno (bufs s b) = log_home j ?g" by blast
      then show ?thesis using \<open>\<And>j. j < n \<Longrightarrow> log_home j ?g \<noteq> k\<close> by metis
    qed
    from blk_clean[OF r this] show ?thesis using that(1) by (simp add: dsk_def)
  qed
  show ?thesis
  proof (cases "n = 0")
    case True
    then have "P = {}" using p by (auto simp: pinned_def)
    moreover have "?g = cleared ?g" using G(3) True by (simp add: cleared_def)
    ultimately have "Q () s e" using r P True hd env by (intro Q) (auto simp: outside_def)
    then show ?thesis using G(3) True by (simp add: commit_def wp_simps)
  next
    case False
    then have run: "commit s e = thn write_log (thn write_head (thn (install_trans False) (thn (upd_lh (\<lambda>h. h\<lparr>lh_n := 0\<rparr>)) write_head))) s e"
      using G(3) by (simp add: commit_def bnd_def)
    show ?thesis unfolding wpc_def run unfolding wpc_def[symmetric] wp_thn[of write_log]
    proof (rule write_log_wpc[OF r g p n env])
      fix s1 :: "'z logst_scheme" and e1 :: "'z logst_scheme env"
      assume 1: "bc_ready i {} P s1" "bio_rest s s1" "dsk (img s1) = ?w n" "\<forall>c \<in> P. same_buf (bufs s c) (bufs s1 c)"
        "disk_envs i e1" "length e \<le> 3 * n + length e1" "0 < n \<Longrightarrow> e \<noteq> []"
      have lg1: "lg s1 = ?g" using bio_rest_lg[OF 1(2)] .
      have p1: "pinned ?g {..<n} P s1" using p pinned_cong[OF 1(4)] by simp
      have st1: "\<forall>b \<in> P. blockno (bufs s1 b) \<noteq> l_start (lg s1)"
      proof
        fix b assume "b \<in> P"
        then have "blockno (bufs s1 b) \<in> (\<lambda>j. log_home j ?g) ` {..<n}" using p1 unfolding pinned_def by blast
        then show "blockno (bufs s1 b) \<noteq> l_start (lg s1)" using G(7) log_slots(6)[OF G(2), of 0 0] lg1 by auto
      qed
      have "card P < NBUF" using pinned_card[OF 1(1) p1] n by simp
      note wh = write_head_wpc[OF 1(1) _ st1 this 1(5), unfolded lg1, OF g]
      show "wpc (thn write_head (thn (install_trans False) (thn (upd_lh (\<lambda>h. h\<lparr>lh_n := 0\<rparr>)) write_head))) Q R s1 e1"
        unfolding wp_thn[of write_head]
      proof (rule wh)
        fix s2 :: "'z logst_scheme" and e2 :: "'z logst_scheme env"
        let ?d = "blk s1 (l_start ?g)"
        assume 2: "bc_ready i {} P s2" "bio_rest s1 s2" "dsk (img s2) = (dsk (img s1))(l_start ?g := head_bytes ?g ?d)"
          "\<forall>c \<in> P. same_buf (bufs s1 c) (bufs s2 c)" "disk_envs i e2" "length e1 \<le> 2 + length e2"
        have lg2: "lg s2 = ?g" using bio_rest_lg[OF 2(2)] lg1 by simp
        have p2: "pinned ?g {..<n} P s2" using p1 pinned_cong[OF 2(4)] by simp
        have len: "length ?d = BSIZE"
          using bc_wfD(2)[OF bc_readyD(5)[OF 1(1)]] by (auto simp: blk_def find_Some_iff split: option.split)
        have hd2: "dsk (img s2) (l_start ?g) = head_bytes ?g ?d" using 2(3) by simp
        have data: "dsk (img s2) (log_slot j ?g) = blk s (log_home j ?g)" if "j < n" for j
          using slots[OF that] 2(3) 1(3) log_slots(1)[OF G(2)] G(4) that by (auto intro!: written_at)
        let ?n = "written (\<lambda>j. log_home j ?g) (\<lambda>j. dsk (img s2) (log_slot j ?g)) n (dsk (img s2))"
        have new: "outside ?g ?n (blk s)"
          unfolding outside_def
        proof (intro allI impI)
          fix k assume k: "on_disk k \<and> \<not> in_log ?g k"
          show "?n k = blk s k"
          proof (cases "\<exists>j < n. log_home j ?g = k")
            case True
            then obtain j where j: "j < n" "log_home j ?g = k" by blast
            have "?n (log_home j ?g) = dsk (img s2) (log_slot j ?g)" by (rule written_at) (use G(5) j(1) in auto)
            then show ?thesis using data[OF j(1)] j(2) by simp
          next
            case False
            then have "?n k = dsk (img s2) k" by (intro written_other) blast
            also have "\<dots> = ?m k" using 2(3) 1(3) k wk[of n k] log_slots(6)[OF G(2), of 0 0] by auto
            finally show ?thesis using P[of k] k False by auto
          qed
        qed
        have rec: "crash_ok s (blk s) s'"
          if "dsk (img s') = written (\<lambda>j. log_home j ?g) (\<lambda>j. dsk (img s2) (log_slot j ?g)) k (dsk (img s2))" "k \<le> n"
          for s' :: "'z logst_scheme" and k
          using recovered_committed[OF g hd2 len that(2,1)] new by (auto simp: crash_ok_def)
        show "wpc (thn (install_trans False) (thn (upd_lh (\<lambda>h. h\<lparr>lh_n := 0\<rparr>)) write_head)) Q R s2 e2"
          unfolding wp_thn[of "install_trans False"]
        proof (rule install_trans_wpc[OF 2(1) _ _ _ 2(5), of n, unfolded lg2])
          fix s3 :: "'z logst_scheme" and e3 :: "'z logst_scheme env"
          assume 3: "bc_ready i {} {} s3" "log_rest s2 s3" "lg s3 = ?g" "dsk (img s3) = ?n" "disk_envs i e3" "length e2 \<le> 3 * n + length e3"
          show "wpc (thn (upd_lh (\<lambda>h. h\<lparr>lh_n := 0\<rparr>)) write_head) Q R s3 e3"
          proof (rule clear_wpc[OF 3(1) _ 3(5), unfolded 3(3), OF g])
            fix s4 :: "'z logst_scheme" and e4 :: "'z logst_scheme env" and d
            assume 4: "bc_ready i {} {} s4" "log_rest s3 s4" "lg s4 = cleared ?g" "get32 0 d = 0"
              "dsk (img s4) = (dsk (img s3))(l_start ?g := d)" "disk_envs i e4" "length e3 \<le> 2 + length e4"
            have "log_rest s s4"
              using log_rest_trans[OF bio_log_rest[OF 1(2)]] log_rest_trans[OF bio_log_rest[OF 2(2)]] log_rest_trans[OF 3(2) 4(2)] by blast
            moreover have "outside ?g (dsk (img s4)) (blk s)"
              using new 4(5) 3(4) log_slots(6)[OF G(2), of 0 0] by (auto simp: outside_def)
            ultimately show "Q () s4 e4" using 4 1(6,7) 2(6) 3(6) by (intro Q) simp_all
          next
            fix s' :: "'z logst_scheme" assume "length e3 < 2" "img s' = img s3"
            then show "R s'" using rec[of s' n] 3(4,6) 1(6) 2(6) by (intro R) simp_all
          qed
        next
          fix s' :: "'z logst_scheme" and k
          assume "k < n" "length e2 < 3 * n" "dsk (img s') = written (\<lambda>j. log_home j ?g) (\<lambda>j. dsk (img s2) (log_slot j ?g)) k (dsk (img s2))"
          then show "R s'" using rec[of s' k] 1(6) 2(6) by (intro R) simp_all
        qed (use g p2 n in simp_all)
      next
        fix s' :: "'z logst_scheme" assume "length e1 < 2" "img s' = img s1"
        then show "R s'" using old[of s' n] 1(3,6) by (intro R) simp_all
      qed
    next
      fix s' :: "'z logst_scheme" and k assume "k < n" "length e < 3 * n" "dsk (img s') = ?w k"
      then show "R s'" using old[of s' k] by (intro R) simp_all
    qed
  qed
qed

section \<open>Recovery\<close>

lemma log_ok_cong:
  assumes "log_ok g n" "l_start g' = l_start g" "l_dev g' = l_dev g" "lh_n (l_lh g') = int n"
    "\<And>j. j < n \<Longrightarrow> log_home j g' = log_home j g"
  shows "log_ok g' n"
  using assms unfolding log_ok_def inj_on_def in_log_def log_home_def by auto

lemma wp_upd_lh [wp_simps]:
  "wpc (upd_lh h) Q R s e = Q () (s\<lparr>lg := (lg s)\<lparr>l_lh := h (l_lh (lg s))\<rparr>\<rparr>) e"
  by (simp add: wp_Ret)

lemma read_head_wpc:
  fixes s :: "'z logst_scheme"
  assumes r: "bc_ready i {} {} s" and h: "log_ok (disk_log (lg s) (dsk (img s))) n" and env: "disk_envs i e"
    and Q: "\<And>s' e'. bc_ready i {} {} s' \<Longrightarrow> log_rest s s' \<Longrightarrow> log_ok (lg s') n \<Longrightarrow> l_start (lg s') = l_start (lg s) \<Longrightarrow>
      l_dev (lg s') = l_dev (lg s) \<Longrightarrow> (\<And>j. j < n \<Longrightarrow> log_home j (lg s') = log_home j (disk_log (lg s) (dsk (img s)))) \<Longrightarrow>
      img s' = img s \<Longrightarrow> disk_envs i e' \<Longrightarrow> length e \<le> 1 + length e' \<Longrightarrow> Q () s' e'"
    and R: "\<And>s'. length e < 1 \<Longrightarrow> img s' = img s \<Longrightarrow> R s'"
  shows "wpc read_head Q R s e"
  unfolding read_head_def wp_bnd
proof (rule log_bread_wpc)
  let ?g = "lg s" and ?h = "disk_log (lg s) (dsk (img s))"
  note G = log_okD[OF h, unfolded disk_log_fields]
  have sl: "on_disk (l_start ?g)" using log_slots(5)[OF G(2), of 0 0] by simp
  have dB: "blk s (l_start ?g) = dsk (img s) (l_start ?g)" using blk_clean[OF r, of "l_start ?g"] sl by (simp add: dsk_def)
  let ?rest = "\<lambda>b. \<lambda>d. thn (upd_lh (\<lambda>h. h\<lparr>lh_n := sint (get32 0 d)\<rparr>))
      (thn (log_loop (\<lambda>i. upd_lh (\<lambda>h. h\<lparr>lh_block := (lh_block h)(i := get32 (4 + 4 * i) d)\<rparr>))) (brelse b))"
  show "wpc (bread (l_dev ?g) (l_start ?g)) (\<lambda>b. wpc (rd (\<lambda>s. bdata (bufs s b))) (\<lambda>d. wpc (?rest b d) Q R) R) R s e"
    unfolding G(1)
  proof (rule bread_wpc[OF r env])
    fix b and s1 :: "'z logst_scheme" and e1 :: "'z logst_scheme env"
    assume b: "bc_ready i (insert b {}) {} s1" "blockno (bufs s1 b) = l_start ?g" "bdata (bufs s1 b) = blk s (l_start ?g)"
      "same_view s s1" "img s1 = img s" "bio_rest s s1" "disk_envs i e1" "length e \<le> Suc (length e1)"
    have lg1: "lg s1 = ?g" using bio_rest_lg[OF b(6)] .
    let ?d = "dsk (img s) (l_start ?g)"
    let ?B = "\<lambda>k j. if j < k then get32 (4 + 4 * j) ?d else lh_block (l_lh ?g) j"
    let ?s = "\<lambda>k. s1\<lparr>lg := ?g\<lparr>l_lh := \<lparr>lh_n = int n, lh_block = ?B k\<rparr>\<rparr>\<rparr>"
    have body: "wpc (upd_lh (\<lambda>h. h\<lparr>lh_block := (lh_block h)(k := get32 (4 + 4 * k) ?d)\<rparr>))
        (\<lambda>_ s' e'. s' = ?s (Suc k) \<and> e' = e1) R s' e'" if "s' = ?s k \<and> e' = e1" for k s' e'
      using that by (auto simp: wp_simps fun_eq_iff less_Suc_eq)
    have homes: "log_home j (lg (?s n)) = log_home j ?h" if "j < n" for j
      using that by (simp add: log_home_def disk_log_def)
    have ok: "log_ok (lg (?s n)) n" by (rule log_ok_cong[OF h]) (use homes in simp_all)
    have clean: "bdata (bufs (?s n) b) = disk_block (img (?s n)) (blockno (bufs (?s n) b))"
      using b(2,3,5) dB sl by (simp add: dsk_def)
    have 1: "bc_ready i (insert b {}) {} (?s n)" using b(1) by simp
    have fin: "wpc (brelse b) Q R (?s n) e1"
    proof (rule brelse_wpc[OF 1])
      fix s2 :: "'z logst_scheme"
      assume x: "bc_ready i (insert b {} - {b}) {} s2" "img s2 = img (?s n)" "bio_rest (?s n) s2"
      have lg2: "lg s2 = lg (?s n)" using bio_rest_lg[OF x(3)] .
      have "log_rest s s2"
        using log_rest_trans[OF bio_log_rest[OF b(6)]] log_rest_trans[OF log_rest_refl(2)[of s1 "\<lambda>_. lg (?s n)"]]
          bio_log_rest[OF x(3)] by simp
      then show "Q () s2 e1"
        using x(1,2) lg2 ok homes b(5,7,8) by (intro Q) simp_all
    qed (use clean in simp_all)
    have "wpc (log_loop (\<lambda>i. upd_lh (\<lambda>h. h\<lparr>lh_block := (lh_block h)(i := get32 (4 + 4 * i) ?d)\<rparr>)))
        (\<lambda>_. wpc (brelse b) Q R) R (?s 0) e1"
      by (rule log_loop_wpc[where I = "\<lambda>k s' e'. s' = ?s k \<and> e' = e1" and n = n])
        (use body fin G(4) in auto)
    moreover have eq: "(l_lh ?g)\<lparr>lh_n := int n\<rparr> = \<lparr>lh_n = int n, lh_block = ?B 0\<rparr>" by (cases "l_lh ?g") simp
    ultimately show "wpc (rd (\<lambda>s. bdata (bufs s b))) (\<lambda>d. wpc (?rest b d) Q R) R s1 e1"
      unfolding wp_rd wp_thn wp_upd_lh b(3) dB lg1 G(3) eq by blast
  next
    fix s' :: "'z logst_scheme" assume "e = []" "img s' = img s"
    then show "R s'" by (intro R) auto
  qed (use sl in auto)
qed

lemma recover_wpc:
  fixes s :: "'z logst_scheme"
  assumes r: "bc_ready i {} {} s" and h: "log_ok (disk_log (lg s) (dsk (img s))) n" and con: "con_ok s" and env: "disk_envs i e"
    and Q: "\<And>s' e'. bc_ready i {} {} s' \<Longrightarrow> log_rest s s' \<Longrightarrow> log_ok (lg s') 0 \<Longrightarrow> l_start (lg s') = l_start (lg s) \<Longrightarrow>
      outside (lg s) (dsk (img s')) (recovered (lg s) (dsk (img s))) \<Longrightarrow> get32 0 (dsk (img s') (l_start (lg s))) = 0 \<Longrightarrow>
      disk_envs i e' \<Longrightarrow> length e \<le> 3 * n + 3 + length e' \<Longrightarrow> Q () s' e'"
    and R: "\<And>s'. length e < 3 * n + 3 \<Longrightarrow> log_ok (disk_log (lg s) (dsk (img s'))) n \<Longrightarrow>
      recovered (lg s) (dsk (img s')) = recovered (lg s) (dsk (img s)) \<Longrightarrow> R s'"
  shows "wpc recover_from_log Q R s e"
  unfolding recover_from_log_def wp_thn[of read_head]
proof (rule read_head_wpc[OF r h env])
  let ?g = "lg s" and ?h = "disk_log (lg s) (dsk (img s))" and ?m = "dsk (img s)"
  fix s1 :: "'z logst_scheme" and e1 :: "'z logst_scheme env"
  assume 1: "bc_ready i {} {} s1" "log_rest s s1" "log_ok (lg s1) n" "l_start (lg s1) = l_start ?g" "l_dev (lg s1) = l_dev ?g"
    "\<And>j. j < n \<Longrightarrow> log_home j (lg s1) = log_home j ?h" "img s1 = img s" "disk_envs i e1" "length e \<le> 1 + length e1"
  have slot: "log_slot j (lg s1) = log_slot j ?g" for j by (simp add: log_slot_def 1(4))
  let ?w = "\<lambda>k. written (\<lambda>j. log_home j ?h) (\<lambda>j. ?m (log_slot j ?g)) k ?m"
  have w: "written (\<lambda>j. log_home j (lg s1)) (\<lambda>j. dsk (img s1) (log_slot j (lg s1))) k (dsk (img s1)) = ?w k" if "k \<le> n" for k
    using 1(6) that unfolding slot 1(7) by (intro written_cong) auto
  have p1: "pinned (lg s1) (if True then {} else {..<n}) {} s1" by (simp add: pinned_def)
  have crash: "R s'" if "length e < 3 * n + 3" "k \<le> n" "dsk (img s') = ?w k" for s' :: "'z logst_scheme" and k
    using recovered_steps(1,2)[OF h that(2,3)] h that(1) by (intro R) simp_all
  show "wpc (thn (install_trans True) (thn (upd_lh (\<lambda>h. h\<lparr>lh_n := 0\<rparr>)) write_head)) Q R s1 e1"
    unfolding wp_thn[of "install_trans True"]
  proof (rule install_trans_wpc[OF 1(1,3) p1 _ 1(8)])
    fix s2 :: "'z logst_scheme" and e2 :: "'z logst_scheme env"
    assume 2: "bc_ready i {} {} s2" "log_rest s1 s2" "lg s2 = lg s1" "disk_envs i e2" "length e1 \<le> 3 * n + length e2"
      "dsk (img s2) = written (\<lambda>j. log_home j (lg s1)) (\<lambda>j. dsk (img s1) (log_slot j (lg s1))) n (dsk (img s1))"
    have d2: "dsk (img s2) = ?w n" using 2(6) w by simp
    show "wpc (thn (upd_lh (\<lambda>h. h\<lparr>lh_n := 0\<rparr>)) write_head) Q R s2 e2"
    proof (rule clear_wpc[OF 2(1) _ 2(4), unfolded 2(3), OF 1(3)])
      fix s3 :: "'z logst_scheme" and e3 :: "'z logst_scheme env" and d
      assume 3: "bc_ready i {} {} s3" "log_rest s2 s3" "lg s3 = cleared (lg s1)" "get32 0 d = 0"
        "dsk (img s3) = (dsk (img s2))(l_start (lg s1) := d)" "disk_envs i e3" "length e2 \<le> 2 + length e3"
      have "log_rest s s3" using log_rest_trans[OF 1(2)] log_rest_trans[OF 2(2) 3(2)] by blast
      moreover have "outside ?g (dsk (img s3)) (recovered ?g ?m)"
        using 3(5) d2 recovered_steps(3)[OF h order_refl refl] log_slots(6)[OF log_okD(2)[OF 1(3)], of 0 0]
        by (auto simp: outside_def in_log_def 1(4))
      ultimately show "Q () s3 e3"
        using 3 log_ok_cleared[OF 1(3)] 1(4,9) 2(5) by (intro Q) simp_all
    next
      fix s' :: "'z logst_scheme" assume "length e2 < 2" "img s' = img s2"
      then show "R s'" using 1(9) 2(5) d2 by (intro crash[of n]) simp_all
    qed
  next
    fix s' :: "'z logst_scheme" and k
    assume "k < n" "length e1 < 3 * n"
      "dsk (img s') = written (\<lambda>j. log_home j (lg s1)) (\<lambda>j. dsk (img s1) (log_slot j (lg s1))) k (dsk (img s1))"
    then show "R s'" using 1(9) w[of k] by (intro crash[of k]) simp_all
  qed (use con con_ok_rest[OF 1(2)] in simp)
next
  fix s' :: "'z logst_scheme" assume "length e < 1" "img s' = img s"
  then show "R s'" using h by (intro R) simp_all
qed

section \<open>Recording a block\<close>

lemma bpin_nested:
  fixes s :: "'z bufst_scheme"
  assumes "running i s" "lock_free L_bcache s" "lock_free L_log s"
  shows "bpin b (acq L_log s) e = Ret () ((acq L_log s)\<lparr>bufs := set_ref b (refcnt (bufs s b) + 1) (bufs s)\<rparr>) e"
  using runningD[OF assms(1)] assms(2,3)
  by (simp add: bpin_def kop_simps lock_freeD set_ref_def)

lemma lg_same: "lg s = g \<Longrightarrow> s\<lparr>lg := g\<rparr> = s"
  by (cases s) simp

definition add_entry :: "u32 \<Rightarrow> log \<Rightarrow> log" where
  "add_entry k g = g\<lparr>l_lh := (l_lh g)\<lparr>lh_block := (lh_block (l_lh g))(nat (lh_n (l_lh g)) := k), lh_n := lh_n (l_lh g) + 1\<rparr>\<rparr>"

lemma log_write_Ret:
  fixes s :: "'z logst_scheme"
  assumes r: "running i s" "lock_free L_bcache s" "lock_free L_log s" and n: "lh_n (l_lh (lg s)) = int n" "n < LOGBLOCKS"
    and out: "1 \<le> l_outstanding (lg s)"
  shows "log_write b s e = Ret () (if \<exists>j < n. log_home j (lg s) = blockno (bufs s b) then touch s
    else (touch s)\<lparr>bufs := set_ref b (refcnt (bufs s b) + 1) (bufs s), lg := add_entry (blockno (bufs s b)) (lg s)\<rparr>) e"
proof -
  let ?a = "acq L_log s" and ?k = "blockno (bufs s b)" and ?h = "l_lh (lg s)"
  let ?tail = "\<lambda>i. thn (upd_lh (\<lambda>h. h\<lparr>lh_block := (lh_block h)(i := ?k)\<rparr>)) (bnd (rd (\<lambda>s. int i = lh_n (l_lh (lg s)))) (\<lambda>new.
     thn (if new then thn (bpin b) (upd_lh (\<lambda>h. h\<lparr>lh_n := lh_n h + 1\<rparr>)) else ret ()) (release L_log)))"
  have run: "log_write b s e = ?tail (log_index ?k ?h) ?a e"
    using assms runningD(5)[OF r(1)] by (simp add: log_write_def thn_def bnd_def acquire_Ret lock_freeD)
  have u: "under L_log i ?a" using under_acq[OF r(1,3)] by simp
  have rel: "release L_log ?a e = Ret () (touch s) e"
    using under_release[OF u, of e] r(3) runningD(5)[OF r(1)] by simp
  show ?thesis
  proof (cases "find_index (\<lambda>i. lh_block ?h i = ?k) [0..<nat (lh_n ?h)]")
    case (Some j)
    then have j: "j < n" "lh_block ?h j = ?k" using n(1) by (simp_all add: find_index_upt)
    have "?tail j ?a e = Ret () (touch s) e"
      using j n(1) rel by (simp add: thn_def bnd_def fun_upd_idem lg_same)
    moreover have "\<exists>j < n. log_home j (lg s) = ?k" using j by (auto simp: log_home_def)
    ultimately show ?thesis using run Some by (simp add: log_index_def)
  next
    case None
    then have no: "\<not> (\<exists>j < n. log_home j (lg s) = ?k)" using n(1) by (auto simp: find_index_None log_home_def)
    let ?b = "?a\<lparr>lg := (lg s)\<lparr>l_lh := ?h\<lparr>lh_block := (lh_block ?h)(n := ?k)\<rparr>\<rparr>\<rparr>"
    let ?s2 = "s\<lparr>lg := (lg s)\<lparr>l_lh := ?h\<lparr>lh_block := (lh_block ?h)(n := ?k)\<rparr>\<rparr>\<rparr>"
    have pin: "bpin b ?b e = Ret () (?b\<lparr>bufs := set_ref b (refcnt (bufs s b) + 1) (bufs s)\<rparr>) e"
      using bpin_nested[of i ?s2 b e] r by simp
    let ?c = "?a\<lparr>bufs := set_ref b (refcnt (bufs s b) + 1) (bufs s), lg := add_entry ?k (lg s)\<rparr>"
    have "under L_log i ?c" using u by simp
    from under_release[OF this, of e] have "release L_log ?c e =
        Ret () ((touch s)\<lparr>bufs := set_ref b (refcnt (bufs s b) + 1) (bufs s), lg := add_entry ?k (lg s)\<rparr>) e"
      using r(3) runningD(5)[OF r(1)] by simp
    then have "?tail n ?a e = Ret () ((touch s)\<lparr>bufs := set_ref b (refcnt (bufs s b) + 1) (bufs s), lg := add_entry ?k (lg s)\<rparr>) e"
      using n(1) pin by (simp add: thn_def bnd_def add_entry_def)
    moreover have "log_index ?k ?h = n" using None n(1) by (simp add: log_index_def)
    ultimately show ?thesis using run no by (simp only: if_False)
  qed
qed

lemma add_entry_ok:
  assumes g: "log_ok g n" and k: "on_disk k" "\<not> in_log g k" "\<not> (\<exists>j < n. log_home j g = k)" and n: "n < LOGBLOCKS"
  shows "log_ok (add_entry k g) (Suc n)" "j < n \<Longrightarrow> log_home j (add_entry k g) = log_home j g" "log_home n (add_entry k g) = k"
proof -
  note G = log_okD[OF g]
  have h: "log_home j (add_entry k g) = (if j = n then k else log_home j g)" for j
    using G(3) by (simp add: add_entry_def log_home_def)
  then show "j < n \<Longrightarrow> log_home j (add_entry k g) = log_home j g" "log_home n (add_entry k g) = k" by simp_all
  have "lh_block (l_lh (add_entry k g)) = (\<lambda>j. log_home j (add_entry k g))" by (simp add: log_home_def)
  then have "inj_on (lh_block (l_lh (add_entry k g))) {..<Suc n}"
    using G(5) k(3) by (auto simp: inj_on_def h less_Suc_eq)
  moreover have "l_start (add_entry k g) = l_start g" "l_dev (add_entry k g) = l_dev g" "lh_n (l_lh (add_entry k g)) = int (Suc n)"
    using G(3) by (simp_all add: add_entry_def)
  ultimately show "log_ok (add_entry k g) (Suc n)"
    using G(1,2,6,7) k(1,2) n unfolding log_ok_def h by (simp add: in_log_def less_Suc_eq)
qed

lemma log_write_wpc:
  fixes s :: "'z logst_scheme"
  assumes r: "bc_ready i H P s" and g: "log_ok (lg s) n" and p: "pinned (lg s) {..<n} P s" and b: "b \<in> H"
    and L: "lock_free L_log s" and n: "n < LOGBLOCKS" and out: "1 \<le> l_outstanding (lg s)" and k: "\<not> in_log (lg s) (blockno (bufs s b))"
    and Q: "\<And>s' P' m. bc_ready i H P' s' \<Longrightarrow> log_ok (lg s') m \<Longrightarrow> pinned (lg s') {..<m} P' s' \<Longrightarrow> b \<in> P' \<Longrightarrow>
      P' = insert b P \<Longrightarrow> m = (if b \<in> P then n else Suc n) \<Longrightarrow>
      lg s' = (if b \<in> P then lg s else add_entry (blockno (bufs s b)) (lg s)) \<Longrightarrow> log_rest s s' \<Longrightarrow> same_view s s' \<Longrightarrow>
      \<forall>c. same_buf (bufs s c) (bufs s' c) \<Longrightarrow> img s' = img s \<Longrightarrow> Q () s' e"
  shows "wpc (log_write b) Q R s e"
proof -
  let ?k = "blockno (bufs s b)"
  note G = log_okD[OF g]
  have bP: "b \<in> P \<longleftrightarrow> (\<exists>j < n. log_home j (lg s) = ?k)"
  proof
    assume "b \<in> P"
    then have "?k \<in> (\<lambda>j. log_home j (lg s)) ` {..<n}" using p unfolding pinned_def by blast
    then show "\<exists>j < n. log_home j (lg s) = ?k" by auto
  next
    assume "\<exists>j < n. log_home j (lg s) = ?k"
    then show "b \<in> P" using pinned_buffer[OF r p] b by auto
  qed
  note run = log_write_Ret[OF bc_readyD(2,3)[OF r] L G(3) n out, of b e]
  show ?thesis
  proof (cases "b \<in> P")
    case True
    have "Q () (touch s) e"
      using bc_ready_touch[OF r] g p True
      by (intro Q[of P _ n]) (auto simp: pinned_def same_view_def blk_def split: option.split)
    then show ?thesis using run bP True by (simp add: wp_Ret)
  next
    case False
    have bn: "b < NBUF" using b bc_readyD(6)[OF r] by blast
    have ref: "refcnt (bufs s b) = 1" using bc_readyD(8)[OF r bn] b False by simp
    let ?t = "(touch s)\<lparr>bufs := set_ref b 2 (bufs s)\<rparr>"
    let ?s' = "?t\<lparr>lg := add_entry ?k (lg s)\<rparr>"
    note t = ref_wpc[OF r b, of "insert b P" 2]
    note ok = add_entry_ok[OF g blk_held(4)[OF r] k _ n]
    have ok': "log_ok (add_entry ?k (lg s)) (Suc n)" "\<And>j. j < n \<Longrightarrow> log_home j (add_entry ?k (lg s)) = log_home j (lg s)"
      "log_home n (add_entry ?k (lg s)) = ?k"
      using ok b bP False by auto
    have "bc_ready i H (insert b P) ?s'" using t(1) by simp
    moreover have "pinned (add_entry ?k (lg s)) {..<Suc n} (insert b P) ?s'"
      using p ok'(2,3) by (simp add: pinned_def lessThan_Suc)
    moreover have "log_rest s ?s'" by (simp add: log_rest_def)
    moreover have "same_view s ?s'" using t(2) False by (auto simp: same_view_def blk_def split: option.split)
    ultimately have "Q () ?s' e" using ok' False by (intro Q[of "insert b P" _ "Suc n"]) (simp_all add: same_buf_def)
    moreover have "\<not> (\<exists>j < n. log_home j (lg s) = ?k)" using bP False by blast
    ultimately show ?thesis using run ref by (simp only: wp_Ret if_False one_add_one)
  qed
qed

section \<open>Operations begin and end\<close>

definition may_begin :: "log \<Rightarrow> bool" where
  "may_begin g \<longleftrightarrow> l_committing g = 0 \<and> lh_n (l_lh g) + (l_outstanding g + 1) * int MAXOPBLOCKS \<le> int LOGBLOCKS"

definition op_begun :: "log \<Rightarrow> log" where
  "op_begun g = g\<lparr>l_outstanding := l_outstanding g + 1\<rparr>"

definition op_ended :: "log \<Rightarrow> log" where
  "op_ended g = g\<lparr>l_outstanding := l_outstanding g - 1, l_committing := (if l_outstanding g = 1 then 1 else 0)\<rparr>"

definition commit_done :: "log \<Rightarrow> log" where
  "commit_done g = (cleared g)\<lparr>l_committing := 0\<rparr>"

text \<open>An operation starts at once when the log has room for it; otherwise it sleeps.\<close>

lemma begin_op_Ret:
  fixes s :: "'z logst_scheme"
  assumes r: "running i s" "lock_free L_log s" and m: "may_begin (lg s)"
  shows "begin_op s e = Ret () ((touch s)\<lparr>lg := op_begun (lg s)\<rparr>) e"
proof -
  let ?a = "acq L_log s"
  have "under L_log i (?a\<lparr>lg := op_begun (lg s)\<rparr>)" using under_acq[OF r] by simp
  from under_release[OF this, of e] have rel: "release L_log (?a\<lparr>lg := op_begun (lg s)\<rparr>) e = Ret () ((touch s)\<lparr>lg := op_begun (lg s)\<rparr>) e"
    using r(2) runningD(5)[OF r(1)] by simp
  have "begin_round ?a e = Ret (Inr ()) ((touch s)\<lparr>lg := op_begun (lg s)\<rparr>) e"
    using m rel by (simp add: begin_round_def bnd_def thn_def may_begin_def op_begun_def)
  then show ?thesis
    using r(2) runningD(5)[OF r(1)] by (simp add: begin_op_def thn_def bnd_def acquire_Ret lock_freeD loop_first(1))
qed

lemma begin_op_waits:
  fixes s :: "'z logst_scheme"
  assumes r: "running i s" "lock_free L_log s" and m: "\<not> may_begin (lg s)"
  shows "begin_op s [] = Off (sleep_st C_log L_log i (acq L_log s))"
proof -
  have "sleep_call L_log i (acq L_log s)" using under_acq[OF r] by (simp add: under_def)
  then have "begin_round (acq L_log s) [] = Off (sleep_st C_log L_log i (acq L_log s))"
    using m by (auto simp: begin_round_def bnd_def thn_def may_begin_def sleep_Off)
  then show ?thesis
    using r(2) runningD(5)[OF r(1)] by (simp add: begin_op_def thn_def bnd_def acquire_Ret lock_freeD loop_first(2))
qed

text \<open>An operation that is not the last one makes room and wakes the waiting ones.\<close>

lemma end_op_early:
  fixes s :: "'z logst_scheme"
  assumes r: "running i s" "lock_free L_log s" and g: "l_committing (lg s) = 0" "l_outstanding (lg s) \<noteq> 1"
  shows "end_op s e = Ret () ((touch s)\<lparr>lg := op_ended (lg s), procs := woken (Some i) (Some C_log) (procs s)\<rparr>) e"
proof -
  let ?a = "(acq L_log s)\<lparr>lg := op_ended (lg s)\<rparr>"
  have u: "under L_log i ?a" using under_acq[OF r] by simp
  have w: "wakeup (Some C_log) ?a e = Ret () (?a\<lparr>procs := woken (Some i) (Some C_log) (procs s)\<rparr>) e"
    using under_wakeup[OF u, of "Some C_log" e] by simp
  have "under L_log i (?a\<lparr>procs := woken (Some i) (Some C_log) (procs s)\<rparr>)" using u by simp
  from under_release[OF this, of e] have rel: "release L_log (?a\<lparr>procs := woken (Some i) (Some C_log) (procs s)\<rparr>) e =
      Ret () ((touch s)\<lparr>lg := op_ended (lg s), procs := woken (Some i) (Some C_log) (procs s)\<rparr>) e"
    using r(2) runningD(5)[OF r(1)] by simp
  have o: "(lg s)\<lparr>l_outstanding := l_outstanding (lg s) - 1\<rparr> = op_ended (lg s)"
    using g by (cases "lg s") (simp add: op_ended_def)
  have "l_outstanding (op_ended (lg s)) \<noteq> 0" using g(2) by (simp add: op_ended_def)
  then show ?thesis using r(2) runningD(5)[OF r(1)] g w rel
    by (simp add: end_op_def thn_def bnd_def acquire_Ret lock_freeD o)
qed

lemma bc_ready_procs:
  assumes r: "bc_ready i H P s" and P: "\<And>j. proc_id (Q j) = proc_id (procs s j)"
  shows "bc_ready i H P (s\<lparr>procs := Q\<rparr>)"
proof (rule bc_ready_cong[OF r])
  show "calm s (s\<lparr>procs := Q\<rparr>)" by (rule calm_procs) (rule P)
  then show "vd_ready i (s\<lparr>procs := Q\<rparr>)"
    using bc_readyD(1)[OF r] calmD(1,2)[of s "s\<lparr>procs := Q\<rparr>"] by (simp add: vd_ready_def)
qed (use bc_readyD(5)[OF r] in simp_all)

text \<open>The last operation commits.\<close>

lemma end_op_wpc:
  fixes s :: "'z logst_scheme"
  assumes r: "bc_ready i {} P s" "lock_free L_log s" and g: "log_ok (lg s) n" and p: "pinned (lg s) {..<n} P s"
    and n: "n < LOGBLOCKS" and hd: "get32 0 (dsk (img s) (l_start (lg s))) = 0" and env: "disk_envs i e"
    and c: "l_committing (lg s) = 0" "l_outstanding (lg s) = 1"
    and Q: "\<And>s' e'. bc_ready i {} {} s' \<Longrightarrow> log_rest s s' \<Longrightarrow> lg s' = commit_done (op_ended (lg s)) \<Longrightarrow>
      outside (lg s) (dsk (img s')) (blk s) \<Longrightarrow> get32 0 (dsk (img s') (l_start (lg s))) = 0 \<Longrightarrow>
      disk_envs i e' \<Longrightarrow> length e \<le> 6 * n + 4 + length e' \<Longrightarrow> (0 < n \<Longrightarrow> e \<noteq> []) \<Longrightarrow> Q () s' e'"
    and R: "\<And>s'. length e < 6 * n + 4 \<Longrightarrow> crash_ok s (blk s) s' \<Longrightarrow> R s'"
  shows "wpc end_op Q R s e"
proof -
  note run = bc_readyD(2)[OF r(1)]
  note cw = runningD(5)[OF run]
  let ?g = "op_ended (lg s)"
  let ?t = "(touch s)\<lparr>lg := ?g\<rparr>"
  have g': "log_ok ?g n" "l_start ?g = l_start (lg s)" "log_home j ?g = log_home j (lg s)" "in_log ?g k = in_log (lg s) k" for j k
    using g by (simp_all add: log_ok_def op_ended_def log_home_def in_log_def)
  have "disk_log ?g m = disk_log (lg s) m\<lparr>l_outstanding := 0, l_committing := 1\<rparr>" for m
    using c by (simp add: disk_log_def op_ended_def)
  then have dl: "log_ok (disk_log ?g m) k = log_ok (disk_log (lg s) m) k" "recovered ?g m = recovered (lg s) m" for m k
    using c by (simp_all add: log_ok_def log_home_def in_log_def recovered_def Let_def log_slot_def op_ended_def)
  have t: "bc_ready i {} P ?t" "lg ?t = ?g" "pinned ?g {..<n} P ?t" "img ?t = img s" "blk ?t = blk s" "log_rest s ?t"
    "lock_free L_log ?t"
    using bc_ready_touch[OF r(1)] p r(2) by (simp_all add: pinned_def g'(3) fun_eq_iff blk_def log_rest_def split: option.split)
  have o: "(lg s)\<lparr>l_outstanding := 0, l_committing := 1\<rparr> = ?g" using c by (simp add: op_ended_def)
  have u: "under L_log i ((acq L_log s)\<lparr>lg := ?g\<rparr>)" using under_acq[OF run r(2)] by simp
  have rel: "release L_log ((acq L_log s)\<lparr>lg := ?g\<rparr>) e = Ret () ?t e"
    using under_release[OF u, of e] r(2) cw by simp
  let ?fin = "thn (acquire L_log) (thn (upd_lg (\<lambda>g. g\<lparr>l_committing := 0\<rparr>)) (thn (wakeup (Some C_log)) (release L_log)))"
  have start: "end_op s e = thn commit ?fin ?t e"
    using r(2) cw c rel o by (simp add: end_op_def bnd_def thn_def acquire_Ret lock_freeD)
  show ?thesis unfolding wpc_def start unfolding wpc_def[symmetric] wp_thn[of commit]
  proof (rule commit_wpc[OF t(1) _ _ n _ env, unfolded t(2)])
    fix s1 :: "'z logst_scheme" and e1 :: "'z logst_scheme env"
    assume 1: "bc_ready i {} {} s1" "log_rest ?t s1" "lg s1 = cleared ?g" "outside ?g (dsk (img s1)) (blk ?t)"
      "get32 0 (dsk (img s1) (l_start ?g)) = 0" "disk_envs i e1" "length e \<le> 6 * n + 4 + length e1" "0 < n \<Longrightarrow> e \<noteq> []"
    note run1 = bc_readyD(2)[OF 1(1)]
    have L: "lock_free L_log s1" using 1(2) t(7) by (simp add: log_rest_def calm_def)
    let ?W = "woken (Some i) (Some C_log) (procs s1)"
    let ?a = "(acq L_log s1)\<lparr>lg := commit_done ?g\<rparr>"
    have ua: "under L_log i ?a" "under L_log i (?a\<lparr>procs := ?W\<rparr>)" using under_acq[OF run1 L] by simp_all
    let ?s' = "((touch s1)\<lparr>lg := commit_done ?g\<rparr>)\<lparr>procs := ?W\<rparr>"
    have fin: "?fin s1 e1 = Ret () ?s' e1"
      using L runningD(5)[OF run1] under_wakeup[OF ua(1), of "Some C_log" e1] under_release[OF ua(2), of e1] 1(3)
      by (simp add: thn_def bnd_def acquire_Ret lock_freeD commit_done_def)
    have W: "proc_id (?W j) = proc_id (procs s1 j)" for j by simp
    have "bc_ready i {} {} ?s'"
      by (rule bc_ready_procs) (use bc_ready_touch[OF 1(1)] W in simp_all)
    moreover have "calm s1 (s1\<lparr>procs := ?W\<rparr>)" by (rule calm_procs) (rule W)
    then have "log_rest s1 ?s'" by (simp add: log_rest_def calm_def)
    then have "log_rest s ?s'" using log_rest_trans[OF t(6)] log_rest_trans[OF 1(2)] by blast
    ultimately have "Q () ?s' e1"
      using 1(4-8) unfolding t(5) by (intro Q) (simp_all add: outside_def g')
    then show "wpc ?fin Q R s1 e1" using fin by (simp add: wp_Ret)
  next
    fix s' :: "'z logst_scheme" assume "length e < 6 * n + 4" "crash_ok ?t (blk ?t) s'"
    then show "R s'" unfolding crash_ok_def t(2,4,5) dl outside_def g'(4) by (intro R) (simp_all add: crash_ok_def outside_def)
  qed (use g'(1,2) t(3,4) hd in simp_all)
qed

end
