(* ===== verification/Crash.thy ===== *)
theory Crash
  imports Log
begin

text \<open>
  What the log promises: a group of file system calls reaches the disk as a whole or not at all,
  wherever the machine stops, and the calls that are let in together fit into the log.
\<close>

section \<open>Commit and crash\<close>

text \<open>
  A machine that has been started again: the cache is empty, the log knows where it lies, and the
  disk is as it was.
\<close>

definition rebooted :: "'z logst_scheme \<Rightarrow> (nat \<Rightarrow> byte) \<Rightarrow> 'y logst_scheme \<Rightarrow> nat \<Rightarrow> bool" where
  "rebooted s m t i \<longleftrightarrow> bc_ready i {} {} t \<and> con_ok t \<and> img t = m \<and>
     l_start (lg t) = l_start (lg s) \<and> l_dev (lg t) = l_dev (lg s)"

lemma disk_log_cong:
  assumes "l_start g' = l_start g" "l_dev g' = l_dev g"
  shows "log_ok (disk_log g' m) n = log_ok (disk_log g m) n" "recovered g' m = recovered g m"
    "outside g' m m' = outside g m m'" "in_log g' k = in_log g k"
  using assms by (simp_all add: log_ok_def log_home_def disk_log_def in_log_def recovered_def Let_def log_slot_def outside_def)

lemma outside_trans: "outside g a b \<Longrightarrow> outside g b c \<Longrightarrow> outside g a c"
  by (simp add: outside_def)

text \<open>The last of a group of operations is about to end; the cache holds what they have written.\<close>

definition ending :: "nat \<Rightarrow> nat set \<Rightarrow> nat \<Rightarrow> 'z logst_scheme \<Rightarrow> bool" where
  "ending i P n s \<longleftrightarrow> bc_ready i {} P s \<and> lock_free L_log s \<and> log_ok (lg s) n \<and> pinned (lg s) {..<n} P s \<and>
     get32 0 (dsk (img s) (l_start (lg s))) = 0 \<and> l_committing (lg s) = 0 \<and> l_outstanding (lg s) = 1"

lemma ending_wpc:
  fixes s :: "'z logst_scheme"
  assumes "ending i P n s" "n < LOGBLOCKS" "disk_envs i e"
    and "\<And>s' e'. bc_ready i {} {} s' \<Longrightarrow> log_rest s s' \<Longrightarrow> lg s' = commit_done (op_ended (lg s)) \<Longrightarrow>
      outside (lg s) (dsk (img s')) (blk s) \<Longrightarrow> get32 0 (dsk (img s') (l_start (lg s))) = 0 \<Longrightarrow>
      disk_envs i e' \<Longrightarrow> length e \<le> 6 * n + 4 + length e' \<Longrightarrow> (0 < n \<Longrightarrow> e \<noteq> []) \<Longrightarrow> Q () s' e'"
    and "\<And>s'. length e < 6 * n + 4 \<Longrightarrow> crash_ok s (blk s) s' \<Longrightarrow> R s'"
  shows "wpc end_op Q R s e"
  by (rule end_op_wpc[where i = i and P = P and n = n]) (use assms in \<open>simp_all add: ending_def\<close>)

text \<open>
  C8: wherever the machine stops while the last operation of a group ends, recovery after the next
  start leaves a disk on which, outside the log, either no write of the group has happened or all of
  them have.
\<close>

theorem commit_survives_crash:
  fixes s s' :: "'z logst_scheme" and t :: "'y logst_scheme"
  assumes s: "ending i P n s" "n < LOGBLOCKS" "disk_envs i e" and crash: "end_op s e = Off s'"
    and t: "rebooted s (img s') t j" "disk_envs j e2" "3 * LOGBLOCKS + 3 \<le> length e2"
  shows "\<exists>t' e3. recover_from_log t e2 = Ret () t' e3 \<and>
    (outside (lg s) (dsk (img t')) (dsk (img s)) \<or> outside (lg s) (dsk (img t')) (blk s))"
proof -
  have "wpc end_op (\<lambda>_ _ _. True) (crash_ok s (blk s)) s e" by (rule ending_wpc[OF s]) simp_all
  then have ok: "crash_ok s (blk s) s'" using crash by (simp add: wpc_def)
  have g: "l_start (lg t) = l_start (lg s)" "l_dev (lg t) = l_dev (lg s)" "img t = img s'"
    using t(1) by (simp_all add: rebooted_def)
  note dl = disk_log_cong[OF g(1,2)]
  obtain m where m: "log_ok (disk_log (lg t) (dsk (img t))) m" using ok unfolding crash_ok_def g(3) dl by blast
  have "m \<le> LOGBLOCKS" using log_okD(4)[OF m] .
  then have len: "\<not> length e2 < 3 * m + 3" using t(3) by simp
  have r: "bc_ready j {} {} t" "con_ok t" using t(1) by (simp_all add: rebooted_def)
  have "wp recover_from_log (\<lambda>_ t' _. outside (lg t) (dsk (img t')) (recovered (lg t) (dsk (img t)))) t e2"
    by (rule recover_wpc[OF r(1) m r(2) t(2)]) (use len in simp_all)
  then obtain t' e3 where t': "recover_from_log t e2 = Ret () t' e3" "outside (lg s) (dsk (img t')) (recovered (lg s) (dsk (img s')))"
    unfolding wp_iff dl g(3) by auto
  then show ?thesis using ok unfolding crash_ok_def by (blast intro: outside_trans)
qed


section \<open>Absorption\<close>

text \<open>
  C20: within an operation \<open>log_write\<close> records each block once: a block the log already has stays as
  it is, a new one is appended and its buffer is kept in the cache.
\<close>

theorem log_write_absorbs:
  fixes s :: "'z logst_scheme"
  assumes "bc_ready i H P s" "log_ok (lg s) n" "pinned (lg s) {..<n} P s" "b \<in> H" "lock_free L_log s" "n < LOGBLOCKS"
    "1 \<le> l_outstanding (lg s)" "\<not> in_log (lg s) (blockno (bufs s b))"
  shows "\<exists>s'. log_write b s e = Ret () s' e \<and> bc_ready i H (insert b P) s' \<and>
    map (\<lambda>j. log_home j (lg s')) [0..<nat (lh_n (l_lh (lg s')))] =
      (let ks = map (\<lambda>j. log_home j (lg s)) [0..<n] in
       if blockno (bufs s b) \<in> set ks then ks else ks @ [blockno (bufs s b)]) \<and>
    (\<forall>k. on_disk k \<longrightarrow> blk s' k = blk s k) \<and> img s' = img s"
proof -
  let ?k = "blockno (bufs s b)" and ?ks = "map (\<lambda>j. log_home j (lg s)) [0..<n]"
  note G = log_okD[OF assms(2)]
  have bP: "b \<in> P \<longleftrightarrow> ?k \<in> set ?ks"
  proof
    assume "b \<in> P"
    then show "?k \<in> set ?ks" using assms(3) unfolding pinned_def by (auto simp: atLeast0LessThan)
  next
    assume "?k \<in> set ?ks"
    then show "b \<in> P" using pinned_buffer[OF assms(1,3)] assms(4) by auto
  qed
  have "wp (log_write b) (\<lambda>_ s' e'. e' = e \<and> bc_ready i H (insert b P) s' \<and>
    map (\<lambda>j. log_home j (lg s')) [0..<nat (lh_n (l_lh (lg s')))] = (if ?k \<in> set ?ks then ?ks else ?ks @ [?k]) \<and>
    (\<forall>k. on_disk k \<longrightarrow> blk s' k = blk s k) \<and> img s' = img s) s e"
  proof (rule log_write_wpc[OF assms])
    fix s' :: "'z logst_scheme" and P' m
    assume a: "bc_ready i H P' s'" "P' = insert b P" "lg s' = (if b \<in> P then lg s else add_entry ?k (lg s))"
      "same_view s s'" "img s' = img s"
    have "map (\<lambda>j. log_home j (add_entry ?k (lg s))) [0..<Suc n] = ?ks @ [?k]"
      using G(3) by (simp add: add_entry_def log_home_def)
    moreover have "lh_n (l_lh (add_entry ?k (lg s))) = int (Suc n)" using G(3) by (simp add: add_entry_def)
    ultimately have "map (\<lambda>j. log_home j (lg s')) [0..<nat (lh_n (l_lh (lg s')))] = (if ?k \<in> set ?ks then ?ks else ?ks @ [?k])"
      using a(3) bP G(3) by (cases "b \<in> P") (simp_all only: nat_int if_True if_False)
    then show "e = e \<and> bc_ready i H (insert b P) s' \<and>
      map (\<lambda>j. log_home j (lg s')) [0..<nat (lh_n (l_lh (lg s')))] = (if ?k \<in> set ?ks then ?ks else ?ks @ [?k]) \<and>
      (\<forall>k. on_disk k \<longrightarrow> blk s' k = blk s k) \<and> img s' = img s"
      using a(1,2,4,5) by (simp add: same_view_def)
  qed
  then show ?thesis unfolding wp_iff Let_def by auto
qed

section \<open>Space in the log\<close>

text \<open>
  The operations in progress, with the number of blocks each has added to the log so far.  An
  operation may add up to \<open>MAXOPBLOCKS\<close>.
\<close>

inductive log_reach :: "log \<Rightarrow> (nat \<rightharpoonup> nat) \<Rightarrow> bool" where
  idle: "lh_n (l_lh g) = 0 \<Longrightarrow> l_outstanding g = 0 \<Longrightarrow> l_committing g = 0 \<Longrightarrow> log_reach g Map.empty"
| op_begin: "log_reach g A \<Longrightarrow> may_begin g \<Longrightarrow> A i = None \<Longrightarrow> log_reach (op_begun g) (A(i \<mapsto> 0))"
| op_write: "log_reach g A \<Longrightarrow> A i = Some c \<Longrightarrow> c < MAXOPBLOCKS \<Longrightarrow> log_reach (add_entry k g) (A(i \<mapsto> Suc c))"
| op_finish: "log_reach g A \<Longrightarrow> A i = Some c \<Longrightarrow> log_reach (op_ended g) (A(i := None))"
| op_commit: "log_reach g A \<Longrightarrow> l_committing g \<noteq> 0 \<Longrightarrow> log_reach (commit_done g) A"

definition room_left :: "(nat \<rightharpoonup> nat) \<Rightarrow> int" where
  "room_left A = (\<Sum>i \<in> dom A. int MAXOPBLOCKS - int (the (A i)))"

definition log_inv :: "log \<Rightarrow> (nat \<rightharpoonup> nat) \<Rightarrow> bool" where
  "log_inv g A \<longleftrightarrow> finite (dom A) \<and> 0 \<le> lh_n (l_lh g) \<and> lh_n (l_lh g) + room_left A \<le> int LOGBLOCKS \<and>
     l_outstanding g = int (card (dom A)) \<and> (l_committing g \<noteq> 0 \<longrightarrow> A = Map.empty) \<and> (\<forall>i c. A i = Some c \<longrightarrow> c \<le> MAXOPBLOCKS)"

lemma room_left_remove:
  assumes "finite (dom A)" "A i = Some c"
  shows "room_left A = int MAXOPBLOCKS - int c + room_left (A(i := None))"
proof -
  have "i \<in> dom A" using assms(2) by auto
  have "(\<Sum>j \<in> dom A - {i}. int MAXOPBLOCKS - int (the (A j))) = room_left (A(i := None))"
    unfolding room_left_def by (intro sum.cong) auto
  then show ?thesis using sum.remove[OF assms(1) \<open>i \<in> dom A\<close>, of "\<lambda>j. int MAXOPBLOCKS - int (the (A j))"] assms(2)
    by (simp add: room_left_def)
qed

lemma room_left_upd:
  assumes "finite (dom A)"
  shows "room_left (A(i \<mapsto> c)) = int MAXOPBLOCKS - int c + room_left (A(i := None))"
  using room_left_remove[of "A(i \<mapsto> c)" i c] assms by simp

lemma room_left_nonneg:
  assumes "\<forall>i c. A i = Some c \<longrightarrow> c \<le> MAXOPBLOCKS"
  shows "0 \<le> room_left A"
  unfolding room_left_def using assms by (intro sum_nonneg) force

lemma room_left_le: "finite (dom A) \<Longrightarrow> room_left A \<le> int (card (dom A)) * int MAXOPBLOCKS"
  unfolding room_left_def using sum_bounded_above[of "dom A" "\<lambda>i. int MAXOPBLOCKS - int (the (A i))" "int MAXOPBLOCKS"] by simp

lemma log_reach_inv: "log_reach g A \<Longrightarrow> log_inv g A"
proof (induction rule: log_reach.induct)
  case (idle g)
  then show ?case by (simp add: log_inv_def room_left_def)
next
  case (op_begin g A i)
  then have I: "finite (dom A)" "l_outstanding g = int (card (dom A))" "A(i := None) = A" "i \<notin> dom A"
    by (auto simp: log_inv_def)
  have 1: "card (dom (A(i \<mapsto> 0))) = Suc (card (dom A))" "finite (dom (A(i \<mapsto> 0)))" using I by simp_all
  have 2: "room_left (A(i \<mapsto> 0)) = int MAXOPBLOCKS + room_left A" using room_left_upd[OF I(1), of i 0] I(3) by simp
  have "\<forall>j c. (A(i \<mapsto> 0)) j = Some c \<longrightarrow> c \<le> MAXOPBLOCKS" using op_begin by (auto simp: log_inv_def)
  then show ?case using op_begin I(2) 1 2 room_left_le[OF I(1)]
    unfolding log_inv_def op_begun_def may_begin_def by (simp del: fun_upd_apply dom_fun_upd)
next
  case (op_write g A i c k)
  then have I: "finite (dom A)" "insert i (dom A) = dom A" "A \<noteq> Map.empty" by (auto simp: log_inv_def)
  have "dom (A(i \<mapsto> Suc c)) = dom A" using I(2) by simp
  moreover have "\<forall>j c'. (A(i \<mapsto> Suc c)) j = Some c' \<longrightarrow> c' \<le> MAXOPBLOCKS" using op_write by (auto simp: log_inv_def)
  ultimately show ?case using op_write I room_left_upd[OF I(1), of i "Suc c"] room_left_remove[OF I(1) op_write(2)]
    unfolding log_inv_def add_entry_def by (simp del: fun_upd_apply dom_fun_upd)
next
  case (op_finish g A i c)
  note J = op_finish(3)[unfolded log_inv_def]
  have i: "i \<in> dom A" "A \<noteq> Map.empty" using op_finish(2) by auto
  then have g0: "l_committing g = 0" using J by blast
  have d: "dom (A(i := None)) = dom A - {i}" by auto
  have card: "card (dom A) = Suc (card (dom A - {i}))" using J i(1) by (metis card.remove)
  have "l_outstanding g = int (card (dom A - {i})) + 1" using J card by simp
  then have o: "l_outstanding (op_ended g) = int (card (dom A - {i}))" "l_committing (op_ended g) \<noteq> 0 \<longrightarrow> card (dom A - {i}) = 0"
    "lh_n (l_lh (op_ended g)) = lh_n (l_lh g)"
    by (simp_all add: op_ended_def)
  have "int c \<le> int MAXOPBLOCKS" using J op_finish(2) of_nat_mono by blast
  then have room: "lh_n (l_lh g) + room_left (A(i := None)) \<le> int LOGBLOCKS"
    using room_left_remove[of A i c] op_finish(2) J by linarith
  have "A(i := None) = Map.empty" if "card (dom A - {i}) = 0"
    using that J by (auto simp: fun_eq_iff)
  then show ?case unfolding log_inv_def d o using o(2) J room by auto
next
  case (op_commit g A)
  then show ?case by (auto simp: log_inv_def commit_done_def cleared_def room_left_def)
qed


section \<open>A full log\<close>

text \<open>
  C39: the log takes \<open>LOGBLOCKS\<close> blocks, which is as many as the cache has buffers.  When it is full,
  every buffer is kept, and the commit stops the kernel at its first read.
\<close>

theorem full_log_panics:
  fixes s :: "'z logst_scheme"
  assumes "bc_ready i {} P s" "log_ok (lg s) LOGBLOCKS" "pinned (lg s) {..<LOGBLOCKS} P s"
  shows "\<exists>s'. commit s e = Panic ''bget: no buffers'' s'"
proof -
  let ?B = "\<lambda>b. blockno (bufs s b)" and ?H = "\<lambda>j. log_home j (lg s)"
  note G = log_okD[OF assms(2)]
  have "inj_on ?B P" "inj_on ?H {..<LOGBLOCKS}" using held_inj[OF assms(1)] G(5) by (auto simp: inj_on_def)
  then have "card P = LOGBLOCKS" using assms(3) card_image[of ?B P] card_image[of ?H] by (simp add: pinned_def)
  then have P: "P = {..<NBUF}" using card_subset_eq[of "{..<NBUF}" P] bc_readyD(7)[OF assms(1)] by simp
  have "?B b \<noteq> log_slot 0 (lg s)" if "b < NBUF" for b
  proof -
    have "?B b \<in> ?H ` {..<LOGBLOCKS}" using assms(3) that P unfolding pinned_def by blast
    then show ?thesis using G(7) log_slots(4)[OF G(2), of 0 0] by auto
  qed
  then have nc: "\<forall>b < NBUF. ?B b \<noteq> log_slot 0 (lg s)" by blast
  obtain s' where "bread 1 (log_slot 0 (lg s)) s e = Panic ''bget: no buffers'' s'"
    using bread_full[OF assms(1) _ nc, of e] P by auto
  then have "log_bread (log_slot 0) s e = Panic ''bget: no buffers'' s'" using G(1) by (simp add: log_bread_def bnd_def)
  then have "log_round write_one 0 s e = Panic ''bget: no buffers'' s'"
    using G(3) by (simp add: log_round_def write_one_def bnd_def thn_def)
  then have "write_log s e = Panic ''bget: no buffers'' s'"
    unfolding write_log_def log_loop_def loop_fuel.simps by (simp add: bnd_def)
  then show ?thesis using G(3) by (simp add: commit_def bnd_def thn_def)
qed

section \<open>Examples\<close>

text \<open>Process 2 runs, on a machine at rest with a given cache, disk and log.\<close>

definition log_machine :: "(nat \<Rightarrow> buf) \<Rightarrow> (nat \<Rightarrow> byte) \<Rightarrow> log \<Rightarrow> logst" where
  "log_machine B m g = \<lparr>hart = 0, csr = (\<lambda>_. zero_csrs),
     cpus = (\<lambda>_. \<lparr>cproc = Some 2, noff = 0, intena = False\<rparr>),
     locks = (\<lambda>_. \<lparr>locked = False, lname = [], lcpu = None\<rparr>),
     thr = [], panicking = False, panicked = False, mem = (\<lambda>_. 0), freelist = 0, kend = KERNBASE,
     procs = (\<lambda>_. zero_proc), initproc = None, nextpid = 1, ticks = 0,
     tframes = (\<lambda>_. zero_trapframe), syms = (\<lambda>_. 0),
     slocks = (\<lambda>_. \<lparr>slocked = False, slname = [], slpid = 0\<rparr>), uart = zero_uartdev,
     cons = \<lparr>cons_buf = (\<lambda>_. 0), cons_r = 0, cons_w = 0, cons_e = 0\<rparr>, devsw = (\<lambda>_. (None, None)),
     pipes = (\<lambda>_. zero_pipe), bufs = B, vd = zero_vdisk, img = m, lg = g\<rparr>"

definition log_of :: "int \<Rightarrow> int \<Rightarrow> (nat \<Rightarrow> u32) \<Rightarrow> log" where
  "log_of out n bs = \<lparr>l_start = 2, l_outstanding = out, l_committing = 0, l_dev = 1, l_lh = \<lparr>lh_n = n, lh_block = bs\<rparr>\<rparr>"

lemma log_machine_simps [simp]:
  "bufs (log_machine B m g) = B" "img (log_machine B m g) = m" "lg (log_machine B m g) = g"
  "running 2 (log_machine B m g)" "lock_free L (log_machine B m g)" "vd_ready 2 (log_machine B m g)"
  "con_ok (log_machine B m g)" "slocked (slocks (log_machine B m g) x) = False" "pid (procs (log_machine B m g) i) = 0"
  by (simp_all add: log_machine_def running_def plocks_free_def base_defs vd_rest_def zero_vdisk_def vd_ready_def con_ok_def zero_proc_def)

text \<open>A cache that keeps the buffers \<open>P\<close>, for the blocks 100 and on.\<close>

definition kept_bufs :: "nat set \<Rightarrow> nat \<Rightarrow> buf" where
  "kept_bufs P = booted (\<lambda>b. if b \<in> P then zero_buf\<lparr>bvalid := 1, bdev := 1, blockno := of_nat (100 + b), refcnt := 1,
     bdata := replicate BSIZE 1\<rparr> else zero_buf)"

lemma kept_bufs_ready:
  assumes P: "P \<subseteq> {..<NBUF}"
  shows "bc_ready 2 {} P (log_machine (kept_bufs P) m g)"
proof (rule bc_readyI)
  have inj: "b = c" if "(of_nat (100 + b) :: u32) = of_nat (100 + c)" "b < NBUF" "c < NBUF" for b c
    using arg_cong[OF that(1), of unat] that(2,3) by (simp add: unat_of_nat del: of_nat_add)
  have on: "on_disk (of_nat (100 + b))" if "b < NBUF" for b
    using that by (simp add: on_disk_def unat_of_nat del: of_nat_add)
  have b0: "lru (kept_bufs P) (rev [0..<NBUF])" unfolding kept_bufs_def by (rule booted_lru)
  have f: "bvalid (kept_bufs P b) = (if b \<in> P then 1 else 0)" "bdev (kept_bufs P b) = (if b \<in> P then 1 else 0)"
    "blockno (kept_bufs P b) = (if b \<in> P then of_nat (100 + b) else 0)" "refcnt (kept_bufs P b) = (if b \<in> P then 1 else 0)"
    "length (bdata (kept_bufs P b)) = BSIZE" for b
    by (simp_all add: kept_bufs_def zero_buf_def)
  show "bc_wf (bufs (log_machine (kept_bufs P) m g)) (img (log_machine (kept_bufs P) m g))"
    unfolding bc_wf_def log_machine_simps f
  proof (intro conjI allI impI)
    show "\<exists>xs. lru (kept_bufs P) xs \<and> set xs = {..<NBUF}"
      using b0 by (intro exI[of _ "rev [0..<NBUF]"]) (simp add: atLeast0LessThan del: upt_rec_numeral)
  qed (use inj on in \<open>auto split: if_splits\<close>)
  show "refcnt (bufs (log_machine (kept_bufs P) m g) b) = (if b \<in> {} then 1 else 0) + (if b \<in> P then 1 else 0)" for b
    by (simp add: f)
  show "bvalid (bufs (log_machine (kept_bufs P) m g) b) \<noteq> 0" if "b \<in> {} \<union> P" for b
    using that by (simp add: f)
qed (use P in auto)

lemma log_of_ok:
  assumes "n \<le> LOGBLOCKS" "\<And>j. j < n \<Longrightarrow> bs j = of_nat (100 + j)"
  shows "log_ok (log_of out (int n) bs) n"
proof -
  have u: "unat (of_nat (100 + j) :: u32) = 100 + j" if "j < n" for j
    using that assms(1) by (simp add: unat_of_nat del: of_nat_add)
  have "inj_on bs {..<n}" using u assms(2) by (auto simp: inj_on_def) (metis add_left_cancel)
  moreover have "\<not> in_log (log_of out (int n) bs) (bs j)" if j: "j < n" for j
  proof
    assume "in_log (log_of out (int n) bs) (bs j)"
    then obtain k where k: "k \<le> LOGBLOCKS" "(of_nat (100 + j) :: u32) = 2 + of_nat k"
      using assms(2)[OF j] by (auto simp: in_log_def log_of_def)
    then have "unat (of_nat (100 + j) :: u32) = 2 + k" unfolding k(2) using log_offset[of 2 k] by simp
    then show False using u[OF j] k(1) by simp
  qed
  moreover have "on_disk (bs j)" if "j < n" for j
    using u[OF that] assms(1,2) that by (simp add: on_disk_def)
  ultimately show ?thesis using assms(1) by (simp add: log_ok_def log_of_def log_home_def)
qed

definition hundred :: "nat \<Rightarrow> u32" where
  "hundred j = of_nat (100 + j)"

lemma kept_pinned: "pinned (log_of out n hundred) P P (log_machine (kept_bufs P) m g)"
  by (auto simp: pinned_def log_of_def log_home_def hundred_def kept_bufs_def zero_buf_def intro!: image_cong)

definition end_example :: logst where
  "end_example = log_machine (kept_bufs {..<1}) (\<lambda>_. 0) (log_of 1 1 hundred)"

lemma get_zero: "get32 0 (dsk (\<lambda>_. 0) 2) = 0"
  by (simp add: dsk_def on_disk_def disk_block_def get32_def)

lemma end_example_ending: "ending 2 {..<1} 1 end_example"
  using kept_bufs_ready[of "{..<1}" "\<lambda>_. 0" "log_of 1 1 hundred"] log_of_ok[of 1 hundred 1]
    kept_pinned[of 1 1 "{..<1}" "\<lambda>_. 0" "log_of 1 1 hundred"] get_zero
  by (simp add: ending_def end_example_def) (simp add: hundred_def log_of_def)

lemma disk_steps: "disk_envs i (replicate n (disk_step i))"
  by (simp add: disk_envs_def disk_step_env)

theorem commit_survives_crash_witness:
  "\<exists>s' t' e3. end_op end_example [] = Off s' \<and>
    recover_from_log (log_machine (kept_bufs {}) (img s') (log_of 0 0 (\<lambda>_. 0))) (replicate 93 (disk_step 2)) = Ret () t' e3 \<and>
    (outside (lg end_example) (dsk (img t')) (dsk (img end_example)) \<or> outside (lg end_example) (dsk (img t')) (blk end_example))"
proof -
  have e: "disk_envs 2 ([] :: logst env)" by simp
  have "wpc end_op (\<lambda>_ _ _. False) (\<lambda>_. True) end_example []"
    by (rule ending_wpc[OF end_example_ending _ e]) auto
  then obtain s' where s': "end_op end_example [] = Off s'" by (auto simp: wpc_def split: outcome.splits)
  have "rebooted end_example (img s') (log_machine (kept_bufs {}) (img s') (log_of 0 0 (\<lambda>_. 0))) 2"
    using kept_bufs_ready[of "{}"] by (simp add: rebooted_def end_example_def log_of_def)
  from commit_survives_crash[OF end_example_ending _ e s' this disk_steps[of 2 93]] s' show ?thesis by auto
qed


text \<open>Process 2 holds buffer 7, with block 107, in an operation.\<close>

definition write_example :: logst where
  "write_example = (log_machine (kept_bufs {7}) (\<lambda>_. 0) (log_of 1 0 hundred))\<lparr>slocks :=
     (\<lambda>_. \<lparr>slocked = False, slname = [], slpid = 0\<rparr>)(SL_buf 7 := \<lparr>slocked = True, slname = [], slpid = 0\<rparr>)\<rparr>"

lemma write_example_ready: "bc_ready 2 {7} {} write_example"
proof (rule bc_readyI)
  have r: "bc_ready 2 {} {7} (log_machine (kept_bufs {7}) (\<lambda>_. 0) (log_of 1 0 hundred))" by (rule kept_bufs_ready) simp
  show "bc_wf (bufs write_example) (img write_example)" using bc_readyD(5)[OF r] by (simp add: write_example_def)
qed (simp_all add: write_example_def kept_bufs_def zero_buf_def vd_ready_def, simp_all add: log_machine_def zero_vdisk_def vd_rest_def running_def plocks_free_def base_defs zero_proc_def)

theorem log_write_absorbs_witness:
  "\<exists>s'. log_write 7 write_example [] = Ret () s' [] \<and>
    map (\<lambda>j. log_home j (lg s')) [0..<nat (lh_n (l_lh (lg s')))] = [107]"
proof -
  have g: "lg write_example = log_of 1 (int 0) hundred" "blockno (bufs write_example 7) = 107"
    by (simp_all add: write_example_def kept_bufs_def)
  have ok: "log_ok (lg write_example) 0" unfolding g using log_of_ok[of 0 hundred 1] by simp
  have p: "pinned (lg write_example) {..<0} {} write_example" by (simp add: pinned_def)
  have "log_ok (log_of 1 (int 8) hundred) 8" by (rule log_of_ok) (simp_all add: hundred_def)
  from log_okD(7)[OF this, of 7] have i: "\<not> in_log (lg write_example) (blockno (bufs write_example 7))"
    unfolding g by (simp add: in_log_def log_of_def log_home_def hundred_def)
  have l: "lock_free L_log write_example" by (simp add: write_example_def)
  show ?thesis
    using log_write_absorbs[OF write_example_ready ok p _ l _ _ i, of "[]"] g by (auto simp: log_of_def)
qed


theorem full_log_panics_witness:
  "\<exists>s'. commit (log_machine (kept_bufs {..<NBUF}) (\<lambda>_. 0) (log_of 1 30 hundred)) [] = Panic ''bget: no buffers'' s'"
proof (rule full_log_panics[OF kept_bufs_ready])
  show "log_ok (lg (log_machine (kept_bufs {..<NBUF}) (\<lambda>_. 0) (log_of 1 30 hundred))) LOGBLOCKS"
    using log_of_ok[of LOGBLOCKS hundred 1] by (simp add: hundred_def)
  show "pinned (lg (log_machine (kept_bufs {..<NBUF}) (\<lambda>_. 0) (log_of 1 30 hundred))) {..<LOGBLOCKS} {..<NBUF}
      (log_machine (kept_bufs {..<NBUF}) (\<lambda>_. 0) (log_of 1 30 hundred))"
    unfolding log_machine_simps by (rule kept_pinned)
qed simp

end
