(* ===== verification/Fs.thy ===== *)
theory Fs
  imports Log
begin

text \<open>
  kernel/fs.c and kernel/fs.h: block allocation, inodes in memory and on the disk, the contents of
  files, directories and path names.
\<close>

section \<open>State\<close>

abbreviation ROOTINO :: u32 where "ROOTINO \<equiv> 1"
abbreviation FSMAGIC :: u32 where "FSMAGIC \<equiv> 0x10203040"
abbreviation NDIRECT :: nat where "NDIRECT \<equiv> 12"
abbreviation NINDIRECT :: nat where "NINDIRECT \<equiv> 256"
abbreviation MAXFILE :: nat where "MAXFILE \<equiv> 268"
abbreviation IPB :: nat where "IPB \<equiv> 16"
abbreviation BPB :: nat where "BPB \<equiv> 8192"
abbreviation DIRSIZ :: nat where "DIRSIZ \<equiv> 14"
abbreviation DIRENT :: nat where "DIRENT \<equiv> 16"

abbreviation T_DIR :: u16 where "T_DIR \<equiv> 1"
abbreviation T_FILE :: u16 where "T_FILE \<equiv> 2"
abbreviation T_DEVICE :: u16 where "T_DEVICE \<equiv> 3"

text \<open>
  The in-memory inode.  Its lock is the sleep lock \<open>SL_inode\<close> of its index in the table; a
  pointer to an inode is that index.  A \<open>short\<close> is kept as its 16 bits.
\<close>

record inode =
  i_dev :: u32
  i_inum :: u32
  i_ref :: int
  i_valid :: int
  i_type :: u16
  i_major :: u16
  i_minor :: u16
  i_nlink :: u16
  i_size :: u32
  i_addrs :: "nat \<Rightarrow> u32"

record fsst = logst +
  sb :: superblock
  itable :: "nat \<Rightarrow> inode"

lemma sb_frame [simp, frame_simps]:
  "cpuid (sb_update g s) = cpuid s" "mycpu (sb_update g s) = mycpu s"
  "intr_get (sb_update g s) = intr_get s" "is_holding L (sb_update g s) = is_holding L s"
  "lock_free L (sb_update g s) = lock_free L s" "cpu_wf (sb_update g s) = cpu_wf s"
  "plocks_free (sb_update g s) = plocks_free s"
  "other_plocks_free (sb_update g s) = other_plocks_free s"
  "kmem_ready (sb_update g s) = kmem_ready s"
  "touch (sb_update g s) = sb_update g (touch s)"
  "acq L (sb_update g s) = sb_update g (acq L s)" "rel L (sb_update g s) = sb_update g (rel L s)"
  "intr_on (sb_update g s) = sb_update g (intr_on s)"
  "intr_off (sb_update g s) = sb_update g (intr_off s)"
  "set_mycpu k (sb_update g s) = sb_update g (set_mycpu k s)"
  "wakeup_st ch (sb_update g s) = sb_update g (wakeup_st ch s)"
  "kalloc_st (sb_update g s) = sb_update g (kalloc_st s)"
  "kfree_st pa (sb_update g s) = sb_update g (kfree_st pa s)"
  by (simp_all add: base_defs intr_get_def r_sstatus_def intr_on_def intr_off_def w_sstatus_def
      wakeup_st_def kalloc_st_def kfree_st_def plocks_free_def other_plocks_free_def kmem_ready_def)

lemma sb_kept [simp, frame_simps]:
  "sb (touch s) = sb s" "sb (acq L s) = sb s" "sb (rel L s) = sb s" "sb (intr_on s) = sb s"
  "sb (intr_off s) = sb s" "sb (set_mycpu k s) = sb s" "sb (wakeup_st ch s) = sb s"
  "sb (kalloc_st s) = sb s" "sb (kfree_st pa s) = sb s"
  by (simp_all add: base_defs intr_on_def intr_off_def w_sstatus_def wakeup_st_def kalloc_st_def
      kfree_st_def)

lemma sb_slept [simp]: "sb (sleep_st ch lk i s) = sb s" "sb (woke_st lk i ia s) = sb s"
  by (simp_all add: sleep_st_def woke_st_def)

lemma sb_calm [simp]:
  "running i (sb_update g s) = running i s" "under lk i (sb_update g s) = under lk i s"
  "calm (sb_update g s) t = calm s t" "calm s (sb_update g t) = calm s t"
  by (simp_all add: running_def under_def sleep_call_def calm_def)

lemma itable_frame [simp, frame_simps]:
  "cpuid (itable_update g s) = cpuid s" "mycpu (itable_update g s) = mycpu s"
  "intr_get (itable_update g s) = intr_get s" "is_holding L (itable_update g s) = is_holding L s"
  "lock_free L (itable_update g s) = lock_free L s" "cpu_wf (itable_update g s) = cpu_wf s"
  "plocks_free (itable_update g s) = plocks_free s"
  "other_plocks_free (itable_update g s) = other_plocks_free s"
  "kmem_ready (itable_update g s) = kmem_ready s"
  "touch (itable_update g s) = itable_update g (touch s)"
  "acq L (itable_update g s) = itable_update g (acq L s)" "rel L (itable_update g s) = itable_update g (rel L s)"
  "intr_on (itable_update g s) = itable_update g (intr_on s)"
  "intr_off (itable_update g s) = itable_update g (intr_off s)"
  "set_mycpu k (itable_update g s) = itable_update g (set_mycpu k s)"
  "wakeup_st ch (itable_update g s) = itable_update g (wakeup_st ch s)"
  "kalloc_st (itable_update g s) = itable_update g (kalloc_st s)"
  "kfree_st pa (itable_update g s) = itable_update g (kfree_st pa s)"
  by (simp_all add: base_defs intr_get_def r_sstatus_def intr_on_def intr_off_def w_sstatus_def
      wakeup_st_def kalloc_st_def kfree_st_def plocks_free_def other_plocks_free_def kmem_ready_def)

lemma itable_kept [simp, frame_simps]:
  "itable (touch s) = itable s" "itable (acq L s) = itable s" "itable (rel L s) = itable s" "itable (intr_on s) = itable s"
  "itable (intr_off s) = itable s" "itable (set_mycpu k s) = itable s" "itable (wakeup_st ch s) = itable s"
  "itable (kalloc_st s) = itable s" "itable (kfree_st pa s) = itable s"
  by (simp_all add: base_defs intr_on_def intr_off_def w_sstatus_def wakeup_st_def kalloc_st_def
      kfree_st_def)

lemma itable_slept [simp]: "itable (sleep_st ch lk i s) = itable s" "itable (woke_st lk i ia s) = itable s"
  by (simp_all add: sleep_st_def woke_st_def)

lemma itable_calm [simp]:
  "running i (itable_update g s) = running i s" "under lk i (itable_update g s) = under lk i s"
  "calm (itable_update g s) t = calm s t" "calm s (itable_update g t) = calm s t"
  by (simp_all add: running_def under_def sleep_call_def calm_def)

definition upd_inode :: "nat \<Rightarrow> (inode \<Rightarrow> inode) \<Rightarrow> ('z fsst_scheme, unit) kop" where
  "upd_inode ip f = upd (\<lambda>s. s\<lparr>itable := (itable s)(ip := f (itable s ip))\<rparr>)"

lemma upd_inode_app [kop_simps, simp]:
  "upd_inode ip f s e = Ret () (s\<lparr>itable := (itable s)(ip := f (itable s ip))\<rparr>) e"
  by (simp add: upd_inode_def)

section \<open>Layout of the disk\<close>

definition IBLOCK :: "u32 \<Rightarrow> superblock \<Rightarrow> u32" where
  "IBLOCK i S = i div 16 + sb_inodestart S"

definition BBLOCK :: "u32 \<Rightarrow> superblock \<Rightarrow> u32" where
  "BBLOCK b S = b div 8192 + sb_bmapstart S"

text \<open>Bytes \<open>bs\<close> stored into \<open>d\<close> from position \<open>k\<close> on.\<close>

definition blit :: "nat \<Rightarrow> byte list \<Rightarrow> byte list \<Rightarrow> byte list" where
  "blit k bs d = take k d @ bs @ drop (k + length bs) d"

definition get_superblock :: "byte list \<Rightarrow> superblock" where
  "get_superblock d = \<lparr>sb_magic = get32 0 d, sb_size = get32 4 d, sb_nblocks = get32 8 d,
     sb_ninodes = get32 12 d, sb_nlog = get32 16 d, sb_logstart = get32 20 d,
     sb_inodestart = get32 24 d, sb_bmapstart = get32 28 d\<rparr>"

text \<open>An inode on the disk takes 64 bytes, from byte \<open>k\<close> of its block.\<close>

definition dinode_at :: "u32 \<Rightarrow> nat" where
  "dinode_at inum = 64 * unat (inum mod 16)"

definition put_dinode :: "nat \<Rightarrow> inode \<Rightarrow> byte list \<Rightarrow> byte list" where
  "put_dinode k ip d =
     cell32.put_arr (k + 12) (i_addrs ip) [0..<NDIRECT + 1] (put32 (k + 8) (i_size ip)
       (put16 (k + 6) (i_nlink ip) (put16 (k + 4) (i_minor ip) (put16 (k + 2) (i_major ip)
          (put16 k (i_type ip) d)))))"

definition get_dinode :: "nat \<Rightarrow> byte list \<Rightarrow> inode \<Rightarrow> inode" where
  "get_dinode k d ip = ip\<lparr>i_type := get16 k d, i_major := get16 (k + 2) d, i_minor := get16 (k + 4) d,
     i_nlink := get16 (k + 6) d, i_size := get32 (k + 8) d,
     i_addrs := (\<lambda>i. if i < NDIRECT + 1 then cell32.arr (k + 12) i d else i_addrs ip i)\<rparr>"

text \<open>A counter of type \<open>int\<close> that goes past its largest value is undefined.\<close>

definition in_int :: "nat \<Rightarrow> ('s, 'a) kop \<Rightarrow> ('s, 'a) kop" where
  "in_int k m = (if k < 2 ^ 31 then m else undefined_behaviour)"

section \<open>Super block and blocks\<close>

definition readsb :: "u32 \<Rightarrow> ('z fsst_scheme, unit) kop" where
  "readsb dev =
     bnd (bread dev 1) (\<lambda>bp.
     bnd (rd (\<lambda>s. bdata (bufs s bp))) (\<lambda>d.
     thn (upd (\<lambda>s. s\<lparr>sb := get_superblock d\<rparr>))
     (brelse bp)))"

definition fs_bzero :: "u32 \<Rightarrow> u32 \<Rightarrow> ('z logst_scheme, unit) kop" where
  "fs_bzero dev bno =
     bnd (bread dev bno) (\<lambda>bp.
     thn (upd_data bp (\<lambda>d. replicate BSIZE 0)) (
     thn (log_write bp)
     (brelse bp)))"

text \<open>
  The super block does not change once it has been read, so a loop over its counts takes the bound
  at the start.
\<close>

definition bit_mask :: "nat \<Rightarrow> byte" where
  "bit_mask bi = push_bit (bi mod 8) 1"

definition balloc_block :: "u32 \<Rightarrow> superblock \<Rightarrow> nat \<Rightarrow> ('z fsst_scheme, u32 option) kop" where
  "balloc_block dev S b =
     bnd (bread dev (BBLOCK (of_nat b) S)) (\<lambda>bp.
     bnd (rd (\<lambda>s. bdata (bufs s bp))) (\<lambda>d.
     case find_index (\<lambda>bi. d ! (bi div 8) AND bit_mask bi = 0) [0..<min BPB (unat (sb_size S) - b)] of
       Some bi \<Rightarrow>
         thn (upd_data bp (\<lambda>d. d[bi div 8 := d ! (bi div 8) OR bit_mask bi])) (
         thn (log_write bp) (
         thn (brelse bp) (
         thn (fs_bzero dev (of_nat (b + bi)))
         (ret (Some (of_nat (b + bi)))))))
     | None \<Rightarrow> thn (brelse bp) (ret None)))"

definition balloc :: "u32 \<Rightarrow> ('z fsst_scheme, u32) kop" where
  "balloc dev =
     bnd (rd sb) (\<lambda>S.
     bnd (for_until (map (\<lambda>k. k * BPB) [0..<(unat (sb_size S) + BPB - 1) div BPB])
       (\<lambda>b. in_int b (balloc_block dev S b))) (\<lambda>r. case r of
       Some a \<Rightarrow> ret a
     | None \<Rightarrow> thn (printf (''balloc: out of blocks'' @ [CHR 0x0A]) []) (ret 0)))"

definition bfree :: "u32 \<Rightarrow> u32 \<Rightarrow> ('z fsst_scheme, unit) kop" where
  "bfree dev b =
     bnd (rd sb) (\<lambda>S.
     bnd (bread dev (BBLOCK b S)) (\<lambda>bp.
     let bi = unat (b mod 8192) in
     bnd (rd (\<lambda>s. bdata (bufs s bp))) (\<lambda>d.
     if d ! (bi div 8) AND bit_mask bi = 0 then panic ''freeing free block'' else
     thn (upd_data bp (\<lambda>d. d[bi div 8 := d ! (bi div 8) AND NOT (bit_mask bi)])) (
     thn (log_write bp)
     (brelse bp)))))"

section \<open>Inodes\<close>

definition iinit :: "('z fsst_scheme, unit) kop" where
  "iinit =
     thn (initlock L_itable ''itable'') (
     foreach [0..<NINODE] (\<lambda>i. initsleeplock (SL_inode i) ''inode''))"

definition iget :: "u32 \<Rightarrow> u32 \<Rightarrow> ('z fsst_scheme, nat) kop" where
  "iget dev inum =
     thn (acquire L_itable) (
     bnd (rd itable) (\<lambda>T.
     case find_index (\<lambda>i. i_ref (T i) > 0 \<and> i_dev (T i) = dev \<and> i_inum (T i) = inum) [0..<NINODE] of
       Some ip \<Rightarrow>
         thn (upd_inode ip (\<lambda>p. p\<lparr>i_ref := i_ref p + 1\<rparr>)) (
         thn (release L_itable)
         (ret ip))
     | None \<Rightarrow>
         (case find_index (\<lambda>i. i_ref (T i) = 0) [0..<NINODE] of
            None \<Rightarrow> panic ''iget: no inodes''
          | Some ip \<Rightarrow>
              thn (upd_inode ip (\<lambda>p. p\<lparr>i_dev := dev, i_inum := inum, i_ref := 1, i_valid := 0\<rparr>)) (
              thn (release L_itable)
              (ret ip)))))"

definition idup :: "nat \<Rightarrow> ('z fsst_scheme, nat) kop" where
  "idup ip =
     thn (acquire L_itable) (
     thn (upd_inode ip (\<lambda>p. p\<lparr>i_ref := i_ref p + 1\<rparr>)) (
     thn (release L_itable)
     (ret ip)))"

definition ialloc_one :: "u32 \<Rightarrow> u16 \<Rightarrow> superblock \<Rightarrow> nat \<Rightarrow> ('z fsst_scheme, nat option) kop" where
  "ialloc_one dev ty S inum =
     (let n = of_nat inum; k = dinode_at n in
      bnd (bread dev (IBLOCK n S)) (\<lambda>bp.
      bnd (rd (\<lambda>s. bdata (bufs s bp))) (\<lambda>d.
      if get16 k d = 0 then
        thn (upd_data bp (blit k (replicate 64 0))) (
        thn (upd_data bp (put16 k ty)) (
        thn (log_write bp) (
        thn (brelse bp)
        (bnd (iget dev n) (\<lambda>ip. ret (Some ip))))))
      else thn (brelse bp) (ret None))))"

definition ialloc :: "u32 \<Rightarrow> u16 \<Rightarrow> ('z fsst_scheme, nat option) kop" where
  "ialloc dev ty =
     bnd (rd sb) (\<lambda>S.
     bnd (for_until [1..<unat (sb_ninodes S)] (\<lambda>inum. in_int inum (ialloc_one dev ty S inum))) (\<lambda>r.
     case r of
       Some ip \<Rightarrow> ret (Some ip)
     | None \<Rightarrow> thn (printf (''ialloc: no inodes'' @ [CHR 0x0A]) []) (ret None)))"

definition iupdate :: "nat \<Rightarrow> ('z fsst_scheme, unit) kop" where
  "iupdate ip =
     bnd (rd sb) (\<lambda>S.
     bnd (rd (\<lambda>s. itable s ip)) (\<lambda>p.
     bnd (bread (i_dev p) (IBLOCK (i_inum p) S)) (\<lambda>bp.
     bnd (rd (\<lambda>s. itable s ip)) (\<lambda>p.
     thn (upd_data bp (put_dinode (dinode_at (i_inum p)) p)) (
     thn (log_write bp)
     (brelse bp))))))"

definition ilock :: "nat option \<Rightarrow> ('z fsst_scheme, unit) kop" where
  "ilock ipo =
     (case ipo of None \<Rightarrow> panic ''ilock'' | Some ip \<Rightarrow>
      bnd (rd (\<lambda>s. i_ref (itable s ip))) (\<lambda>r.
      if r < 1 then panic ''ilock'' else
      thn (acquiresleep (SL_inode ip)) (
      bnd (rd sb) (\<lambda>S.
      bnd (rd (\<lambda>s. itable s ip)) (\<lambda>p.
      if i_valid p = 0 then
        bnd (bread (i_dev p) (IBLOCK (i_inum p) S)) (\<lambda>bp.
        bnd (rd (\<lambda>s. bdata (bufs s bp))) (\<lambda>d.
        thn (upd_inode ip (\<lambda>p. get_dinode (dinode_at (i_inum p)) d p)) (
        thn (brelse bp) (
        thn (upd_inode ip (\<lambda>p. p\<lparr>i_valid := 1\<rparr>)) (
        bnd (rd (\<lambda>s. i_type (itable s ip))) (\<lambda>ty.
        if ty = 0 then panic ''ilock: no type'' else ret ()))))))
      else ret ())))))"

definition iunlock :: "nat option \<Rightarrow> ('z fsst_scheme, unit) kop" where
  "iunlock ipo =
     (case ipo of None \<Rightarrow> panic ''iunlock'' | Some ip \<Rightarrow>
      bnd (holdingsleep (SL_inode ip)) (\<lambda>h.
      bnd (rd (\<lambda>s. i_ref (itable s ip))) (\<lambda>r.
      if \<not> h \<or> r < 1 then panic ''iunlock'' else
      releasesleep (SL_inode ip))))"

text \<open>Freeing the content: the direct blocks, then the indirect ones, then the block that lists them.\<close>

definition itrunc_direct :: "nat \<Rightarrow> nat \<Rightarrow> ('z fsst_scheme, unit) kop" where
  "itrunc_direct ip i =
     bnd (rd (\<lambda>s. itable s ip)) (\<lambda>p.
     if i_addrs p i \<noteq> 0 then
       thn (bfree (i_dev p) (i_addrs p i))
       (upd_inode ip (\<lambda>p. p\<lparr>i_addrs := (i_addrs p)(i := 0)\<rparr>))
     else ret ())"

definition itrunc_indirect :: "nat \<Rightarrow> ('z fsst_scheme, unit) kop" where
  "itrunc_indirect ip =
     bnd (rd (\<lambda>s. itable s ip)) (\<lambda>p.
     bnd (bread (i_dev p) (i_addrs p NDIRECT)) (\<lambda>bp.
     thn (foreach [0..<NINDIRECT] (\<lambda>j.
       bnd (rd (\<lambda>s. get32 (4 * j) (bdata (bufs s bp)))) (\<lambda>a.
       if a \<noteq> 0 then bnd (rd (\<lambda>s. i_dev (itable s ip))) (\<lambda>dev. bfree dev a) else ret ()))) (
     thn (brelse bp) (
     bnd (rd (\<lambda>s. itable s ip)) (\<lambda>p.
     thn (bfree (i_dev p) (i_addrs p NDIRECT))
     (upd_inode ip (\<lambda>p. p\<lparr>i_addrs := (i_addrs p)(NDIRECT := 0)\<rparr>)))))))"

definition itrunc :: "nat \<Rightarrow> ('z fsst_scheme, unit) kop" where
  "itrunc ip =
     thn (foreach [0..<NDIRECT] (itrunc_direct ip)) (
     bnd (rd (\<lambda>s. i_addrs (itable s ip) NDIRECT)) (\<lambda>a.
     thn (if a \<noteq> 0 then itrunc_indirect ip else ret ()) (
     thn (upd_inode ip (\<lambda>p. p\<lparr>i_size := 0\<rparr>))
     (iupdate ip))))"

definition iput :: "nat \<Rightarrow> ('z fsst_scheme, unit) kop" where
  "iput ip =
     thn (acquire L_itable) (
     bnd (rd (\<lambda>s. itable s ip)) (\<lambda>p.
     thn (if i_ref p = 1 \<and> i_valid p \<noteq> 0 \<and> i_nlink p = 0 then
            thn (acquiresleep (SL_inode ip)) (
            thn (release L_itable) (
            thn (itrunc ip) (
            thn (upd_inode ip (\<lambda>p. p\<lparr>i_type := 0\<rparr>)) (
            thn (iupdate ip) (
            thn (upd_inode ip (\<lambda>p. p\<lparr>i_valid := 0\<rparr>)) (
            thn (releasesleep (SL_inode ip))
            (acquire L_itable)))))))
          else ret ()) (
     thn (upd_inode ip (\<lambda>p. p\<lparr>i_ref := i_ref p - 1\<rparr>))
     (release L_itable))))"

definition iunlockput :: "nat \<Rightarrow> ('z fsst_scheme, unit) kop" where
  "iunlockput ip = thn (iunlock (Some ip)) (iput ip)"

definition ireclaim_one :: "u32 \<Rightarrow> superblock \<Rightarrow> nat \<Rightarrow> ('z fsst_scheme, unit) kop" where
  "ireclaim_one dev S inum =
     (let n = of_nat inum; k = dinode_at n in
      bnd (bread dev (IBLOCK n S)) (\<lambda>bp.
      bnd (rd (\<lambda>s. bdata (bufs s bp))) (\<lambda>d.
      bnd (if get16 k d \<noteq> 0 \<and> get16 (k + 6) d = 0 then
             thn (printf (''ireclaim: orphaned inode %d'' @ [CHR 0x0A]) [VW (of_nat inum)]) (
             bnd (iget dev n) (\<lambda>ip. ret (Some ip)))
           else ret None) (\<lambda>r.
      thn (brelse bp) (
      case r of
        None \<Rightarrow> ret ()
      | Some ip \<Rightarrow>
          thn begin_op (
          thn (ilock (Some ip)) (
          thn (iunlock (Some ip)) (
          thn (iput ip)
          end_op))))))))"

definition ireclaim :: "u32 \<Rightarrow> ('z fsst_scheme, unit) kop" where
  "ireclaim dev =
     bnd (rd sb) (\<lambda>S.
     foreach [1..<unat (sb_ninodes S)] (\<lambda>inum. in_int inum (ireclaim_one dev S inum)))"

definition fsinit :: "u32 \<Rightarrow> ('z fsst_scheme, unit) kop" where
  "fsinit dev =
     thn (readsb dev) (
     bnd (rd sb) (\<lambda>S.
     if sb_magic S \<noteq> FSMAGIC then panic ''invalid file system'' else
     thn (initlog dev S)
     (ireclaim dev)))"

section \<open>Contents of files\<close>

definition bmap_direct :: "nat \<Rightarrow> nat \<Rightarrow> ('z fsst_scheme, u32) kop" where
  "bmap_direct ip k =
     bnd (rd (\<lambda>s. itable s ip)) (\<lambda>p.
     if i_addrs p k = 0 then
       bnd (balloc (i_dev p)) (\<lambda>a.
       if a = 0 then ret 0
       else thn (upd_inode ip (\<lambda>p. p\<lparr>i_addrs := (i_addrs p)(k := a)\<rparr>)) (ret a))
     else ret (i_addrs p k))"

definition bmap :: "nat \<Rightarrow> u32 \<Rightarrow> ('z fsst_scheme, u32) kop" where
  "bmap ip bn =
     (if unat bn < NDIRECT then bmap_direct ip (unat bn)
      else if unat bn - NDIRECT < NINDIRECT then
        bnd (bmap_direct ip NDIRECT) (\<lambda>addr.
        if addr = 0 then ret 0 else
        bnd (rd (\<lambda>s. i_dev (itable s ip))) (\<lambda>dev.
        bnd (bread dev addr) (\<lambda>bp.
        bnd (rd (\<lambda>s. get32 (4 * (unat bn - NDIRECT)) (bdata (bufs s bp)))) (\<lambda>a.
        bnd (if a = 0 then
               bnd (rd (\<lambda>s. i_dev (itable s ip))) (\<lambda>dev.
               bnd (balloc dev) (\<lambda>a'.
               if a' \<noteq> 0 then
                 thn (upd_data bp (put32 (4 * (unat bn - NDIRECT)) a')) (
                 thn (log_write bp)
                 (ret a'))
               else ret 0))
             else ret a) (\<lambda>r.
        thn (brelse bp)
        (ret r))))))
      else panic ''bmap: out of range'')"

record stat =
  st_dev :: u32
  st_ino :: u32
  st_type :: u16
  st_nlink :: u16
  st_size :: addr

definition stati :: "nat \<Rightarrow> ('z fsst_scheme, stat) kop" where
  "stati ip =
     bnd (rd (\<lambda>s. itable s ip)) (\<lambda>p.
     ret \<lparr>st_dev = i_dev p, st_ino = i_inum p, st_type = i_type p, st_nlink = i_nlink p,
       st_size = ucast (i_size p)\<rparr>)"

text \<open>
  The bytes a round covers.  The state of the reading loop is the count, the position and the
  destination; the bytes read so far are kept for a caller whose destination is a local variable.
\<close>

definition chunk :: "u32 \<Rightarrow> u32 \<Rightarrow> u32" where
  "chunk left off = (let r = 1024 - off mod 1024 in if left < r then left else r)"

definition readi_round :: "('z fsst_scheme) vm \<Rightarrow> nat \<Rightarrow> u32 \<Rightarrow> u32 \<times> u32 \<times> dest \<times> byte list \<Rightarrow>
    ('z fsst_scheme, (u32 \<times> u32 \<times> dest \<times> byte list) + u32 \<times> byte list) kop" where
  "readi_round V ip n = (\<lambda>(tot, off, dst, acc).
     if tot < n then
       bnd (bmap ip (off div 1024)) (\<lambda>addr.
       if addr = 0 then ret (Inr (tot, acc)) else
       bnd (rd (\<lambda>s. i_dev (itable s ip))) (\<lambda>dev.
       bnd (bread dev addr) (\<lambda>bp.
       let m = chunk (n - tot) off in
       bnd (rd (\<lambda>s. take (unat m) (drop (unat (off mod 1024)) (bdata (bufs s bp))))) (\<lambda>bs.
       bnd (either_copyout V dst bs) (\<lambda>r.
       if r = - 1 then thn (brelse bp) (ret (Inr (- 1, acc)))
       else thn (brelse bp) (ret (Inl (tot + m, off + m, dest_add dst (unat m), acc @ bs))))))))
     else ret (Inr (tot, acc)))"

definition readi :: "('z fsst_scheme) vm \<Rightarrow> nat \<Rightarrow> dest \<Rightarrow> u32 \<Rightarrow> u32 \<Rightarrow> ('z fsst_scheme, int \<times> byte list) kop" where
  "readi V ip dst off n =
     bnd (rd (\<lambda>s. i_size (itable s ip))) (\<lambda>sz.
     if off > sz \<or> off + n < off then ret (0, []) else
     let n' = if off + n > sz then sz - off else n in
     bnd (loop (\<lambda>(tot, off, dst, acc). unat n' - unat tot) (readi_round V ip n') (0, off, dst, [])) (\<lambda>(tot, acc).
     ret (sint tot, acc)))"

text \<open>A copy that fails may have stored some of the bytes in the cached block.\<close>

definition writei_round :: "('z fsst_scheme) vm \<Rightarrow> nat \<Rightarrow> u32 \<Rightarrow> u32 \<times> u32 \<times> src \<Rightarrow>
    ('z fsst_scheme, (u32 \<times> u32 \<times> src) + u32 \<times> u32) kop" where
  "writei_round V ip n = (\<lambda>(tot, off, sr).
     if tot < n then
       bnd (bmap ip (off div 1024)) (\<lambda>addr.
       if addr = 0 then ret (Inr (tot, off)) else
       bnd (rd (\<lambda>s. i_dev (itable s ip))) (\<lambda>dev.
       bnd (bread dev addr) (\<lambda>bp.
       let m = chunk (n - tot) off in
       bnd (either_copyin V sr (unat m)) (\<lambda>(r, bs).
       thn (upd_data bp (blit (unat (off mod 1024)) bs)) (
       if r = - 1 then thn (brelse bp) (ret (Inr (tot, off)))
       else
         thn (log_write bp) (
         thn (brelse bp)
         (ret (Inl (tot + m, off + m, src_add sr (unat m))))))))))
     else ret (Inr (tot, off)))"

definition writei :: "('z fsst_scheme) vm \<Rightarrow> nat \<Rightarrow> src \<Rightarrow> u32 \<Rightarrow> u32 \<Rightarrow> ('z fsst_scheme, int) kop" where
  "writei V ip sr off n =
     bnd (rd (\<lambda>s. i_size (itable s ip))) (\<lambda>sz.
     if off > sz \<or> off + n < off then ret (- 1) else
     if unat (off + n) > MAXFILE * BSIZE then ret (- 1) else
     bnd (loop (\<lambda>(tot, off, sr). unat n - unat tot) (writei_round V ip n) (0, off, sr)) (\<lambda>(tot, off').
     thn (upd_inode ip (\<lambda>p. if off' > i_size p then p\<lparr>i_size := off'\<rparr> else p)) (
     thn (iupdate ip)
     (ret (sint tot)))))"

section \<open>Directories\<close>

definition namecmp :: "Cstring.buf \<Rightarrow> Cstring.buf \<Rightarrow> int" where
  "namecmp p q = strncmp p q DIRSIZ"

definition de_inum :: "byte list \<Rightarrow> u16" where
  "de_inum de = get16 0 de"

definition de_name :: "byte list \<Rightarrow> Cstring.buf" where
  "de_name de = (\<lambda>i. de ! (2 + i))"

definition dirlookup_round :: "('z fsst_scheme) vm \<Rightarrow> nat \<Rightarrow> Cstring.buf \<Rightarrow> u32 \<Rightarrow>
    ('z fsst_scheme, u32 + (nat \<times> u32) option) kop" where
  "dirlookup_round V dp nm off =
     bnd (rd (\<lambda>s. i_size (itable s dp))) (\<lambda>sz.
     if off < sz then
       bnd (readi V dp DLocal off 16) (\<lambda>(r, de).
       if r \<noteq> 16 then panic ''dirlookup read'' else
       if de_inum de = 0 then ret (Inl (off + 16)) else
       if namecmp nm (de_name de) = 0 then
         bnd (rd (\<lambda>s. i_dev (itable s dp))) (\<lambda>dev.
         bnd (iget dev (ucast (de_inum de))) (\<lambda>ip.
         ret (Inr (Some (ip, off)))))
       else ret (Inl (off + 16)))
     else ret (Inr None))"

text \<open>The inode found comes with the offset of its entry, which the C code stores in \<open>*poff\<close>.\<close>

definition dirlookup :: "('z fsst_scheme) vm \<Rightarrow> nat \<Rightarrow> Cstring.buf \<Rightarrow> ('z fsst_scheme, (nat \<times> u32) option) kop" where
  "dirlookup V dp nm =
     bnd (rd (\<lambda>s. i_type (itable s dp))) (\<lambda>ty.
     if ty \<noteq> T_DIR then panic ''dirlookup not DIR'' else
     loop (\<lambda>off. 2 ^ 32 - unat off) (dirlookup_round V dp nm) 0)"

definition dirlink_round :: "('z fsst_scheme) vm \<Rightarrow> nat \<Rightarrow> u32 \<Rightarrow> ('z fsst_scheme, u32 + u32) kop" where
  "dirlink_round V dp off =
     bnd (rd (\<lambda>s. i_size (itable s dp))) (\<lambda>sz.
     if off < sz then
       bnd (readi V dp DLocal off 16) (\<lambda>(r, de).
       if r \<noteq> 16 then panic ''dirlink read'' else
       ret (if de_inum de = 0 then Inr off else Inl (off + 16)))
     else ret (Inr off))"

text \<open>\<open>strncpy\<close> fills the fourteen bytes of the name, whatever the entry held before.\<close>

definition new_dirent :: "Cstring.buf \<Rightarrow> u32 \<Rightarrow> byte list" where
  "new_dirent nm inum =
     put16 0 (ucast inum) (replicate 2 0 @ map (strncpy (\<lambda>_. 0) nm (int DIRSIZ)) [0..<DIRSIZ])"

definition dirlink :: "('z fsst_scheme) vm \<Rightarrow> nat \<Rightarrow> Cstring.buf \<Rightarrow> u32 \<Rightarrow> ('z fsst_scheme, int) kop" where
  "dirlink V dp nm inum =
     bnd (dirlookup V dp nm) (\<lambda>r. case r of
       Some (ip, off) \<Rightarrow> thn (iput ip) (ret (- 1))
     | None \<Rightarrow>
         bnd (loop (\<lambda>off. 2 ^ 32 - unat off) (dirlink_round V dp) 0) (\<lambda>off.
         bnd (writei V dp (SLocal (new_dirent nm inum)) off 16) (\<lambda>w.
         ret (if w \<noteq> 16 then - 1 else 0))))"

section \<open>Path names\<close>

text \<open>
  A path is the list of its bytes up to the terminating zero.  \<open>name\<close> is the array that receives an
  element.
\<close>

definition SLASH :: byte where "SLASH = 47"

definition put_name :: "byte list \<Rightarrow> Cstring.buf \<Rightarrow> Cstring.buf" where
  "put_name bs nm = (\<lambda>i. if i < length bs then bs ! i else nm i)"

definition skipelem :: "byte list \<Rightarrow> Cstring.buf \<Rightarrow> (byte list \<times> Cstring.buf) option" where
  "skipelem path name =
     (let s = dropWhile (\<lambda>c. c = SLASH) path in
      if s = [] then None else
      let elem = takeWhile (\<lambda>c. c \<noteq> SLASH) s; len = length elem;
          name' = (if len \<ge> DIRSIZ then put_name (take DIRSIZ elem) name
                   else (put_name elem name)(len := 0))
      in Some (dropWhile (\<lambda>c. c = SLASH) (drop len s), name'))"

definition namex_round :: "('z fsst_scheme) vm \<Rightarrow> bool \<Rightarrow> byte list \<times> nat \<times> Cstring.buf \<Rightarrow>
    ('z fsst_scheme, (byte list \<times> nat \<times> Cstring.buf) + (nat option \<times> Cstring.buf)) kop" where
  "namex_round V nameiparent = (\<lambda>(path, ip, name).
     case skipelem path name of
       None \<Rightarrow>
         if nameiparent then thn (iput ip) (ret (Inr (None, name)))
         else ret (Inr (Some ip, name))
     | Some (path', name') \<Rightarrow>
         thn (ilock (Some ip)) (
         bnd (rd (\<lambda>s. i_type (itable s ip))) (\<lambda>ty.
         if ty \<noteq> T_DIR then thn (iunlockput ip) (ret (Inr (None, name')))
         else if nameiparent \<and> path' = [] then thn (iunlock (Some ip)) (ret (Inr (Some ip, name')))
         else
           bnd (dirlookup V ip name') (\<lambda>r. case r of
             None \<Rightarrow> thn (iunlockput ip) (ret (Inr (None, name')))
           | Some (next', off) \<Rightarrow> thn (iunlockput ip) (ret (Inl (path', next', name')))))))"

definition namex :: "('z fsst_scheme) vm \<Rightarrow> byte list \<Rightarrow> bool \<Rightarrow> Cstring.buf \<Rightarrow>
    ('z fsst_scheme, nat option \<times> Cstring.buf) kop" where
  "namex V path nameiparent name =
     bnd (if path \<noteq> [] \<and> hd path = SLASH then iget ROOTDEV ROOTINO
          else bnd myproc_ptr (\<lambda>i. bnd (rd (\<lambda>s. cwd (procs s i))) (\<lambda>c.
            case c of None \<Rightarrow> undefined_behaviour | Some ip \<Rightarrow> idup ip))) (\<lambda>ip.
     loop (\<lambda>(path, ip, name). length path) (namex_round V nameiparent) (path, ip, name))"

text \<open>The array \<open>name\<close> of \<open>namei\<close> is not initialised; its bytes are read only up to what an element put there.\<close>

definition namei :: "('z fsst_scheme) vm \<Rightarrow> byte list \<Rightarrow> ('z fsst_scheme, nat option) kop" where
  "namei V path = bnd (namex V path False (\<lambda>_. 0)) (\<lambda>(ip, name). ret ip)"

definition nameiparent :: "('z fsst_scheme) vm \<Rightarrow> byte list \<Rightarrow> Cstring.buf \<Rightarrow>
    ('z fsst_scheme, nat option \<times> Cstring.buf) kop" where
  "nameiparent V path name = namex V path True name"

end
