(* ===== verification/File.thy ===== *)
theory File
  imports Fs
begin

text \<open>
  kernel/file.c and kernel/file.h, and \<open>pipealloc\<close> of kernel/pipe.c: the table of open files, and
  reading and writing through one.
\<close>

section \<open>State\<close>

datatype filetype = FD_NONE | FD_PIPE | FD_INODE | FD_DEVICE

record file_t =
  f_type :: filetype
  f_ref :: int
  f_readable :: int
  f_writable :: int
  f_pipe :: addr
  f_ip :: "nat option"
  f_off :: u32
  f_major :: u16

text \<open>\<open>stack\<close> is what the kernel stack holds where a local variable is not initialised.\<close>

record filest = fsst +
  ftable :: "nat \<Rightarrow> file_t"
  stack :: "nat \<Rightarrow> byte"

lemma ftable_frame [simp, frame_simps]:
  "cpuid (ftable_update g s) = cpuid s" "mycpu (ftable_update g s) = mycpu s"
  "intr_get (ftable_update g s) = intr_get s" "is_holding L (ftable_update g s) = is_holding L s"
  "lock_free L (ftable_update g s) = lock_free L s" "cpu_wf (ftable_update g s) = cpu_wf s"
  "plocks_free (ftable_update g s) = plocks_free s"
  "other_plocks_free (ftable_update g s) = other_plocks_free s"
  "kmem_ready (ftable_update g s) = kmem_ready s"
  "touch (ftable_update g s) = ftable_update g (touch s)"
  "acq L (ftable_update g s) = ftable_update g (acq L s)" "rel L (ftable_update g s) = ftable_update g (rel L s)"
  "intr_on (ftable_update g s) = ftable_update g (intr_on s)"
  "intr_off (ftable_update g s) = ftable_update g (intr_off s)"
  "set_mycpu k (ftable_update g s) = ftable_update g (set_mycpu k s)"
  "wakeup_st ch (ftable_update g s) = ftable_update g (wakeup_st ch s)"
  "kalloc_st (ftable_update g s) = ftable_update g (kalloc_st s)"
  "kfree_st pa (ftable_update g s) = ftable_update g (kfree_st pa s)"
  by (simp_all add: base_defs intr_get_def r_sstatus_def intr_on_def intr_off_def w_sstatus_def
      wakeup_st_def kalloc_st_def kfree_st_def plocks_free_def other_plocks_free_def kmem_ready_def)

lemma ftable_kept [simp, frame_simps]:
  "ftable (touch s) = ftable s" "ftable (acq L s) = ftable s" "ftable (rel L s) = ftable s" "ftable (intr_on s) = ftable s"
  "ftable (intr_off s) = ftable s" "ftable (set_mycpu k s) = ftable s" "ftable (wakeup_st ch s) = ftable s"
  "ftable (kalloc_st s) = ftable s" "ftable (kfree_st pa s) = ftable s"
  by (simp_all add: base_defs intr_on_def intr_off_def w_sstatus_def wakeup_st_def kalloc_st_def
      kfree_st_def)

lemma ftable_slept [simp]: "ftable (sleep_st ch lk i s) = ftable s" "ftable (woke_st lk i ia s) = ftable s"
  by (simp_all add: sleep_st_def woke_st_def)

lemma ftable_calm [simp]:
  "running i (ftable_update g s) = running i s" "under lk i (ftable_update g s) = under lk i s"
  "calm (ftable_update g s) t = calm s t" "calm s (ftable_update g t) = calm s t"
  by (simp_all add: running_def under_def sleep_call_def calm_def)

lemma stack_frame [simp, frame_simps]:
  "cpuid (stack_update g s) = cpuid s" "mycpu (stack_update g s) = mycpu s"
  "intr_get (stack_update g s) = intr_get s" "is_holding L (stack_update g s) = is_holding L s"
  "lock_free L (stack_update g s) = lock_free L s" "cpu_wf (stack_update g s) = cpu_wf s"
  "plocks_free (stack_update g s) = plocks_free s"
  "other_plocks_free (stack_update g s) = other_plocks_free s"
  "kmem_ready (stack_update g s) = kmem_ready s"
  "touch (stack_update g s) = stack_update g (touch s)"
  "acq L (stack_update g s) = stack_update g (acq L s)" "rel L (stack_update g s) = stack_update g (rel L s)"
  "intr_on (stack_update g s) = stack_update g (intr_on s)"
  "intr_off (stack_update g s) = stack_update g (intr_off s)"
  "set_mycpu k (stack_update g s) = stack_update g (set_mycpu k s)"
  "wakeup_st ch (stack_update g s) = stack_update g (wakeup_st ch s)"
  "kalloc_st (stack_update g s) = stack_update g (kalloc_st s)"
  "kfree_st pa (stack_update g s) = stack_update g (kfree_st pa s)"
  by (simp_all add: base_defs intr_get_def r_sstatus_def intr_on_def intr_off_def w_sstatus_def
      wakeup_st_def kalloc_st_def kfree_st_def plocks_free_def other_plocks_free_def kmem_ready_def)

lemma stack_kept [simp, frame_simps]:
  "stack (touch s) = stack s" "stack (acq L s) = stack s" "stack (rel L s) = stack s" "stack (intr_on s) = stack s"
  "stack (intr_off s) = stack s" "stack (set_mycpu k s) = stack s" "stack (wakeup_st ch s) = stack s"
  "stack (kalloc_st s) = stack s" "stack (kfree_st pa s) = stack s"
  by (simp_all add: base_defs intr_on_def intr_off_def w_sstatus_def wakeup_st_def kalloc_st_def
      kfree_st_def)

lemma stack_slept [simp]: "stack (sleep_st ch lk i s) = stack s" "stack (woke_st lk i ia s) = stack s"
  by (simp_all add: sleep_st_def woke_st_def)

lemma stack_calm [simp]:
  "running i (stack_update g s) = running i s" "under lk i (stack_update g s) = under lk i s"
  "calm (stack_update g s) t = calm s t" "calm s (stack_update g t) = calm s t"
  by (simp_all add: running_def under_def sleep_call_def calm_def)

definition upd_file :: "nat \<Rightarrow> (file_t \<Rightarrow> file_t) \<Rightarrow> ('z filest_scheme, unit) kop" where
  "upd_file f g = upd (\<lambda>s. s\<lparr>ftable := (ftable s)(f := g (ftable s f))\<rparr>)"

lemma upd_file_app [kop_simps, simp]:
  "upd_file f g s e = Ret () (s\<lparr>ftable := (ftable s)(f := g (ftable s f))\<rparr>) e"
  by (simp add: upd_file_def)

text \<open>A pointer that the code follows without a test.\<close>

definition deref :: "'p option \<Rightarrow> ('p \<Rightarrow> ('s, 'a) kop) \<Rightarrow> ('s, 'a) kop" where
  "deref p k = (case p of None \<Rightarrow> undefined_behaviour | Some x \<Rightarrow> k x)"

section \<open>The table of open files\<close>

definition fileinit :: "('z filest_scheme, unit) kop" where
  "fileinit = initlock L_ftable ''ftable''"

definition filealloc :: "('z filest_scheme, nat option) kop" where
  "filealloc =
     thn (acquire L_ftable) (
     bnd (rd ftable) (\<lambda>T.
     case find_index (\<lambda>f. f_ref (T f) = 0) [0..<NFILE] of
       Some f \<Rightarrow>
         thn (upd_file f (\<lambda>k. k\<lparr>f_ref := 1\<rparr>)) (
         thn (release L_ftable)
         (ret (Some f)))
     | None \<Rightarrow> thn (release L_ftable) (ret None)))"

definition filedup :: "nat \<Rightarrow> ('z filest_scheme, nat) kop" where
  "filedup f =
     thn (acquire L_ftable) (
     bnd (rd (\<lambda>s. f_ref (ftable s f))) (\<lambda>r.
     if r < 1 then panic ''filedup'' else
     thn (upd_file f (\<lambda>k. k\<lparr>f_ref := f_ref k + 1\<rparr>)) (
     thn (release L_ftable)
     (ret f))))"

definition fileclose :: "nat \<Rightarrow> ('z filest_scheme, unit) kop" where
  "fileclose f =
     thn (acquire L_ftable) (
     bnd (rd (\<lambda>s. f_ref (ftable s f))) (\<lambda>r.
     if r < 1 then panic ''fileclose'' else
     thn (upd_file f (\<lambda>k. k\<lparr>f_ref := f_ref k - 1\<rparr>)) (
     bnd (rd (\<lambda>s. ftable s f)) (\<lambda>ff.
     if f_ref ff > 0 then release L_ftable else
     thn (upd_file f (\<lambda>k. k\<lparr>f_ref := 0\<rparr>)) (
     thn (upd_file f (\<lambda>k. k\<lparr>f_type := FD_NONE\<rparr>)) (
     thn (release L_ftable) (
     if f_type ff = FD_PIPE then pipeclose (f_pipe ff) (f_writable ff)
     else if f_type ff = FD_INODE \<or> f_type ff = FD_DEVICE then
       thn begin_op (
       thn (deref (f_ip ff) iput)
       end_op)
     else ret ())))))))"

text \<open>The bytes of a \<open>struct stat\<close>; the compiler leaves four bytes of padding before the size.\<close>

definition stat_bytes :: "byte list \<Rightarrow> stat \<Rightarrow> byte list" where
  "stat_bytes pad st = le_bytes 4 (unat (st_dev st)) @ le_bytes 4 (unat (st_ino st)) @
     le_bytes 2 (unat (st_type st)) @ le_bytes 2 (unat (st_nlink st)) @ pad @ le_bytes 8 (unat (st_size st))"

definition filestat :: "('z filest_scheme) vm \<Rightarrow> nat \<Rightarrow> addr \<Rightarrow> ('z filest_scheme, int) kop" where
  "filestat V f a =
     bnd myproc_ptr (\<lambda>i.
     bnd (rd (\<lambda>s. ftable s f)) (\<lambda>k.
     if f_type k = FD_INODE \<or> f_type k = FD_DEVICE then
       thn (ilock (f_ip k)) (
       bnd (rd (\<lambda>s. f_ip (ftable s f))) (\<lambda>ip.
       bnd (deref ip stati) (\<lambda>st.
       thn (iunlock ip) (
       bnd (rd (\<lambda>s. map (stack s) [0..<4])) (\<lambda>pad.
       bnd (rd (\<lambda>s. pagetable (procs s i))) (\<lambda>pt.
       bnd (v_copyout V pt a (stat_bytes pad st)) (\<lambda>r.
       ret (if r < 0 then - 1 else 0))))))))
     else ret (- 1)))"

section \<open>Reading and writing\<close>

definition device :: "u16 \<Rightarrow> bool" where
  "device m \<longleftrightarrow> 0 \<le> sint m \<and> sint m < int NDEV"

definition dev_read :: "('z filest_scheme) vm \<Rightarrow> devread \<Rightarrow> dest \<Rightarrow> int \<Rightarrow> ('z filest_scheme, int) kop" where
  "dev_read V d dst n = (case d of Consoleread \<Rightarrow> consoleread V dst n)"

definition dev_write :: "('z filest_scheme) vm \<Rightarrow> devwrite \<Rightarrow> src \<Rightarrow> int \<Rightarrow> ('z filest_scheme, int) kop" where
  "dev_write V d sr n = (case d of Consolewrite \<Rightarrow> consolewrite V sr n)"

definition fileread :: "('z filest_scheme) vm \<Rightarrow> nat \<Rightarrow> addr \<Rightarrow> int \<Rightarrow> ('z filest_scheme, int) kop" where
  "fileread V f a n =
     bnd (rd (\<lambda>s. ftable s f)) (\<lambda>k.
     if f_readable k = 0 then ret (- 1) else
     case f_type k of
       FD_PIPE \<Rightarrow> piperead V (f_pipe k) a n
     | FD_DEVICE \<Rightarrow>
         if \<not> device (f_major k) then ret (- 1) else
         bnd (rd (\<lambda>s. fst (devsw s (unat (f_major k))))) (\<lambda>d. case d of
           None \<Rightarrow> ret (- 1)
         | Some d \<Rightarrow> dev_read V d (DUser a) n)
     | FD_INODE \<Rightarrow>
         thn (ilock (f_ip k)) (
         bnd (rd (\<lambda>s. ftable s f)) (\<lambda>k.
         bnd (deref (f_ip k) (\<lambda>ip. readi V ip (DUser a) (f_off k) (word_of_int n))) (\<lambda>(r, bs).
         thn (if r > 0 then upd_file f (\<lambda>k. k\<lparr>f_off := f_off k + word_of_int r\<rparr>) else ret ()) (
         thn (iunlock (f_ip k))
         (ret r)))))
     | FD_NONE \<Rightarrow> panic ''fileread'')"

definition max_write :: int where
  "max_write = int ((MAXOPBLOCKS - 1 - 1 - 2) div 2 * BSIZE)"

definition write_round :: "('z filest_scheme) vm \<Rightarrow> nat \<Rightarrow> addr \<Rightarrow> int \<Rightarrow> int \<Rightarrow> ('z filest_scheme, int + int) kop" where
  "write_round V f a n i =
     (if i < n then
        let n1 = min (n - i) max_write in
        thn begin_op (
        bnd (rd (\<lambda>s. f_ip (ftable s f))) (\<lambda>ip.
        thn (ilock ip) (
        bnd (rd (\<lambda>s. ftable s f)) (\<lambda>k.
        bnd (deref (f_ip k) (\<lambda>ip. writei V ip (SUser (a + word_of_int i)) (f_off k) (word_of_int n1))) (\<lambda>r.
        thn (if r > 0 then upd_file f (\<lambda>k. k\<lparr>f_off := f_off k + word_of_int r\<rparr>) else ret ()) (
        thn (iunlock (f_ip k)) (
        thn end_op
        (ret (if r \<noteq> n1 then Inr i else Inl (i + r))))))))))
      else ret (Inr i))"

definition filewrite :: "('z filest_scheme) vm \<Rightarrow> nat \<Rightarrow> addr \<Rightarrow> int \<Rightarrow> ('z filest_scheme, int) kop" where
  "filewrite V f a n =
     bnd (rd (\<lambda>s. ftable s f)) (\<lambda>k.
     if f_writable k = 0 then ret (- 1) else
     case f_type k of
       FD_PIPE \<Rightarrow> pipewrite V (f_pipe k) a n
     | FD_DEVICE \<Rightarrow>
         if \<not> device (f_major k) then ret (- 1) else
         bnd (rd (\<lambda>s. snd (devsw s (unat (f_major k))))) (\<lambda>d. case d of
           None \<Rightarrow> ret (- 1)
         | Some d \<Rightarrow> dev_write V d (SUser a) n)
     | FD_INODE \<Rightarrow>
         bnd (loop (\<lambda>i. nat (n - i)) (write_round V f a n) 0) (\<lambda>i.
         ret (if i = n then n else - 1))
     | FD_NONE \<Rightarrow> panic ''filewrite'')"

section \<open>Creating a pipe (pipe.c)\<close>

definition close_if :: "nat option \<Rightarrow> ('z filest_scheme, unit) kop" where
  "close_if f = (case f of None \<Rightarrow> ret () | Some x \<Rightarrow> fileclose x)"

definition pipe_bad :: "addr \<Rightarrow> nat option \<Rightarrow> nat option \<Rightarrow> ('z filest_scheme, (nat \<times> nat) option) kop" where
  "pipe_bad pi f0 f1 =
     thn (if pi \<noteq> 0 then kfree pi else ret ()) (
     thn (close_if f0) (
     thn (close_if f1)
     (ret None)))"

definition pipealloc :: "('z filest_scheme, (nat \<times> nat) option) kop" where
  "pipealloc =
     bnd filealloc (\<lambda>r0. case r0 of None \<Rightarrow> pipe_bad 0 None None | Some f0 \<Rightarrow>
     bnd filealloc (\<lambda>r1. case r1 of None \<Rightarrow> pipe_bad 0 (Some f0) None | Some f1 \<Rightarrow>
     bnd kalloc (\<lambda>pi.
     if pi = 0 then pipe_bad 0 (Some f0) (Some f1) else
     thn (upd_pipe pi (\<lambda>p. p\<lparr>preadopen := 1\<rparr>)) (
     thn (upd_pipe pi (\<lambda>p. p\<lparr>pwriteopen := 1\<rparr>)) (
     thn (upd_pipe pi (\<lambda>p. p\<lparr>pnwrite := 0\<rparr>)) (
     thn (upd_pipe pi (\<lambda>p. p\<lparr>pnread := 0\<rparr>)) (
     thn (initlock (L_pipe pi) ''pipe'') (
     thn (upd_file f0 (\<lambda>k. k\<lparr>f_type := FD_PIPE, f_readable := 1, f_writable := 0, f_pipe := pi\<rparr>)) (
     thn (upd_file f1 (\<lambda>k. k\<lparr>f_type := FD_PIPE, f_readable := 0, f_writable := 1, f_pipe := pi\<rparr>))
     (ret (Some (f0, f1))))))))))))"

end
