(* ===== verification/Exec.thy ===== *)
theory Exec
  imports File Proc_Life
begin

text \<open>
  kernel/exec.c and kernel/elf.h, and of kernel/syscall.c the functions that fetch values from user
  memory: replacing the program of a process.
\<close>

unbundle bit_operations_syntax

section \<open>The format of an executable (elf.h)\<close>

abbreviation ELF_MAGIC :: u32 where "ELF_MAGIC \<equiv> 0x464C457F"
abbreviation ELF_PROG_LOAD :: u32 where "ELF_PROG_LOAD \<equiv> 1"
abbreviation USERSTACK :: addr where "USERSTACK \<equiv> 1"

definition get64 :: "nat \<Rightarrow> byte list \<Rightarrow> addr" where
  "get64 k bs = ucast (get32 k bs) OR push_bit 32 (ucast (get32 (k + 4) bs))"

text \<open>The fields that the kernel reads.\<close>

record elfhdr =
  e_magic :: u32
  e_entry :: addr
  e_phoff :: addr
  e_phnum :: u16

record proghdr =
  ph_type :: u32
  ph_flags :: u32
  ph_off :: addr
  ph_vaddr :: addr
  ph_filesz :: addr
  ph_memsz :: addr

definition get_elfhdr :: "byte list \<Rightarrow> elfhdr" where
  "get_elfhdr d = \<lparr>e_magic = get32 0 d, e_entry = get64 24 d, e_phoff = get64 32 d, e_phnum = get16 56 d\<rparr>"

definition get_proghdr :: "byte list \<Rightarrow> proghdr" where
  "get_proghdr d = \<lparr>ph_type = get32 0 d, ph_flags = get32 4 d, ph_off = get64 8 d, ph_vaddr = get64 16 d,
     ph_filesz = get64 32 d, ph_memsz = get64 40 d\<rparr>"

section \<open>Strings in kernel memory\<close>

definition str_at :: "mem \<Rightarrow> addr \<Rightarrow> Cstring.buf" where
  "str_at m a = (\<lambda>i. m (unat a + i))"

definition bytes_at :: "mem \<Rightarrow> addr \<Rightarrow> nat \<Rightarrow> byte list" where
  "bytes_at m a n = map (str_at m a) [0..<n]"

text \<open>The length of a string that does not end is undefined.\<close>

definition str_len :: "addr \<Rightarrow> ('z kmemst_scheme, nat) kop" where
  "str_len a = bnd (rd (\<lambda>s. strlen (str_at (mem s) a))) (\<lambda>n. case n of
     None \<Rightarrow> undefined_behaviour | Some k \<Rightarrow> ret k)"

section \<open>Loading\<close>

definition flags2perm :: "u32 \<Rightarrow> addr" where
  "flags2perm flags =
     (let perm = (if flags AND 1 \<noteq> 0 then PTE_X else 0)
      in if flags AND 2 \<noteq> 0 then perm OR PTE_W else perm)"

definition loadseg_round :: "('z filest_scheme) vm \<Rightarrow> addr \<Rightarrow> addr \<Rightarrow> nat \<Rightarrow> u32 \<Rightarrow> u32 \<Rightarrow> u32 \<Rightarrow>
    ('z filest_scheme, u32 + int) kop" where
  "loadseg_round V pt va ip off n i =
     (if i < n then
        bnd (v_walkaddr V pt (va + ucast i)) (\<lambda>pa.
        if pa = 0 then panic ''loadseg: address should exist'' else
        let k = (if n - i < 4096 then n - i else 4096) in
        bnd (readi V ip (DKernel pa) (off + i) k) (\<lambda>(r, bs).
        ret (if word_of_int r \<noteq> k then Inr (- 1) else Inl (i + 4096))))
      else ret (Inr 0))"

definition loadseg :: "('z filest_scheme) vm \<Rightarrow> addr \<Rightarrow> addr \<Rightarrow> nat \<Rightarrow> u32 \<Rightarrow> u32 \<Rightarrow> ('z filest_scheme, int) kop" where
  "loadseg V pt va ip off n = loop (\<lambda>i. 2 ^ 32 - unat i) (loadseg_round V pt va ip off n) 0"

text \<open>
  One program header.  The state of the loop over the headers is the number of the header, its
  offset and the size of the image so far; the answer is whether all were loaded, and the size.
\<close>

definition load_one :: "('z filest_scheme) vm \<Rightarrow> addr \<Rightarrow> nat \<Rightarrow> nat \<Rightarrow> nat \<times> u32 \<times> addr \<Rightarrow>
    ('z filest_scheme, (nat \<times> u32 \<times> addr) + bool \<times> addr) kop" where
  "load_one V pt ip phnum = (\<lambda>(i, off, n).
     if i < phnum then
       bnd (readi V ip DLocal off 56) (\<lambda>(r, d).
       if r \<noteq> 56 then ret (Inr (False, n)) else
       let ph = get_proghdr d in
       if ph_type ph \<noteq> ELF_PROG_LOAD then ret (Inl (Suc i, off + 56, n)) else
       if ph_memsz ph < ph_filesz ph then ret (Inr (False, n)) else
       if ph_vaddr ph + ph_memsz ph < ph_vaddr ph then ret (Inr (False, n)) else
       if ph_vaddr ph mod PGSIZE \<noteq> 0 then ret (Inr (False, n)) else
       bnd (v_uvmalloc V pt n (ph_vaddr ph + ph_memsz ph) (flags2perm (ph_flags ph))) (\<lambda>n1.
       if n1 = 0 then ret (Inr (False, n)) else
       bnd (loadseg V pt (ph_vaddr ph) ip (ucast (ph_off ph)) (ucast (ph_filesz ph))) (\<lambda>r.
       ret (if r < 0 then Inr (False, n1) else Inl (Suc i, off + 56, n1)))))
     else ret (Inr (True, n)))"

definition load_all :: "('z filest_scheme) vm \<Rightarrow> addr \<Rightarrow> nat \<Rightarrow> elfhdr \<Rightarrow> ('z filest_scheme, bool \<times> addr) kop" where
  "load_all V pt ip elf =
     loop (\<lambda>(i, off, n). unat (e_phnum elf) - i) (load_one V pt ip (unat (e_phnum elf))) (0, ucast (e_phoff elf), 0)"

text \<open>\<open>bad\<close>: what has been built so far is given back.\<close>

definition exec_bad :: "('z filest_scheme) vm \<Rightarrow> addr \<Rightarrow> addr \<Rightarrow> nat option \<Rightarrow> ('z filest_scheme, int) kop" where
  "exec_bad V pt n ip =
     thn (if pt \<noteq> 0 then proc_freepagetable V pt n else ret ()) (
     thn (case ip of None \<Rightarrow> ret () | Some p \<Rightarrow> thn (iunlockput p) end_op)
     (ret (- 1)))"

text \<open>
  The argument strings go onto the user stack.  \<open>argv\<close> is the list of the pointers before the null
  pointer; the answer is \<open>None\<close> for \<open>bad\<close>, or the stack pointer and the addresses of the copies.
\<close>

fun push_args :: "('z filest_scheme) vm \<Rightarrow> addr \<Rightarrow> addr \<Rightarrow> addr list \<Rightarrow> addr \<Rightarrow> addr list \<Rightarrow>
    ('z filest_scheme, (addr \<times> addr list) option) kop" where
  "push_args V pt base [] sp us = ret (Some (sp, us))"
| "push_args V pt base (a # as) sp us =
     (if length us \<ge> MAXARG then ret None else
      bnd (str_len a) (\<lambda>k.
      let sp1 = sp - of_nat (k + 1); sp2 = sp1 - sp1 mod 16 in
      if sp2 < base then ret None else
      bnd (rd (\<lambda>s. bytes_at (mem s) a (k + 1))) (\<lambda>bs.
      bnd (v_copyout V pt sp2 bs) (\<lambda>r.
      if r < 0 then ret None else push_args V pt base as sp2 (us @ [sp2])))))"

definition last_elem :: "byte list \<Rightarrow> byte list" where
  "last_elem path = rev (takeWhile (\<lambda>c. c \<noteq> SLASH) (rev path))"

text \<open>A NUL-terminated string as a buffer.\<close>

definition cbuf :: "byte list \<Rightarrow> Cstring.buf" where
  "cbuf bs = (\<lambda>i. if i < length bs then bs ! i else 0)"

definition upd_tf :: "nat \<Rightarrow> (trapframe \<Rightarrow> trapframe) \<Rightarrow> ('z pst_scheme, unit) kop" where
  "upd_tf i f = upd (\<lambda>s. s\<lparr>tframes := (tframes s)(ptrapframe (procs s i) := f (tframes s (ptrapframe (procs s i))))\<rparr>)"

lemma upd_tf_app [kop_simps, simp]:
  "upd_tf i f s e = Ret () (s\<lparr>tframes := (tframes s)(ptrapframe (procs s i) := f (tframes s (ptrapframe (procs s i))))\<rparr>) e"
  by (simp add: upd_tf_def)

definition set_reg :: "reg \<Rightarrow> addr \<Rightarrow> trapframe \<Rightarrow> trapframe" where
  "set_reg r v t = t\<lparr>uregs := (uregs t)(r := v)\<rparr>"

text \<open>The new image replaces the old one.\<close>

definition exec_commit :: "('z filest_scheme) vm \<Rightarrow> nat \<Rightarrow> byte list \<Rightarrow> elfhdr \<Rightarrow> addr \<Rightarrow> addr \<Rightarrow> addr \<Rightarrow> addr \<Rightarrow>
    ('z filest_scheme, unit) kop" where
  "exec_commit V i path elf pt oldsz n sp =
     thn (upd_tf i (set_reg (R_a 1) sp)) (
     thn (upd_proc i (\<lambda>p. p\<lparr>pname := safestrcpy (pname p) (cbuf (last_elem path)) 16\<rparr>)) (
     bnd (rd (\<lambda>s. pagetable (procs s i))) (\<lambda>oldpt.
     thn (upd_proc i (\<lambda>p. p\<lparr>pagetable := pt\<rparr>)) (
     thn (upd_proc i (\<lambda>p. p\<lparr>sz := n\<rparr>)) (
     thn (upd_tf i (\<lambda>t. t\<lparr>epc := e_entry elf\<rparr>)) (
     thn (upd_tf i (set_reg R_sp sp))
     (proc_freepagetable V oldpt oldsz)))))))"

definition exec_stack :: "('z filest_scheme) vm \<Rightarrow> byte list \<Rightarrow> addr list \<Rightarrow> elfhdr \<Rightarrow> addr \<Rightarrow> addr \<Rightarrow>
    ('z filest_scheme, int) kop" where
  "exec_stack V path argv elf pt n0 =
     bnd myproc_ptr (\<lambda>i.
     bnd (rd (\<lambda>s. sz (procs s i))) (\<lambda>oldsz.
     let n = PGROUNDUP n0 in
     bnd (v_uvmalloc V pt n (n + (USERSTACK + 1) * PGSIZE) PTE_W) (\<lambda>n1.
     if n1 = 0 then exec_bad V pt n None else
     thn (v_uvmclear V pt (n1 - (USERSTACK + 1) * PGSIZE)) (
     let base = n1 - USERSTACK * PGSIZE in
     bnd (push_args V pt base argv n1 []) (\<lambda>r. case r of
       None \<Rightarrow> exec_bad V pt n1 None
     | Some (sp, us) \<Rightarrow>
         let argc = length us; sp1 = sp - of_nat (argc + 1) * 8; sp2 = sp1 - sp1 mod 16 in
         if sp2 < base then exec_bad V pt n1 None else
         bnd (v_copyout V pt sp2 (concat (map (le_bytes 8 \<circ> unat) (us @ [0])))) (\<lambda>r.
         if r < 0 then exec_bad V pt n1 None else
         thn (exec_commit V i path elf pt oldsz n1 sp2)
         (ret (int argc))))))))"

definition kexec :: "('z filest_scheme) vm \<Rightarrow> byte list \<Rightarrow> addr list \<Rightarrow> ('z filest_scheme, int) kop" where
  "kexec V path argv =
     bnd myproc_ptr (\<lambda>i.
     thn begin_op (
     bnd (namei V path) (\<lambda>ipo. case ipo of
       None \<Rightarrow> thn end_op (ret (- 1))
     | Some ip \<Rightarrow>
         thn (ilock (Some ip)) (
         bnd (readi V ip DLocal 0 64) (\<lambda>(r, d).
         if r \<noteq> 64 then exec_bad V 0 0 (Some ip) else
         let elf = get_elfhdr d in
         if e_magic elf \<noteq> ELF_MAGIC then exec_bad V 0 0 (Some ip) else
         bnd (proc_pagetable V i) (\<lambda>pt.
         if pt = 0 then exec_bad V 0 0 (Some ip) else
         bnd (load_all V pt ip elf) (\<lambda>(ok, n).
         if \<not> ok then exec_bad V pt n (Some ip) else
         thn (iunlockput ip) (
         thn end_op
         (exec_stack V path argv elf pt n)))))))))"

end
