(* ===== verification/Fork.thy ===== *)
theory Fork
  imports Exec
begin

text \<open>
  Of kernel/proc.c the life of a process that involves its files: the first process, \<open>kfork\<close> and
  \<open>kexit\<close>.
\<close>

section \<open>Operations\<close>

definition userinit :: "('z filest_scheme) vm \<Rightarrow> ('z filest_scheme, unit) kop" where
  "userinit V =
     bnd (allocproc V) (\<lambda>r.
     thn (upd (\<lambda>s. s\<lparr>initproc := r\<rparr>)) (
     deref r (\<lambda>i.
     bnd (namei V [SLASH]) (\<lambda>c.
     thn (upd_proc i (\<lambda>p. p\<lparr>cwd := c\<rparr>)) (
     thn (upd_proc i (\<lambda>p. p\<lparr>pstate := RUNNABLE\<rparr>))
     (release (L_proc i)))))))"

text \<open>One descriptor of the parent, shared with the child.\<close>

definition dup_one :: "nat \<Rightarrow> nat \<Rightarrow> nat \<Rightarrow> ('z filest_scheme, unit) kop" where
  "dup_one i np fd =
     bnd (rd (\<lambda>s. ofile (procs s i) fd)) (\<lambda>r. case r of
       None \<Rightarrow> ret ()
     | Some f \<Rightarrow> bnd (filedup f) (\<lambda>f'. upd_proc np (\<lambda>p. p\<lparr>ofile := (ofile p)(fd := Some f')\<rparr>)))"

definition fork_files :: "nat \<Rightarrow> nat \<Rightarrow> ('z filest_scheme, unit) kop" where
  "fork_files i np =
     thn (foreach [0..<NOFILE] (dup_one i np)) (
     bnd (rd (\<lambda>s. cwd (procs s i))) (\<lambda>c.
     bnd (deref c idup) (\<lambda>c'.
     upd_proc np (\<lambda>p. p\<lparr>cwd := Some c'\<rparr>))))"

text \<open>The new process \<open>np\<close>, a slot that \<open>allocproc\<close> has just set up, becomes a copy of \<open>i\<close>.\<close>

definition fork_child :: "('z filest_scheme) vm \<Rightarrow> nat \<Rightarrow> nat \<Rightarrow> ('z filest_scheme, int) kop" where
  "fork_child V i np =
     bnd (rd (\<lambda>s. procs s i)) (\<lambda>p.
     bnd (rd (\<lambda>s. pagetable (procs s np))) (\<lambda>npt.
     bnd (v_uvmcopy V (pagetable p) npt (sz p)) (\<lambda>r.
     if r < 0 then
       thn (freeproc V np) (
       thn (release (L_proc np))
       (ret (- 1)))
     else
       bnd (rd (\<lambda>s. sz (procs s i))) (\<lambda>n.
       thn (upd_proc np (\<lambda>p. p\<lparr>sz := n\<rparr>)) (
       bnd (rd (\<lambda>s. tframes s (ptrapframe (procs s i)))) (\<lambda>t.
       thn (upd_tf np (\<lambda>_. t)) (
       thn (upd_tf np (set_reg (R_a 0) 0)) (
       thn (fork_files i np) (
       bnd (rd (\<lambda>s. pname (procs s i))) (\<lambda>nm.
       thn (upd_proc np (\<lambda>p. p\<lparr>pname := safestrcpy (pname p) nm 16\<rparr>)) (
       bnd (rd (\<lambda>s. pid (procs s np))) (\<lambda>pd.
       thn (release (L_proc np)) (
       thn (acquire L_wait) (
       thn (upd_proc np (\<lambda>p. p\<lparr>parent := Some i\<rparr>)) (
       thn (release L_wait) (
       thn (acquire (L_proc np)) (
       thn (upd_proc np (\<lambda>p. p\<lparr>pstate := RUNNABLE\<rparr>)) (
       thn (release (L_proc np))
       (ret pd)))))))))))))))))))"

definition kfork :: "('z filest_scheme) vm \<Rightarrow> ('z filest_scheme, int) kop" where
  "kfork V =
     bnd myproc_ptr (\<lambda>i.
     bnd (allocproc V) (\<lambda>r. case r of None \<Rightarrow> ret (- 1) | Some np \<Rightarrow> fork_child V i np))"

definition close_fd :: "nat \<Rightarrow> nat \<Rightarrow> ('z filest_scheme, unit) kop" where
  "close_fd i fd =
     bnd (rd (\<lambda>s. ofile (procs s i) fd)) (\<lambda>r. case r of
       None \<Rightarrow> ret ()
     | Some f \<Rightarrow>
         thn (fileclose f)
         (upd_proc i (\<lambda>p. p\<lparr>ofile := (ofile p)(fd := None)\<rparr>)))"

text \<open>The files and the directory of a process that exits.\<close>

definition exit_files :: "nat \<Rightarrow> ('z filest_scheme, unit) kop" where
  "exit_files i =
     thn (foreach [0..<NOFILE] (close_fd i)) (
     thn begin_op (
     bnd (rd (\<lambda>s. cwd (procs s i))) (\<lambda>c.
     thn (deref c iput) (
     thn end_op
     (upd_proc i (\<lambda>p. p\<lparr>cwd := None\<rparr>))))))"

definition exit_zombie :: "nat \<Rightarrow> int \<Rightarrow> ('z pst_scheme, 'a) kop" where
  "exit_zombie i status =
     thn (acquire L_wait) (
     thn (reparent i) (
     bnd (rd (\<lambda>s. parent (procs s i))) (\<lambda>pa.
     thn (wakeup (map_option C_proc pa)) (
     thn (acquire (L_proc i)) (
     thn (upd_proc i (\<lambda>p. p\<lparr>xstate := status\<rparr>)) (
     thn (upd_proc i (\<lambda>p. p\<lparr>pstate := ZOMBIE\<rparr>)) (
     thn (release L_wait) (
     thn sched
     (panic ''zombie exit'')))))))))"

definition kexit :: "int \<Rightarrow> ('z filest_scheme, 'a) kop" where
  "kexit status =
     bnd myproc_ptr (\<lambda>i.
     bnd (rd initproc) (\<lambda>ini.
     if ini = Some i then panic ''init exiting'' else
     thn (exit_files i)
     (exit_zombie i status)))"

end
