(* ===== verification/Sysfile.thy ===== *)
theory Sysfile
  imports Fork
begin

text \<open>
  kernel/sysfile.c and kernel/fcntl.h, and of kernel/syscall.c the fetching of arguments: the system
  calls on files.  A system call returns the 64 bits of its result.
\<close>

unbundle bit_operations_syntax

abbreviation O_RDONLY :: u32 where "O_RDONLY \<equiv> 0"
abbreviation O_WRONLY :: u32 where "O_WRONLY \<equiv> 1"
abbreviation O_RDWR :: u32 where "O_RDWR \<equiv> 2"
abbreviation O_CREATE :: u32 where "O_CREATE \<equiv> 0x200"
abbreviation O_TRUNC :: u32 where "O_TRUNC \<equiv> 0x400"

section \<open>Arguments (syscall.c)\<close>

definition fetchaddr :: "('z pst_scheme) vm \<Rightarrow> addr \<Rightarrow> ('z pst_scheme, int \<times> addr) kop" where
  "fetchaddr V a =
     bnd myproc_ptr (\<lambda>i.
     bnd (rd (\<lambda>s. procs s i)) (\<lambda>p.
     if a \<ge> sz p \<or> a + 8 > sz p then ret (- 1, 0) else
     bnd (v_copyin V (pagetable p) a 8) (\<lambda>(r, bs).
     ret (if r \<noteq> 0 then (- 1, 0) else (0, of_nat (le_nat bs))))))"

text \<open>
  The string goes to the caller's buffer, as the list of its bytes up to the terminating zero; one
  that does not end within the bytes fetched would be read past them.
\<close>

definition fetchstr :: "('z pst_scheme) vm \<Rightarrow> addr \<Rightarrow> nat \<Rightarrow> ('z pst_scheme, int \<times> byte list) kop" where
  "fetchstr V a n =
     bnd myproc_ptr (\<lambda>i.
     bnd (rd (\<lambda>s. pagetable (procs s i))) (\<lambda>pt.
     bnd (v_copyinstr V pt a n) (\<lambda>(r, bs).
     if r < 0 then ret (- 1, bs) else
     if 0 \<notin> set bs then undefined_behaviour else
     let str = takeWhile (\<lambda>c. c \<noteq> 0) bs in ret (int (length str), str))))"

definition argraw :: "nat \<Rightarrow> ('z pst_scheme, addr) kop" where
  "argraw n =
     bnd myproc_ptr (\<lambda>i.
     if n \<le> 5 then rd (\<lambda>s. uregs (tframes s (ptrapframe (procs s i))) (R_a n))
     else panic ''argraw'')"

definition argint :: "nat \<Rightarrow> ('z pst_scheme, int) kop" where
  "argint n = bnd (argraw n) (\<lambda>w. ret (sint (ucast w :: u32)))"

definition argaddr :: "nat \<Rightarrow> ('z pst_scheme, addr) kop" where
  "argaddr n = argraw n"

definition argstr :: "('z pst_scheme) vm \<Rightarrow> nat \<Rightarrow> nat \<Rightarrow> ('z pst_scheme, int \<times> byte list) kop" where
  "argstr V n mx = bnd (argaddr n) (\<lambda>a. fetchstr V a mx)"

section \<open>File descriptors\<close>

text \<open>\<open>None\<close>: the call has returned -1.\<close>

definition argfd :: "nat \<Rightarrow> ('z pst_scheme, (nat \<times> nat) option) kop" where
  "argfd n =
     bnd (argint n) (\<lambda>fd.
     if fd < 0 \<or> fd \<ge> int NOFILE then ret None else
     bnd myproc_ptr (\<lambda>i.
     bnd (rd (\<lambda>s. ofile (procs s i) (nat fd))) (\<lambda>f. case f of
       None \<Rightarrow> ret None
     | Some f \<Rightarrow> ret (Some (nat fd, f)))))"

definition fdalloc :: "nat \<Rightarrow> ('z pst_scheme, int) kop" where
  "fdalloc f =
     bnd myproc_ptr (\<lambda>i.
     bnd (rd (\<lambda>s. ofile (procs s i))) (\<lambda>fs.
     case find_index (\<lambda>fd. fs fd = None) [0..<NOFILE] of
       Some fd \<Rightarrow> thn (upd_proc i (\<lambda>p. p\<lparr>ofile := (ofile p)(fd := Some f)\<rparr>)) (ret (int fd))
     | None \<Rightarrow> ret (- 1)))"

definition clear_fd :: "int \<Rightarrow> ('z pst_scheme, unit) kop" where
  "clear_fd fd = bnd myproc_ptr (\<lambda>i. upd_proc i (\<lambda>p. p\<lparr>ofile := (ofile p)(nat fd := None)\<rparr>))"

definition sys_dup :: "('z filest_scheme, addr) kop" where
  "sys_dup =
     bnd (argfd 0) (\<lambda>r. case r of None \<Rightarrow> ret (- 1) | Some (_, f) \<Rightarrow>
     bnd (fdalloc f) (\<lambda>fd.
     if fd < 0 then ret (- 1) else
     thn (bnd (filedup f) (\<lambda>_. ret ()))
     (ret (word_of_int fd))))"

definition sys_read :: "('z filest_scheme) vm \<Rightarrow> ('z filest_scheme, addr) kop" where
  "sys_read V =
     bnd (argaddr 1) (\<lambda>p.
     bnd (argint 2) (\<lambda>n.
     bnd (argfd 0) (\<lambda>r. case r of None \<Rightarrow> ret (- 1) | Some (_, f) \<Rightarrow>
     bnd (fileread V f p n) (\<lambda>v. ret (word_of_int v)))))"

definition sys_write :: "('z filest_scheme) vm \<Rightarrow> ('z filest_scheme, addr) kop" where
  "sys_write V =
     bnd (argaddr 1) (\<lambda>p.
     bnd (argint 2) (\<lambda>n.
     bnd (argfd 0) (\<lambda>r. case r of None \<Rightarrow> ret (- 1) | Some (_, f) \<Rightarrow>
     bnd (filewrite V f p n) (\<lambda>v. ret (word_of_int v)))))"

definition sys_close :: "('z filest_scheme, addr) kop" where
  "sys_close =
     bnd (argfd 0) (\<lambda>r. case r of None \<Rightarrow> ret (- 1) | Some (fd, f) \<Rightarrow>
     thn (clear_fd (int fd)) (
     thn (fileclose f)
     (ret 0)))"

definition sys_fstat :: "('z filest_scheme) vm \<Rightarrow> ('z filest_scheme, addr) kop" where
  "sys_fstat V =
     bnd (argaddr 1) (\<lambda>st.
     bnd (argfd 0) (\<lambda>r. case r of None \<Rightarrow> ret (- 1) | Some (_, f) \<Rightarrow>
     bnd (filestat V f st) (\<lambda>v. ret (word_of_int v))))"

section \<open>Links\<close>

definition add_link :: "nat \<Rightarrow> int \<Rightarrow> ('z fsst_scheme, unit) kop" where
  "add_link ip d = upd_inode ip (\<lambda>p. p\<lparr>i_nlink := i_nlink p + word_of_int d\<rparr>)"

definition end_fail :: "('z fsst_scheme, addr) kop" where
  "end_fail = thn end_op (ret (- 1))"

definition link_bad :: "nat \<Rightarrow> ('z fsst_scheme, addr) kop" where
  "link_bad ip =
     thn (ilock (Some ip)) (
     thn (add_link ip (- 1)) (
     thn (iupdate ip) (
     thn (iunlockput ip)
     end_fail)))"

definition sys_link :: "('z filest_scheme) vm \<Rightarrow> ('z filest_scheme, addr) kop" where
  "sys_link V =
     bnd (argstr V 0 MAXPATH) (\<lambda>(r0, old).
     if r0 < 0 then ret (- 1) else
     bnd (argstr V 1 MAXPATH) (\<lambda>(r1, new).
     if r1 < 0 then ret (- 1) else
     thn begin_op (
     bnd (namei V old) (\<lambda>ipo. case ipo of None \<Rightarrow> end_fail | Some ip \<Rightarrow>
     thn (ilock (Some ip)) (
     bnd (rd (\<lambda>s. i_type (itable s ip))) (\<lambda>ty.
     if ty = T_DIR then thn (iunlockput ip) end_fail else
     thn (add_link ip 1) (
     thn (iupdate ip) (
     thn (iunlock (Some ip)) (
     bnd (nameiparent V new (\<lambda>_. 0)) (\<lambda>(dpo, name). case dpo of
       None \<Rightarrow> link_bad ip
     | Some dp \<Rightarrow>
         thn (ilock (Some dp)) (
         bnd (rd (\<lambda>s. (itable s dp, itable s ip))) (\<lambda>(d, p).
         bnd (if i_dev d \<noteq> i_dev p then ret (- 1) else dirlink V dp name (i_inum p)) (\<lambda>r.
         if r < 0 then thn (iunlockput dp) (link_bad ip) else
         thn (iunlockput dp) (
         thn (iput ip) (
         thn end_op
         (ret 0))))))))))))))))"

text \<open>Is the directory empty except for "." and ".."?\<close>

definition dirempty_round :: "('z fsst_scheme) vm \<Rightarrow> nat \<Rightarrow> u32 \<Rightarrow> ('z fsst_scheme, u32 + bool) kop" where
  "dirempty_round V dp off =
     bnd (rd (\<lambda>s. i_size (itable s dp))) (\<lambda>n.
     if off < n then
       bnd (readi V dp DLocal off 16) (\<lambda>(r, de).
       if r \<noteq> 16 then panic ''isdirempty: readi'' else
       ret (if de_inum de \<noteq> 0 then Inr False else Inl (off + 16)))
     else ret (Inr True))"

definition isdirempty :: "('z fsst_scheme) vm \<Rightarrow> nat \<Rightarrow> ('z fsst_scheme, bool) kop" where
  "isdirempty V dp = loop (\<lambda>off. 2 ^ 32 - unat off) (dirempty_round V dp) 32"

definition DOT :: byte where "DOT = 46"

definition is_dots :: "Cstring.buf \<Rightarrow> bool" where
  "is_dots name \<longleftrightarrow> namecmp name (cbuf [DOT]) = 0 \<or> namecmp name (cbuf [DOT, DOT]) = 0"

definition unlink_bad :: "nat \<Rightarrow> ('z fsst_scheme, addr) kop" where
  "unlink_bad dp = thn (iunlockput dp) end_fail"

text \<open>Both inodes are locked: the entry is cleared, and the links are dropped.\<close>

definition unlink_entry :: "('z fsst_scheme) vm \<Rightarrow> nat \<Rightarrow> nat \<Rightarrow> u32 \<Rightarrow> ('z fsst_scheme, addr) kop" where
  "unlink_entry V dp ip off =
     bnd (writei V dp (SLocal (replicate 16 0)) off 16) (\<lambda>w.
     if w \<noteq> 16 then panic ''unlink: writei'' else
     bnd (rd (\<lambda>s. i_type (itable s ip))) (\<lambda>ty.
     thn (if ty = T_DIR then thn (add_link dp (- 1)) (iupdate dp) else ret ()) (
     thn (iunlockput dp) (
     thn (add_link ip (- 1)) (
     thn (iupdate ip) (
     thn (iunlockput ip) (
     thn end_op
     (ret 0))))))))"

definition sys_unlink :: "('z filest_scheme) vm \<Rightarrow> ('z filest_scheme, addr) kop" where
  "sys_unlink V =
     bnd (argstr V 0 MAXPATH) (\<lambda>(r, path).
     if r < 0 then ret (- 1) else
     thn begin_op (
     bnd (nameiparent V path (\<lambda>_. 0)) (\<lambda>(dpo, name). case dpo of None \<Rightarrow> end_fail | Some dp \<Rightarrow>
     thn (ilock (Some dp)) (
     if is_dots name then unlink_bad dp else
     bnd (dirlookup V dp name) (\<lambda>r. case r of None \<Rightarrow> unlink_bad dp | Some (ip, off) \<Rightarrow>
     thn (ilock (Some ip)) (
     bnd (rd (\<lambda>s. itable s ip)) (\<lambda>p.
     if sint (i_nlink p) < 1 then panic ''unlink: nlink < 1'' else
     bnd (if i_type p = T_DIR then isdirempty V ip else ret True) (\<lambda>ok.
     if \<not> ok then thn (iunlockput ip) (unlink_bad dp)
     else unlink_entry V dp ip off))))))))"

section \<open>Creating and opening\<close>

definition create_fail :: "nat \<Rightarrow> nat \<Rightarrow> ('z fsst_scheme, nat option) kop" where
  "create_fail dp ip =
     thn (upd_inode ip (\<lambda>p. p\<lparr>i_nlink := 0\<rparr>)) (
     thn (iupdate ip) (
     thn (iunlockput ip) (
     thn (iunlockput dp)
     (ret None))))"

text \<open>The entries "." and ".." of a new directory; whether both could be written.\<close>

definition make_dots :: "('z fsst_scheme) vm \<Rightarrow> nat \<Rightarrow> nat \<Rightarrow> ('z fsst_scheme, bool) kop" where
  "make_dots V dp ip =
     bnd (rd (\<lambda>s. i_inum (itable s ip))) (\<lambda>n.
     bnd (dirlink V ip (cbuf [DOT]) n) (\<lambda>r.
     if r < 0 then ret False else
     bnd (rd (\<lambda>s. i_inum (itable s dp))) (\<lambda>n.
     bnd (dirlink V ip (cbuf [DOT, DOT]) n) (\<lambda>r. ret (r \<ge> 0)))))"

definition create_new :: "('z fsst_scheme) vm \<Rightarrow> nat \<Rightarrow> Cstring.buf \<Rightarrow> nat \<Rightarrow> u16 \<Rightarrow> u16 \<Rightarrow> u16 \<Rightarrow>
    ('z fsst_scheme, nat option) kop" where
  "create_new V dp name ip ty mj mn =
     thn (ilock (Some ip)) (
     thn (upd_inode ip (\<lambda>p. p\<lparr>i_major := mj, i_minor := mn, i_nlink := 1\<rparr>)) (
     thn (iupdate ip) (
     bnd (if ty = T_DIR then make_dots V dp ip else ret True) (\<lambda>ok.
     if \<not> ok then create_fail dp ip else
     bnd (rd (\<lambda>s. i_inum (itable s ip))) (\<lambda>n.
     bnd (dirlink V dp name n) (\<lambda>r.
     if r < 0 then create_fail dp ip else
     thn (if ty = T_DIR then thn (add_link dp 1) (iupdate dp) else ret ()) (
     thn (iunlockput dp)
     (ret (Some ip)))))))))"

definition create :: "('z fsst_scheme) vm \<Rightarrow> byte list \<Rightarrow> u16 \<Rightarrow> u16 \<Rightarrow> u16 \<Rightarrow> ('z fsst_scheme, nat option) kop" where
  "create V path ty mj mn =
     bnd (nameiparent V path (\<lambda>_. 0)) (\<lambda>(dpo, name). case dpo of None \<Rightarrow> ret None | Some dp \<Rightarrow>
     thn (ilock (Some dp)) (
     bnd (dirlookup V dp name) (\<lambda>r. case r of
       Some (ip, off) \<Rightarrow>
         thn (iunlockput dp) (
         thn (ilock (Some ip)) (
         bnd (rd (\<lambda>s. i_type (itable s ip))) (\<lambda>ity.
         if ty = T_FILE \<and> (ity = T_FILE \<or> ity = T_DEVICE) then ret (Some ip)
         else thn (iunlockput ip) (ret None))))
     | None \<Rightarrow>
         bnd (rd (\<lambda>s. i_dev (itable s dp))) (\<lambda>dev.
         bnd (ialloc dev ty) (\<lambda>r. case r of
           None \<Rightarrow> thn (iunlockput dp) (ret None)
         | Some ip \<Rightarrow> create_new V dp name ip ty mj mn)))))"

text \<open>The inode to open, locked; \<open>None\<close>: the call fails.\<close>

definition open_inode :: "('z fsst_scheme) vm \<Rightarrow> byte list \<Rightarrow> u32 \<Rightarrow> ('z fsst_scheme, nat option) kop" where
  "open_inode V path omode =
     (if omode AND O_CREATE \<noteq> 0 then create V path T_FILE 0 0
      else
        bnd (namei V path) (\<lambda>ipo. case ipo of None \<Rightarrow> ret None | Some ip \<Rightarrow>
        thn (ilock (Some ip)) (
        bnd (rd (\<lambda>s. i_type (itable s ip))) (\<lambda>ty.
        if ty = T_DIR \<and> omode \<noteq> O_RDONLY then thn (iunlockput ip) (ret None)
        else ret (Some ip)))))"

definition open_fail :: "nat \<Rightarrow> nat option \<Rightarrow> ('z filest_scheme, addr) kop" where
  "open_fail ip f = thn (close_if f) (thn (iunlockput ip) end_fail)"

definition open_file :: "nat \<Rightarrow> nat \<Rightarrow> u32 \<Rightarrow> ('z filest_scheme, unit) kop" where
  "open_file f ip omode =
     bnd (rd (\<lambda>s. itable s ip)) (\<lambda>p.
     thn (upd_file f (\<lambda>k.
       if i_type p = T_DEVICE then k\<lparr>f_type := FD_DEVICE, f_major := i_major p\<rparr>
       else k\<lparr>f_type := FD_INODE, f_off := 0\<rparr>)) (
     thn (upd_file f (\<lambda>k. k\<lparr>f_ip := Some ip\<rparr>)) (
     thn (upd_file f (\<lambda>k. k\<lparr>f_readable := (if omode AND O_WRONLY = 0 then 1 else 0),
        f_writable := (if omode AND O_WRONLY \<noteq> 0 \<or> omode AND O_RDWR \<noteq> 0 then 1 else 0)\<rparr>))
     (if omode AND O_TRUNC \<noteq> 0 \<and> i_type p = T_FILE then itrunc ip else ret ()))))"

definition sys_open :: "('z filest_scheme) vm \<Rightarrow> ('z filest_scheme, addr) kop" where
  "sys_open V =
     bnd (argint 1) (\<lambda>om.
     let omode = word_of_int om in
     bnd (argstr V 0 MAXPATH) (\<lambda>(r, path).
     if r < 0 then ret (- 1) else
     thn begin_op (
     bnd (open_inode V path omode) (\<lambda>ipo. case ipo of None \<Rightarrow> end_fail | Some ip \<Rightarrow>
     bnd (rd (\<lambda>s. itable s ip)) (\<lambda>p.
     if i_type p = T_DEVICE \<and> \<not> device (i_major p) then thn (iunlockput ip) end_fail else
     bnd filealloc (\<lambda>r. case r of None \<Rightarrow> open_fail ip None | Some f \<Rightarrow>
     bnd (fdalloc f) (\<lambda>fd.
     if fd < 0 then open_fail ip (Some f) else
     thn (open_file f ip omode) (
     thn (iunlock (Some ip)) (
     thn end_op
     (ret (word_of_int fd)))))))))))"

text \<open>\<open>sys_mkdir\<close> and \<open>sys_mknod\<close> once their arguments are fetched.\<close>

definition create_put :: "('z filest_scheme) vm \<Rightarrow> u16 \<Rightarrow> u16 \<Rightarrow> u16 \<Rightarrow> ('z filest_scheme, addr) kop" where
  "create_put V ty mj mn =
     bnd (argstr V 0 MAXPATH) (\<lambda>(r, path).
     if r < 0 then end_fail else
     bnd (create V path ty mj mn) (\<lambda>ipo. case ipo of None \<Rightarrow> end_fail | Some ip \<Rightarrow>
     thn (iunlockput ip) (
     thn end_op
     (ret 0))))"

definition sys_mkdir :: "('z filest_scheme) vm \<Rightarrow> ('z filest_scheme, addr) kop" where
  "sys_mkdir V = thn begin_op (create_put V T_DIR 0 0)"

definition sys_mknod :: "('z filest_scheme) vm \<Rightarrow> ('z filest_scheme, addr) kop" where
  "sys_mknod V =
     thn begin_op (
     bnd (argint 1) (\<lambda>mj.
     bnd (argint 2) (\<lambda>mn.
     create_put V T_DEVICE (word_of_int mj) (word_of_int mn))))"

definition sys_chdir :: "('z filest_scheme) vm \<Rightarrow> ('z filest_scheme, addr) kop" where
  "sys_chdir V =
     bnd myproc_ptr (\<lambda>i.
     thn begin_op (
     bnd (argstr V 0 MAXPATH) (\<lambda>(r, path).
     if r < 0 then end_fail else
     bnd (namei V path) (\<lambda>ipo. case ipo of None \<Rightarrow> end_fail | Some ip \<Rightarrow>
     thn (ilock (Some ip)) (
     bnd (rd (\<lambda>s. i_type (itable s ip))) (\<lambda>ty.
     if ty \<noteq> T_DIR then thn (iunlockput ip) end_fail else
     thn (iunlock (Some ip)) (
     bnd (rd (\<lambda>s. cwd (procs s i))) (\<lambda>c.
     thn (deref c iput) (
     thn end_op (
     thn (upd_proc i (\<lambda>p. p\<lparr>cwd := Some ip\<rparr>))
     (ret 0)))))))))))"

section \<open>exec and pipe\<close>

text \<open>
  The arguments of exec are copied into pages of their own.  The answer is whether all of them were,
  and the pages taken.
\<close>

definition arg_round :: "('z pst_scheme) vm \<Rightarrow> addr \<Rightarrow> addr list \<Rightarrow> ('z pst_scheme, addr list + bool \<times> addr list) kop" where
  "arg_round V uargv as =
     (if length as \<ge> MAXARG then ret (Inr (False, as)) else
      bnd (fetchaddr V (uargv + 8 * of_nat (length as))) (\<lambda>(r, uarg).
      if r < 0 then ret (Inr (False, as)) else
      if uarg = 0 then ret (Inr (True, as)) else
      bnd kalloc (\<lambda>pa.
      if pa = 0 then ret (Inr (False, as)) else
      bnd (fetchstr V uarg 4096) (\<lambda>(r, str).
      thn (upd (\<lambda>s. s\<lparr>mem := store_bytes (mem s) (unat pa) (if r < 0 then str else str @ [0])\<rparr>))
      (ret (if r < 0 then Inr (False, as @ [pa]) else Inl (as @ [pa])))))))"

definition sys_exec :: "('z filest_scheme) vm \<Rightarrow> ('z filest_scheme, addr) kop" where
  "sys_exec V =
     bnd (argaddr 1) (\<lambda>uargv.
     bnd (argstr V 0 MAXPATH) (\<lambda>(r, path).
     if r < 0 then ret (- 1) else
     bnd (loop (\<lambda>as. MAXARG - length as) (arg_round V uargv) []) (\<lambda>(ok, as).
     bnd (if ok then kexec V path as else ret (- 1)) (\<lambda>v.
     thn (foreach as kfree)
     (ret (word_of_int v))))))"

definition pipe_undo :: "int \<Rightarrow> int \<Rightarrow> nat \<Rightarrow> nat \<Rightarrow> ('z filest_scheme, addr) kop" where
  "pipe_undo fd0 fd1 rdf wrf =
     thn (if fd0 \<ge> 0 then clear_fd fd0 else ret ()) (
     thn (if fd1 \<ge> 0 then clear_fd fd1 else ret ()) (
     thn (fileclose rdf) (
     thn (fileclose wrf)
     (ret (- 1)))))"

definition sys_pipe :: "('z filest_scheme) vm \<Rightarrow> ('z filest_scheme, addr) kop" where
  "sys_pipe V =
     bnd myproc_ptr (\<lambda>i.
     bnd (argaddr 0) (\<lambda>fdarray.
     bnd pipealloc (\<lambda>r. case r of None \<Rightarrow> ret (- 1) | Some (rdf, wrf) \<Rightarrow>
     bnd (fdalloc rdf) (\<lambda>fd0.
     if fd0 < 0 then pipe_undo (- 1) (- 1) rdf wrf else
     bnd (fdalloc wrf) (\<lambda>fd1.
     if fd1 < 0 then pipe_undo fd0 (- 1) rdf wrf else
     bnd (rd (\<lambda>s. pagetable (procs s i))) (\<lambda>pt.
     bnd (v_copyout V pt fdarray (int_bytes fd0)) (\<lambda>r.
     if r < 0 then pipe_undo fd0 fd1 rdf wrf else
     bnd (rd (\<lambda>s. pagetable (procs s i))) (\<lambda>pt.
     bnd (v_copyout V pt (fdarray + 4) (int_bytes fd1)) (\<lambda>r.
     if r < 0 then pipe_undo fd0 fd1 rdf wrf else ret 0)))))))))"

end
