(* ===== verification/Syscall.thy ===== *)
theory Syscall
  imports Sysfile
begin

text \<open>
  kernel/sysproc.c, kernel/syscall.c and kernel/syscall.h: the system calls on processes, and the
  dispatch of a system call by its number.
\<close>

section \<open>System calls on processes (sysproc.c)\<close>

definition sys_exit :: "('z filest_scheme, addr) kop" where
  "sys_exit = bnd (argint 0) (\<lambda>n. kexit n)"

definition sys_getpid :: "('z pst_scheme, addr) kop" where
  "sys_getpid = bnd myproc_ptr (\<lambda>i. rd (\<lambda>s. word_of_int (pid (procs s i))))"

definition sys_fork :: "('z filest_scheme) vm \<Rightarrow> ('z filest_scheme, addr) kop" where
  "sys_fork V = bnd (kfork V) (\<lambda>v. ret (word_of_int v))"

definition sys_wait :: "('z pst_scheme) vm \<Rightarrow> ('z pst_scheme, addr) kop" where
  "sys_wait V =
     bnd (argaddr 0) (\<lambda>p.
     bnd (kwait V p) (\<lambda>v. ret (word_of_int v)))"

text \<open>The increment is an \<open>int\<close>, sign-extended when it is added to the size.\<close>

definition sys_sbrk :: "('z pst_scheme) vm \<Rightarrow> ('z pst_scheme, addr) kop" where
  "sys_sbrk V =
     bnd (argint 0) (\<lambda>n.
     bnd (argint 1) (\<lambda>t.
     bnd myproc_ptr (\<lambda>i.
     bnd (rd (\<lambda>s. sz (procs s i))) (\<lambda>a.
     if t = v_SBRK_EAGER V \<or> n < 0 then
       bnd (growproc V n) (\<lambda>r. ret (if r < 0 then - 1 else a))
     else if a + word_of_int n < a then ret (- 1)
     else
       thn (upd_proc i (\<lambda>p. p\<lparr>sz := sz p + word_of_int n\<rparr>))
       (ret a)))))"

definition pause_round :: "nat \<Rightarrow> u32 \<Rightarrow> u32 \<Rightarrow> ('z pst_scheme, unit + addr) kop" where
  "pause_round i ticks0 n =
     bnd (rd ticks) (\<lambda>tk.
     if tk - ticks0 < n then
       bnd (killed i) (\<lambda>k.
       if k \<noteq> 0 then thn (release L_ticks) (ret (Inr (- 1)))
       else thn (sleep C_ticks L_ticks) (ret (Inl ())))
     else thn (release L_ticks) (ret (Inr 0)))"

definition sys_pause :: "('z pst_scheme, addr) kop" where
  "sys_pause =
     bnd (argint 0) (\<lambda>n0.
     let n = (if n0 < 0 then 0 else n0) in
     thn (acquire L_ticks) (
     bnd (rd ticks) (\<lambda>ticks0.
     bnd myproc_ptr (\<lambda>i.
     loop (\<lambda>_. 0) (\<lambda>_. pause_round i ticks0 (word_of_int n)) ()))))"

definition sys_kill :: "('z pst_scheme, addr) kop" where
  "sys_kill = bnd (argint 0) (\<lambda>pd. bnd (kkill pd) (\<lambda>v. ret (word_of_int v)))"

definition sys_uptime :: "('z pst_scheme, addr) kop" where
  "sys_uptime =
     thn (acquire L_ticks) (
     bnd (rd ticks) (\<lambda>x.
     thn (release L_ticks)
     (ret (ucast x))))"

definition sys_getlev :: "('z pst_scheme, addr) kop" where
  "sys_getlev = bnd myproc_ptr (\<lambda>i. rd (\<lambda>s. word_of_int (queue_level (procs s i))))"

definition sys_getpinfo :: "('z pst_scheme, addr) kop" where
  "sys_getpinfo = bnd myproc_ptr (\<lambda>i. rd (\<lambda>s. word_of_int (total_ticks (procs s i))))"

section \<open>Dispatch (syscall.h, syscall.c)\<close>

datatype sysno =
    SYS_fork | SYS_exit | SYS_wait | SYS_pipe | SYS_read | SYS_kill | SYS_exec | SYS_fstat | SYS_chdir
  | SYS_dup | SYS_getpid | SYS_sbrk | SYS_pause | SYS_uptime | SYS_open | SYS_write | SYS_mknod
  | SYS_unlink | SYS_link | SYS_mkdir | SYS_close | SYS_getlev | SYS_getpinfo

text \<open>The array of functions: entry 0 is empty, and the others follow the numbers of syscall.h.\<close>

definition syscalls :: "sysno option list" where
  "syscalls = None # map Some [SYS_fork, SYS_exit, SYS_wait, SYS_pipe, SYS_read, SYS_kill, SYS_exec,
     SYS_fstat, SYS_chdir, SYS_dup, SYS_getpid, SYS_sbrk, SYS_pause, SYS_uptime, SYS_open, SYS_write,
     SYS_mknod, SYS_unlink, SYS_link, SYS_mkdir, SYS_close, SYS_getlev, SYS_getpinfo]"

definition run_syscall :: "('z filest_scheme) vm \<Rightarrow> sysno \<Rightarrow> ('z filest_scheme, addr) kop" where
  "run_syscall V c = (case c of
       SYS_fork \<Rightarrow> sys_fork V | SYS_exit \<Rightarrow> sys_exit | SYS_wait \<Rightarrow> sys_wait V | SYS_pipe \<Rightarrow> sys_pipe V
     | SYS_read \<Rightarrow> sys_read V | SYS_kill \<Rightarrow> sys_kill | SYS_exec \<Rightarrow> sys_exec V | SYS_fstat \<Rightarrow> sys_fstat V
     | SYS_chdir \<Rightarrow> sys_chdir V | SYS_dup \<Rightarrow> sys_dup | SYS_getpid \<Rightarrow> sys_getpid | SYS_sbrk \<Rightarrow> sys_sbrk V
     | SYS_pause \<Rightarrow> sys_pause | SYS_uptime \<Rightarrow> sys_uptime | SYS_open \<Rightarrow> sys_open V | SYS_write \<Rightarrow> sys_write V
     | SYS_mknod \<Rightarrow> sys_mknod V | SYS_unlink \<Rightarrow> sys_unlink V | SYS_link \<Rightarrow> sys_link V
     | SYS_mkdir \<Rightarrow> sys_mkdir V | SYS_close \<Rightarrow> sys_close | SYS_getlev \<Rightarrow> sys_getlev
     | SYS_getpinfo \<Rightarrow> sys_getpinfo)"

definition syscall_of :: "addr \<Rightarrow> sysno option" where
  "syscall_of a7 =
     (let num = sint (ucast a7 :: u32)
      in if 0 < num \<and> num < int (length syscalls) then syscalls ! nat num else None)"

definition unknown_call :: "nat \<Rightarrow> addr \<Rightarrow> ('z pst_scheme, unit) kop" where
  "unknown_call i a7 =
     bnd (rd (\<lambda>s. procs s i)) (\<lambda>p.
     thn (printf (''%d %s: unknown sys call %d'' @ [CHR 0x0A])
       [VW (word_of_int (pid p)), VS (Some (name_chars (pname p))), VW a7])
     (ret ()))"

definition syscall :: "('z filest_scheme) vm \<Rightarrow> ('z filest_scheme, unit) kop" where
  "syscall V =
     bnd myproc_ptr (\<lambda>i.
     bnd (rd (\<lambda>s. uregs (tframes s (ptrapframe (procs s i))) (R_a 7))) (\<lambda>a7.
     bnd (case syscall_of a7 of
            Some c \<Rightarrow> run_syscall V c
          | None \<Rightarrow> thn (unknown_call i a7) (ret (- 1))) (\<lambda>v.
     upd_tf i (set_reg (R_a 0) v))))"

end
