(* ===== verification/Trap.thy ===== *)
theory Trap
  imports Syscall
begin

text \<open>
  kernel/trap.c and kernel/plic.c, and \<open>forkret\<close> of kernel/proc.c: interrupts, exceptions and
  system calls from user space, and the return to it.
\<close>

unbundle bit_operations_syntax

section \<open>State\<close>

text \<open>
  \<open>plic\<close> holds the registers of the interrupt controller by their address; the device changes them.
  \<open>first\<close> is the static variable of \<open>forkret\<close>.
\<close>

record trapst = filest +
  plic :: "addr \<Rightarrow> u32"
  first_ret :: bool

lemma plic_frame [simp, frame_simps]:
  "cpuid (plic_update g s) = cpuid s" "mycpu (plic_update g s) = mycpu s"
  "intr_get (plic_update g s) = intr_get s" "is_holding L (plic_update g s) = is_holding L s"
  "lock_free L (plic_update g s) = lock_free L s" "cpu_wf (plic_update g s) = cpu_wf s"
  "plocks_free (plic_update g s) = plocks_free s"
  "other_plocks_free (plic_update g s) = other_plocks_free s"
  "kmem_ready (plic_update g s) = kmem_ready s"
  "touch (plic_update g s) = plic_update g (touch s)"
  "acq L (plic_update g s) = plic_update g (acq L s)" "rel L (plic_update g s) = plic_update g (rel L s)"
  "intr_on (plic_update g s) = plic_update g (intr_on s)"
  "intr_off (plic_update g s) = plic_update g (intr_off s)"
  "set_mycpu k (plic_update g s) = plic_update g (set_mycpu k s)"
  "wakeup_st ch (plic_update g s) = plic_update g (wakeup_st ch s)"
  "kalloc_st (plic_update g s) = plic_update g (kalloc_st s)"
  "kfree_st pa (plic_update g s) = plic_update g (kfree_st pa s)"
  by (simp_all add: base_defs intr_get_def r_sstatus_def intr_on_def intr_off_def w_sstatus_def
      wakeup_st_def kalloc_st_def kfree_st_def plocks_free_def other_plocks_free_def kmem_ready_def)

lemma plic_kept [simp, frame_simps]:
  "plic (touch s) = plic s" "plic (acq L s) = plic s" "plic (rel L s) = plic s" "plic (intr_on s) = plic s"
  "plic (intr_off s) = plic s" "plic (set_mycpu k s) = plic s" "plic (wakeup_st ch s) = plic s"
  "plic (kalloc_st s) = plic s" "plic (kfree_st pa s) = plic s"
  by (simp_all add: base_defs intr_on_def intr_off_def w_sstatus_def wakeup_st_def kalloc_st_def
      kfree_st_def)

lemma plic_slept [simp]: "plic (sleep_st ch lk i s) = plic s" "plic (woke_st lk i ia s) = plic s"
  by (simp_all add: sleep_st_def woke_st_def)

lemma plic_calm [simp]:
  "running i (plic_update g s) = running i s" "under lk i (plic_update g s) = under lk i s"
  "calm (plic_update g s) t = calm s t" "calm s (plic_update g t) = calm s t"
  by (simp_all add: running_def under_def sleep_call_def calm_def)

lemma first_ret_frame [simp, frame_simps]:
  "cpuid (first_ret_update g s) = cpuid s" "mycpu (first_ret_update g s) = mycpu s"
  "intr_get (first_ret_update g s) = intr_get s" "is_holding L (first_ret_update g s) = is_holding L s"
  "lock_free L (first_ret_update g s) = lock_free L s" "cpu_wf (first_ret_update g s) = cpu_wf s"
  "plocks_free (first_ret_update g s) = plocks_free s"
  "other_plocks_free (first_ret_update g s) = other_plocks_free s"
  "kmem_ready (first_ret_update g s) = kmem_ready s"
  "touch (first_ret_update g s) = first_ret_update g (touch s)"
  "acq L (first_ret_update g s) = first_ret_update g (acq L s)" "rel L (first_ret_update g s) = first_ret_update g (rel L s)"
  "intr_on (first_ret_update g s) = first_ret_update g (intr_on s)"
  "intr_off (first_ret_update g s) = first_ret_update g (intr_off s)"
  "set_mycpu k (first_ret_update g s) = first_ret_update g (set_mycpu k s)"
  "wakeup_st ch (first_ret_update g s) = first_ret_update g (wakeup_st ch s)"
  "kalloc_st (first_ret_update g s) = first_ret_update g (kalloc_st s)"
  "kfree_st pa (first_ret_update g s) = first_ret_update g (kfree_st pa s)"
  by (simp_all add: base_defs intr_get_def r_sstatus_def intr_on_def intr_off_def w_sstatus_def
      wakeup_st_def kalloc_st_def kfree_st_def plocks_free_def other_plocks_free_def kmem_ready_def)

lemma first_ret_kept [simp, frame_simps]:
  "first_ret (touch s) = first_ret s" "first_ret (acq L s) = first_ret s" "first_ret (rel L s) = first_ret s" "first_ret (intr_on s) = first_ret s"
  "first_ret (intr_off s) = first_ret s" "first_ret (set_mycpu k s) = first_ret s" "first_ret (wakeup_st ch s) = first_ret s"
  "first_ret (kalloc_st s) = first_ret s" "first_ret (kfree_st pa s) = first_ret s"
  by (simp_all add: base_defs intr_on_def intr_off_def w_sstatus_def wakeup_st_def kalloc_st_def
      kfree_st_def)

lemma first_ret_slept [simp]: "first_ret (sleep_st ch lk i s) = first_ret s" "first_ret (woke_st lk i ia s) = first_ret s"
  by (simp_all add: sleep_st_def woke_st_def)

lemma first_ret_calm [simp]:
  "running i (first_ret_update g s) = running i s" "under lk i (first_ret_update g s) = under lk i s"
  "calm (first_ret_update g s) t = calm s t" "calm s (first_ret_update g t) = calm s t"
  by (simp_all add: running_def under_def sleep_call_def calm_def)

section \<open>The interrupt controller (plic.c, memlayout.h)\<close>

definition PLIC :: addr where "PLIC = 0x0c000000"
definition PLIC_SENABLE :: "nat \<Rightarrow> addr" where "PLIC_SENABLE h = PLIC + 0x2080 + of_nat h * 0x100"
definition PLIC_SPRIORITY :: "nat \<Rightarrow> addr" where "PLIC_SPRIORITY h = PLIC + 0x201000 + of_nat h * 0x2000"
definition PLIC_SCLAIM :: "nat \<Rightarrow> addr" where "PLIC_SCLAIM h = PLIC + 0x201004 + of_nat h * 0x2000"

definition write_plic :: "addr \<Rightarrow> u32 \<Rightarrow> ('z trapst_scheme, unit) kop" where
  "write_plic a v = upd (\<lambda>s. s\<lparr>plic := (plic s)(a := v)\<rparr>)"

lemma write_plic_app [kop_simps, simp]: "write_plic a v s e = Ret () (s\<lparr>plic := (plic s)(a := v)\<rparr>) e"
  by (simp add: write_plic_def)

definition plicinit :: "('z trapst_scheme, unit) kop" where
  "plicinit =
     thn (write_plic (PLIC + word_of_int (UART0_IRQ * 4)) 1)
     (write_plic (PLIC + word_of_int (VIRTIO0_IRQ * 4)) 1)"

definition plicinithart :: "('z trapst_scheme, unit) kop" where
  "plicinithart =
     bnd (rd cpuid) (\<lambda>h.
     thn (write_plic (PLIC_SENABLE h) (push_bit (nat UART0_IRQ) 1 OR push_bit (nat VIRTIO0_IRQ) 1))
     (write_plic (PLIC_SPRIORITY h) 0))"

definition plic_claim :: "('z trapst_scheme, int) kop" where
  "plic_claim = bnd (rd cpuid) (\<lambda>h. rd (\<lambda>s. sint (plic s (PLIC_SCLAIM h))))"

definition plic_complete :: "int \<Rightarrow> ('z trapst_scheme, unit) kop" where
  "plic_complete irq = bnd (rd cpuid) (\<lambda>h. write_plic (PLIC_SCLAIM h) (word_of_int irq))"

section \<open>Interrupts (trap.c)\<close>

definition trapinit :: "('z kbase_scheme, unit) kop" where
  "trapinit = initlock L_ticks ''time''"

definition trapinithart :: "('z pst_scheme, unit) kop" where
  "trapinithart = bnd (rd (\<lambda>s. syms s ''kernelvec'')) (\<lambda>v. upd (w_stvec v))"

definition clockintr :: "('z pst_scheme, unit) kop" where
  "clockintr =
     bnd (rd cpuid) (\<lambda>c.
     thn (if c = 0 then
            thn (acquire L_ticks) (
            thn (upd (\<lambda>s. s\<lparr>ticks := ticks s + 1\<rparr>)) (
            thn (wakeup (Some C_ticks))
            (release L_ticks)))
          else ret ()) (
     bnd myproc (\<lambda>me.
     thn (case me of None \<Rightarrow> ret () | Some i \<Rightarrow>
            bnd (rd (\<lambda>s. pstate (procs s i))) (\<lambda>st.
            if st = RUNNING then upd_proc i (\<lambda>p. p\<lparr>wait_time := 0, total_ticks := total_ticks p + 1\<rparr>)
            else ret ()))
     (upd (\<lambda>s. w_stimecmp (r_time s + 1000000) s)))))"

definition devintr :: "('z trapst_scheme, int) kop" where
  "devintr =
     bnd (rd r_scause) (\<lambda>scause.
     if scause = 0x8000000000000009 then
       bnd plic_claim (\<lambda>irq.
       thn (if irq = UART0_IRQ then uartintr
            else if irq = VIRTIO0_IRQ then virtio_disk_intr
            else if irq \<noteq> 0 then
              thn (printf (''unexpected interrupt irq=%d'' @ [CHR 0x0A]) [VW (word_of_int irq)]) (ret ())
            else ret ()) (
       thn (if irq \<noteq> 0 then plic_complete irq else ret ())
       (ret 1)))
     else if scause = 0x8000000000000005 then thn clockintr (ret 2)
     else ret 0)"

section \<open>Return to user space\<close>

definition uservec_offset :: "'z pst_scheme \<Rightarrow> string \<Rightarrow> addr" where
  "uservec_offset s nm = TRAMPOLINE + (syms s nm - syms s ''trampoline'')"

definition prepare_return :: "('z pst_scheme, unit) kop" where
  "prepare_return =
     bnd myproc_ptr (\<lambda>i.
     thn (upd intr_off) (
     thn (upd (\<lambda>s. w_stvec (uservec_offset s ''uservec'') s)) (
     bnd (rd (\<lambda>s. s)) (\<lambda>s.
     thn (upd_tf i (\<lambda>t. t\<lparr>kernel_satp := r_satp s, kernel_sp := kstack (procs s i) + PGSIZE,
        kernel_trap := syms s ''usertrap'', kernel_hartid := of_nat (r_tp s)\<rparr>)) (
     thn (upd (\<lambda>s. w_sstatus ((r_sstatus s AND NOT SSTATUS_SPP) OR SSTATUS_SPIE) s))
     (upd (\<lambda>s. w_sepc (epc (tframes s (ptrapframe (procs s i)))) s)))))))"

text \<open>The value of \<open>usertrap\<close> is the user page table, for trampoline.S to switch to.\<close>

definition user_satp :: "nat \<Rightarrow> ('z pst_scheme, addr) kop" where
  "user_satp i = rd (\<lambda>s. MAKE_SATP (pagetable (procs s i)))"

definition trap_syscall :: "('z trapst_scheme) vm \<Rightarrow> nat \<Rightarrow> ('z trapst_scheme, unit) kop" where
  "trap_syscall V i =
     bnd (killed i) (\<lambda>k.
     thn (if k \<noteq> 0 then kexit (- 1) else ret ()) (
     thn (upd_tf i (\<lambda>t. t\<lparr>epc := epc t + 4\<rparr>)) (
     thn (upd intr_on)
     (syscall V))))"

definition trap_unexpected :: "nat \<Rightarrow> ('z trapst_scheme, unit) kop" where
  "trap_unexpected i =
     bnd (rd (\<lambda>s. s)) (\<lambda>s.
     thn (printf (''usertrap(): unexpected scause 0x%lx pid=%d'' @ [CHR 0x0A])
       [VW (r_scause s), VW (word_of_int (pid (procs s i)))]) (
     bnd (rd (\<lambda>s. s)) (\<lambda>s.
     thn (printf (''            sepc=0x%lx stval=0x%lx'' @ [CHR 0x0A]) [VW (r_sepc s), VW (r_stval s)])
     (setkilled i))))"

text \<open>An exception or an interrupt from user space; the value is that of \<open>devintr\<close>.\<close>

definition trap_other :: "('z trapst_scheme) vm \<Rightarrow> nat \<Rightarrow> ('z trapst_scheme, int) kop" where
  "trap_other V i =
     bnd devintr (\<lambda>d.
     if d \<noteq> 0 then ret d else
     bnd (rd r_scause) (\<lambda>c.
     bnd (if c = 15 \<or> c = 13 then
            bnd (rd (\<lambda>s. (pagetable (procs s i), r_stval s))) (\<lambda>(pt, va).
            bnd (v_vmfault V pt va (if c = 13 then 1 else 0)) (\<lambda>pa. ret (pa \<noteq> 0)))
          else ret False) (\<lambda>ok.
     if ok then ret 0 else thn (trap_unexpected i) (ret 0))))"

definition usertrap :: "('z trapst_scheme) vm \<Rightarrow> ('z trapst_scheme, addr) kop" where
  "usertrap V =
     bnd (rd r_sstatus) (\<lambda>x.
     if x AND SSTATUS_SPP \<noteq> 0 then panic ''usertrap: not from user mode'' else
     thn (bnd (rd (\<lambda>s. syms s ''kernelvec'')) (\<lambda>v. upd (w_stvec v))) (
     bnd myproc_ptr (\<lambda>i.
     bnd (rd r_sepc) (\<lambda>pc.
     thn (upd_tf i (\<lambda>t. t\<lparr>epc := pc\<rparr>)) (
     bnd (rd r_scause) (\<lambda>c.
     bnd (if c = 8 then thn (trap_syscall V i) (ret 0) else trap_other V i) (\<lambda>which_dev.
     bnd (killed i) (\<lambda>k.
     thn (if k \<noteq> 0 then kexit (- 1) else ret ()) (
     thn (if which_dev = 2 then yield else ret ()) (
     thn prepare_return
     (user_satp i)))))))))))"

definition kerneltrap :: "('z trapst_scheme, unit) kop" where
  "kerneltrap =
     bnd (rd (\<lambda>s. s)) (\<lambda>s0.
     if r_sstatus s0 AND SSTATUS_SPP = 0 then panic ''kerneltrap: not from supervisor mode'' else
     if intr_get s0 then panic ''kerneltrap: interrupts enabled'' else
     bnd devintr (\<lambda>which_dev.
     if which_dev = 0 then
       bnd (rd (\<lambda>s. s)) (\<lambda>s.
       thn (printf (''scause=0x%lx sepc=0x%lx stval=0x%lx'' @ [CHR 0x0A])
         [VW (r_scause s0), VW (r_sepc s), VW (r_stval s)])
       (panic ''kerneltrap''))
     else
       bnd (if which_dev = 2 then myproc else ret None) (\<lambda>me.
       thn (if me \<noteq> None then yield else ret ()) (
       thn (upd (w_sepc (r_sepc s0)))
       (upd (w_sstatus (r_sstatus s0)))))))"

section \<open>The first return of a process (proc.c)\<close>

text \<open>
  The path and the argument strings are constants of the kernel; \<open>init_arg\<close> is where the linker put
  the argument.  The value is what the jump to trampoline.S passes.
\<close>

definition init_path :: "byte list" where
  "init_path = map of_char ''/init''"

definition forkret :: "('z trapst_scheme) vm \<Rightarrow> ('z trapst_scheme, addr) kop" where
  "forkret V =
     bnd myproc_ptr (\<lambda>i.
     thn (release (L_proc i)) (
     bnd (rd first_ret) (\<lambda>first.
     thn (if first then
            thn (fsinit ROOTDEV) (
            thn (upd (\<lambda>s. s\<lparr>first_ret := False\<rparr>)) (
            bnd (rd (\<lambda>s. syms s ''init_arg'')) (\<lambda>arg.
            bnd (kexec V init_path [arg]) (\<lambda>v.
            thn (upd_tf i (set_reg (R_a 0) (word_of_int v)))
            (bnd (rd (\<lambda>s. uregs (tframes s (ptrapframe (procs s i))) (R_a 0))) (\<lambda>a0.
             if a0 = - 1 then panic ''exec'' else ret ()))))))
          else ret ()) (
     thn prepare_return
     (user_satp i)))))"

end
