(* ===== verification/Boot.thy ===== *)
theory Boot
  imports Trap Sched
begin

text \<open>
  kernel/start.c and kernel/main.c, and the machine-mode registers of kernel/riscv.h: from the entry
  of a core to the scheduler.
\<close>

unbundle bit_operations_syntax

section \<open>Machine-mode registers (riscv.h)\<close>

record mcsrs =
  m_hartid :: addr
  m_mstatus :: addr
  m_mepc :: addr
  m_medeleg :: addr
  m_mideleg :: addr
  m_sie :: addr
  m_mie :: addr
  m_menvcfg :: addr
  m_mcounteren :: addr
  m_pmpaddr0 :: addr
  m_pmpcfg0 :: addr

text \<open>\<open>started\<close> is the static variable of main.c.\<close>

record bootst = trapst +
  mcsr :: "nat \<Rightarrow> mcsrs"
  started :: bool

definition r_mhartid :: "'z bootst_scheme \<Rightarrow> addr" where "r_mhartid s = m_hartid (mcsr s (hart s))"
definition r_mstatus :: "'z bootst_scheme \<Rightarrow> addr" where "r_mstatus s = m_mstatus (mcsr s (hart s))"
definition r_medeleg :: "'z bootst_scheme \<Rightarrow> addr" where "r_medeleg s = m_medeleg (mcsr s (hart s))"
definition r_mideleg :: "'z bootst_scheme \<Rightarrow> addr" where "r_mideleg s = m_mideleg (mcsr s (hart s))"
definition r_sie :: "'z bootst_scheme \<Rightarrow> addr" where "r_sie s = m_sie (mcsr s (hart s))"
definition r_mie :: "'z bootst_scheme \<Rightarrow> addr" where "r_mie s = m_mie (mcsr s (hart s))"
definition r_menvcfg :: "'z bootst_scheme \<Rightarrow> addr" where "r_menvcfg s = m_menvcfg (mcsr s (hart s))"
definition r_mcounteren :: "'z bootst_scheme \<Rightarrow> addr" where "r_mcounteren s = m_mcounteren (mcsr s (hart s))"

definition w_mstatus :: "addr \<Rightarrow> 'z bootst_scheme \<Rightarrow> 'z bootst_scheme" where
  "w_mstatus x s = s\<lparr>mcsr := (mcsr s)(hart s := (mcsr s (hart s))\<lparr>m_mstatus := x\<rparr>)\<rparr>"
definition w_mepc :: "addr \<Rightarrow> 'z bootst_scheme \<Rightarrow> 'z bootst_scheme" where
  "w_mepc x s = s\<lparr>mcsr := (mcsr s)(hart s := (mcsr s (hart s))\<lparr>m_mepc := x\<rparr>)\<rparr>"
definition w_medeleg :: "addr \<Rightarrow> 'z bootst_scheme \<Rightarrow> 'z bootst_scheme" where
  "w_medeleg x s = s\<lparr>mcsr := (mcsr s)(hart s := (mcsr s (hart s))\<lparr>m_medeleg := x\<rparr>)\<rparr>"
definition w_mideleg :: "addr \<Rightarrow> 'z bootst_scheme \<Rightarrow> 'z bootst_scheme" where
  "w_mideleg x s = s\<lparr>mcsr := (mcsr s)(hart s := (mcsr s (hart s))\<lparr>m_mideleg := x\<rparr>)\<rparr>"
definition w_sie :: "addr \<Rightarrow> 'z bootst_scheme \<Rightarrow> 'z bootst_scheme" where
  "w_sie x s = s\<lparr>mcsr := (mcsr s)(hart s := (mcsr s (hart s))\<lparr>m_sie := x\<rparr>)\<rparr>"
definition w_mie :: "addr \<Rightarrow> 'z bootst_scheme \<Rightarrow> 'z bootst_scheme" where
  "w_mie x s = s\<lparr>mcsr := (mcsr s)(hart s := (mcsr s (hart s))\<lparr>m_mie := x\<rparr>)\<rparr>"
definition w_menvcfg :: "addr \<Rightarrow> 'z bootst_scheme \<Rightarrow> 'z bootst_scheme" where
  "w_menvcfg x s = s\<lparr>mcsr := (mcsr s)(hart s := (mcsr s (hart s))\<lparr>m_menvcfg := x\<rparr>)\<rparr>"
definition w_mcounteren :: "addr \<Rightarrow> 'z bootst_scheme \<Rightarrow> 'z bootst_scheme" where
  "w_mcounteren x s = s\<lparr>mcsr := (mcsr s)(hart s := (mcsr s (hart s))\<lparr>m_mcounteren := x\<rparr>)\<rparr>"
definition w_pmpaddr0 :: "addr \<Rightarrow> 'z bootst_scheme \<Rightarrow> 'z bootst_scheme" where
  "w_pmpaddr0 x s = s\<lparr>mcsr := (mcsr s)(hart s := (mcsr s (hart s))\<lparr>m_pmpaddr0 := x\<rparr>)\<rparr>"
definition w_pmpcfg0 :: "addr \<Rightarrow> 'z bootst_scheme \<Rightarrow> 'z bootst_scheme" where
  "w_pmpcfg0 x s = s\<lparr>mcsr := (mcsr s)(hart s := (mcsr s (hart s))\<lparr>m_pmpcfg0 := x\<rparr>)\<rparr>"
definition w_satp :: "addr \<Rightarrow> 'z hw_scheme \<Rightarrow> 'z hw_scheme" where
  "w_satp x s = s\<lparr>csr := (csr s)(hart s := (csr s (hart s))\<lparr>satp := x\<rparr>)\<rparr>"
definition w_tp :: "addr \<Rightarrow> 'z hw_scheme \<Rightarrow> 'z hw_scheme" where
  "w_tp x s = s\<lparr>hart := unat x\<rparr>"

definition MSTATUS_MPP_MASK :: addr where "MSTATUS_MPP_MASK = push_bit 11 3"
definition MSTATUS_MPP_S :: addr where "MSTATUS_MPP_S = push_bit 11 1"
definition SIE_SEIE :: addr where "SIE_SEIE = push_bit 9 1"
definition SIE_STIE :: addr where "SIE_STIE = push_bit 5 1"
definition MIE_STIE :: addr where "MIE_STIE = push_bit 5 1"

section \<open>Entry of a core (start.c)\<close>

definition timerinit :: "'z bootst_scheme \<Rightarrow> 'z bootst_scheme" where
  "timerinit s0 =
     (let s1 = w_mie (r_mie s0 OR MIE_STIE) s0;
          s2 = w_menvcfg (r_menvcfg s1 OR push_bit 63 1) s1;
          s3 = w_mcounteren (r_mcounteren s2 OR 2) s2
      in w_stimecmp (r_time s3 + 1000000) s3)"

definition start_regs :: "'z bootst_scheme \<Rightarrow> 'z bootst_scheme" where
  "start_regs s0 =
     (let s1 = w_mstatus ((r_mstatus s0 AND NOT MSTATUS_MPP_MASK) OR MSTATUS_MPP_S) s0;
          s2 = w_mepc (syms s1 ''main'') s1;
          s3 = w_satp 0 s2;
          s4 = w_medeleg 0xffff s3;
          s5 = w_mideleg 0xffff s4;
          s6 = w_sie (r_sie s5 OR SIE_SEIE OR SIE_STIE) s5;
          s7 = w_pmpaddr0 0x3fffffffffffff s6;
          s8 = w_pmpcfg0 0xf s7;
          s9 = timerinit s8
      in w_tp (scast (ucast (r_mhartid s9) :: u32)) s9)"

text \<open>\<open>mret\<close> goes on at \<open>mepc\<close>, in the mode that bits 11 and 12 of \<open>mstatus\<close> name (1: supervisor).\<close>

definition mret :: "'z bootst_scheme \<Rightarrow> addr \<times> addr" where
  "mret s = (drop_bit 11 (r_mstatus s) AND 3, m_mepc (mcsr s (hart s)))"

definition start :: "('z bootst_scheme, addr \<times> addr) kop" where
  "start = thn (upd start_regs) (rd mret)"

section \<open>Initialisation (main.c)\<close>

definition newline_msg :: "string \<Rightarrow> ('z kout_scheme, unit) kop" where
  "newline_msg m = thn (printf (m @ [CHR 0x0A]) []) (ret ())"

definition main_first :: "('z bootst_scheme) vm \<Rightarrow> (u32 \<Rightarrow> u32) \<Rightarrow> ('z bootst_scheme, unit) kop" where
  "main_first V dev =
     thn consoleinit (
     thn printfinit (
     thn (newline_msg []) (
     thn (newline_msg ''xv6 kernel is booting'') (
     thn (newline_msg []) (
     thn kinit (
     thn (v_kvminit V) (
     thn (v_kvminithart V) (
     thn procinit (
     thn trapinit (
     thn trapinithart (
     thn plicinit (
     thn plicinithart (
     thn binit (
     thn iinit (
     thn fileinit (
     thn (virtio_disk_init dev) (
     thn (userinit V)
     (upd (\<lambda>s. s\<lparr>started := True\<rparr>)))))))))))))))))))"

text \<open>A core that finds the kernel not started yet waits until the first core has set the flag.\<close>

definition main_other :: "('z bootst_scheme) vm \<Rightarrow> ('z bootst_scheme, unit) kop" where
  "main_other V =
     bnd (rd started) (\<lambda>go.
     if \<not> go then hang else
     bnd (rd cpuid) (\<lambda>c.
     thn (printf (''hart %d starting'' @ [CHR 0x0A]) [VW (of_nat c)]) (
     thn (v_kvminithart V) (
     thn trapinithart
     plicinithart))))"

text \<open>\<open>dev\<close> is the disk device, and \<open>n\<close> the number of rounds of the scheduler, which never ends.\<close>

definition main :: "('z bootst_scheme) vm \<Rightarrow> (u32 \<Rightarrow> u32) \<Rightarrow> nat \<Rightarrow> ('z bootst_scheme, unit) kop" where
  "main V dev n =
     bnd (rd cpuid) (\<lambda>c.
     thn (if c = 0 then main_first V dev else main_other V)
     (scheduler n))"

end
