(* ===== verification/Layout.thy ===== *)
theory Layout
  imports Fs
begin

text \<open>
  What the file system lays out in bytes: path names as sequences of elements, and inodes in their
  block of the disk.
\<close>

section \<open>Path names\<close>

text \<open>
  The elements of a path as \<open>namex\<close> walks through them: what \<open>skipelem\<close> leaves in \<open>name\<close>, read as a
  string of at most \<open>DIRSIZ\<close> bytes, until it finds none.
\<close>

definition name_str :: "Cstring.buf \<Rightarrow> byte list" where
  "name_str nm = takeWhile (\<lambda>c. c \<noteq> 0) (map nm [0..<DIRSIZ])"

lemma skipelem_shorter: "skipelem path nm = Some (p, nm') \<Longrightarrow> length p < length path"
proof -
  assume s: "skipelem path nm = Some (p, nm')"
  let ?s = "dropWhile (\<lambda>c. c = SLASH) path"
  have ne: "?s \<noteq> []" and p: "p = dropWhile (\<lambda>c. c = SLASH) (drop (length (takeWhile (\<lambda>c. c \<noteq> SLASH) ?s)) ?s)"
    using s by (auto simp: skipelem_def Let_def split: if_splits)
  have "hd ?s \<noteq> SLASH" using ne by (rule hd_dropWhile)
  then have "takeWhile (\<lambda>c. c \<noteq> SLASH) ?s \<noteq> []" using ne by (cases ?s) auto
  then have "length (drop (length (takeWhile (\<lambda>c. c \<noteq> SLASH) ?s)) ?s) < length ?s" using ne by simp
  then show ?thesis unfolding p
    using length_dropWhile_le[of "\<lambda>c. c = SLASH"] by (meson le_less_trans less_le_trans)
qed

function elements :: "byte list \<Rightarrow> Cstring.buf \<Rightarrow> byte list list" where
  "elements path nm = (case skipelem path nm of
     None \<Rightarrow> []
   | Some (p, nm') \<Rightarrow> name_str nm' # elements p nm')"
  by pat_completeness auto
termination by (relation "measure (\<lambda>(p, nm). length p)") (auto dest: skipelem_shorter)

declare elements.simps [simp del]

text \<open>The reference: cut the path at every slash.\<close>

fun cut_at :: "'a \<Rightarrow> 'a list \<Rightarrow> 'a list list" where
  "cut_at c [] = [[]]"
| "cut_at c (x # xs) = (if x = c then [] # cut_at c xs else case cut_at c xs of [] \<Rightarrow> [[x]] | y # ys \<Rightarrow> (x # y) # ys)"

lemma cut_at_first:
  "cut_at c xs = takeWhile (\<lambda>x. x \<noteq> c) xs #
     (case dropWhile (\<lambda>x. x \<noteq> c) xs of [] \<Rightarrow> [] | y # ys \<Rightarrow> cut_at c ys)"
  by (induction xs) auto

definition path_elements :: "byte list \<Rightarrow> byte list list" where
  "path_elements path = map (take DIRSIZ) (filter (\<lambda>x. x \<noteq> []) (cut_at SLASH path))"

lemma path_elements_slashes: "path_elements (dropWhile (\<lambda>c. c = SLASH) path) = path_elements path"
  by (induction path) (auto simp: path_elements_def)

lemma path_elements_Nil [simp]: "path_elements [] = []"
  by (simp add: path_elements_def)

lemma path_elements_first:
  assumes "path \<noteq> []" "hd path \<noteq> SLASH"
  shows "path_elements path = take DIRSIZ (takeWhile (\<lambda>c. c \<noteq> SLASH) path) #
    path_elements (dropWhile (\<lambda>c. c \<noteq> SLASH) path)"
proof -
  have ne: "takeWhile (\<lambda>c. c \<noteq> SLASH) path \<noteq> []" using assms by (cases path) auto
  show ?thesis
  proof (cases "dropWhile (\<lambda>c. c \<noteq> SLASH) path")
    case Nil
    show ?thesis unfolding path_elements_def cut_at_first[of SLASH path] Nil using ne by simp
  next
    case (Cons y ys)
    then have "y = SLASH" using hd_dropWhile[of "\<lambda>c. c \<noteq> SLASH" path] by simp
    then show ?thesis unfolding path_elements_def cut_at_first[of SLASH path] Cons using ne by simp
  qed
qed

lemma put_name_str:
  assumes "0 \<notin> set el"
  shows "name_str (if length el \<ge> DIRSIZ then put_name (take DIRSIZ el) nm else (put_name el nm)(length el := 0)) = take DIRSIZ el"
proof (cases "length el \<ge> DIRSIZ")
  case True
  then have "map (put_name (take DIRSIZ el) nm) [0..<DIRSIZ] = take DIRSIZ el"
    by (intro nth_equalityI) (auto simp: put_name_def)
  moreover have "takeWhile (\<lambda>c. c \<noteq> 0) (take DIRSIZ el) = take DIRSIZ el"
    using assms in_set_takeD[of _ DIRSIZ el] by (intro takeWhile_eq_all_conv[THEN iffD2]) metis
  ultimately show ?thesis using True by (simp add: name_str_def)
next
  case False
  let ?f = "(put_name el nm)(length el := 0)"
  have "map ?f [0..<DIRSIZ] = map ?f [0..<length el] @ ?f (length el) # map ?f [Suc (length el)..<DIRSIZ]"
    using False by (metis (mono_tags, lifting) le0 linorder_not_le list.map(2) map_append upt_add_eq_append upt_conv_Cons le_add_diff_inverse less_imp_le)
  also have "map ?f [0..<length el] = el" by (intro nth_equalityI) (auto simp: put_name_def)
  finally have m: "map ?f [0..<DIRSIZ] = el @ 0 # map ?f [Suc (length el)..<DIRSIZ]" by (simp only: fun_upd_same)
  have "takeWhile (\<lambda>c. c \<noteq> 0) (el @ 0 # ys) = el" for ys :: "byte list"
    using assms by (induction el) auto
  then show ?thesis unfolding name_str_def using False m by (simp del: upt_Suc fun_upd_apply)
qed

text \<open>
  C16: Walking a path with skipelem yields exactly the pieces between its slashes, the empty ones left
  out and each cut to the fourteen bytes a directory entry can hold, whatever was in the name array
  before; and no element ever writes past the fourteenth byte of that array.\<close>

theorem skipelem_splits_path:
  assumes "0 \<notin> set path"
  shows "elements path nm = path_elements path \<and>
    (case skipelem path nm of None \<Rightarrow> path_elements path = []
     | Some (p, nm') \<Rightarrow> path_elements path = name_str nm' # path_elements p \<and> (\<forall>i. i < DIRSIZ \<or> nm' i = nm i))"
proof -
  have step: "case skipelem path nm of None \<Rightarrow> path_elements path = []
     | Some (p, nm') \<Rightarrow> path_elements path = name_str nm' # path_elements p \<and> 0 \<notin> set p \<and>
         (\<forall>i. i < DIRSIZ \<or> nm' i = nm i)"
    if z: "0 \<notin> set path" for path nm
  proof -
    let ?s = "dropWhile (\<lambda>c. c = SLASH) path"
    let ?el = "takeWhile (\<lambda>c. c \<noteq> SLASH) ?s"
    show ?thesis
    proof (cases "?s = []")
      case True
      have "path_elements path = []" using path_elements_slashes[of path] unfolding True by simp
      then show ?thesis using True by (simp add: skipelem_def)
    next
      case False
      have h: "hd ?s \<noteq> SLASH" using False by (rule hd_dropWhile)
      have el: "0 \<notin> set ?el" using z set_dropWhileD[of 0 _ path] set_takeWhileD[of 0 _ ?s] by blast
      have d: "drop (length ?el) ?s = dropWhile (\<lambda>c. c \<noteq> SLASH) ?s" by (rule dropWhile_eq_drop[symmetric])
      have "path_elements path = take DIRSIZ ?el # path_elements (dropWhile (\<lambda>c. c = SLASH) (dropWhile (\<lambda>c. c \<noteq> SLASH) ?s))"
        using path_elements_first[OF False h] by (simp only: path_elements_slashes)
      moreover have "0 \<notin> set (dropWhile (\<lambda>c. c = SLASH) (dropWhile (\<lambda>c. c \<noteq> SLASH) ?s))"
        using z by (meson set_dropWhileD)
      ultimately show ?thesis
        using False put_name_str[OF el, of nm] d
        by (auto simp: skipelem_def Let_def put_name_def)
    qed
  qed
  have "elements path nm = path_elements path"
    using assms
  proof (induction path nm rule: elements.induct)
    case (1 path nm)
    then show ?case using step[OF 1(2), of nm] by (subst elements.simps) (auto split: option.splits)
  qed
  then show ?thesis using step[OF assms, of nm] by (auto split: option.splits)
qed

text \<open>The bytes of \<open>//usr/a-very-long-file-name/x/\<close>.\<close>

lemma skipelem_splits_path_witness:
  "elements [47, 47, 117, 115, 114, 47, 1, 2, 3, 4, 5, 6, 7, 8, 9, 10, 11, 12, 13, 14, 15, 16, 47, 120, 47] (\<lambda>_. 7) =
     [[117, 115, 114], [1, 2, 3, 4, 5, 6, 7, 8, 9, 10, 11, 12, 13, 14], [120]]"
proof -
  let ?p = "[47, 47, 117, 115, 114, 47, 1, 2, 3, 4, 5, 6, 7, 8, 9, 10, 11, 12, 13, 14, 15, 16, 47, 120, 47] :: byte list"
  have "path_elements ?p = [[117, 115, 114], [1, 2, 3, 4, 5, 6, 7, 8, 9, 10, 11, 12, 13, 14], [120]]"
    by (simp add: path_elements_def SLASH_def)
  moreover have z: "0 \<notin> set ?p" by simp
  ultimately show ?thesis by (rule trans[OF conjunct1[OF skipelem_splits_path], rotated])
qed

section \<open>Inodes on the disk\<close>

lemma dinode_at_bound: "dinode_at n + 64 \<le> BSIZE"
proof -
  have "unat (n mod 16) < 16" by (simp add: unat_mod)
  then show ?thesis unfolding dinode_at_def by linarith
qed

lemma dinode_at_apart: "dinode_at m \<noteq> dinode_at n \<Longrightarrow> dinode_at m + 64 \<le> dinode_at n \<or> dinode_at n + 64 \<le> dinode_at m"
  unfolding dinode_at_def by (cases "unat (m mod 16)" "unat (n mod 16)" rule: linorder_cases) auto

lemma put_dinode_length [simp]: "length (put_dinode k p d) = length d"
  by (simp add: put_dinode_def cell_simps)

lemma get_put_dinode:
  assumes "k + 64 \<le> length d"
  shows "get_dinode k (put_dinode k p d) q =
      q\<lparr>i_type := i_type p, i_major := i_major p, i_minor := i_minor p, i_nlink := i_nlink p,
        i_size := i_size p, i_addrs := (\<lambda>i. if i < 13 then i_addrs p i else i_addrs q i)\<rparr>"
proof -
  let ?d = "put32 (k + 8) (i_size p) (put16 (k + 6) (i_nlink p) (put16 (k + 4) (i_minor p) (put16 (k + 2) (i_major p)
    (put16 k (i_type p) d))))"
  have e: "put_dinode k p d = cell32.put_arr (k + 12) (i_addrs p) [0..<13] ?d"
    by (simp add: put_dinode_def)
  have far: "get16 j (cell32.put_arr (k + 12) f is d') = get16 j d'" if "j + 2 \<le> k + 12" for j f "is" d'
    using that unfolding cell32.put_arr_def
    by (induction "is" arbitrary: d') (simp_all add: get_put_mixed)
  have "cell32.arr (k + 12) i (put_dinode k p d) = i_addrs p i" if "i < 13" for i
    unfolding e using assms that by (subst cell32.arr_put_arr) (auto simp: cell_simps)
  then show ?thesis
    unfolding get_dinode_def e using assms
    by (simp add: far cell32.get_put_arr cell_simps get_put_mixed cong: if_cong)
qed

lemma put_dinode_outside:
  assumes "j < k \<or> k + 64 \<le> j"
  shows "put_dinode k p d ! j = d ! j"
proof -
  have "cell32.put_arr (k + 12) f is d' ! j = d' ! j" if "\<forall>i \<in> set is. i < 13" for f "is" d'
    using that unfolding cell32.put_arr_def
  proof (induction "is" arbitrary: d')
    case (Cons i "is")
    then have "j < k + 12 + 4 * i \<or> k + 12 + 4 * i + 4 \<le> j" using assms by auto
    then show ?case using Cons cell32.nth_put[of j "k + 12 + 4 * i"] by simp
  qed simp
  then show ?thesis using assms
    by (auto simp: put_dinode_def cell16.nth_put cell32.nth_put)
qed

lemma get_dinode_cong:
  assumes "\<And>j. k \<le> j \<Longrightarrow> j < k + 64 \<Longrightarrow> d ! j = d' ! j"
  shows "get_dinode k d q = get_dinode k d' q"
proof -
  have "get16 j d = get16 j d'" if "k \<le> j" "j + 2 \<le> k + 64" for j
    using that assms by (intro cell16.get_cong) auto
  moreover have "get32 j d = get32 j d'" if "k \<le> j" "j + 4 \<le> k + 64" for j
    using that assms by (intro cell32.get_cong) auto
  ultimately show ?thesis by (auto simp: get_dinode_def cell32.arr_def fun_eq_iff)
qed

text \<open>
  C18: An inode written to its place in a block reads back with the same type, device numbers, link
  count, size and block addresses; the place of every other inode of the block keeps its content.\<close>

theorem dinode_roundtrip:
  assumes "length d = BSIZE"
  shows "get_dinode (dinode_at n) (put_dinode (dinode_at n) p d) q =
      q\<lparr>i_type := i_type p, i_major := i_major p, i_minor := i_minor p, i_nlink := i_nlink p,
        i_size := i_size p, i_addrs := (\<lambda>i. if i < 13 then i_addrs p i else i_addrs q i)\<rparr> \<and>
    (dinode_at m \<noteq> dinode_at n \<longrightarrow>
      get_dinode (dinode_at m) (put_dinode (dinode_at n) p d) q = get_dinode (dinode_at m) d q)"
proof (intro conjI impI)
  show "get_dinode (dinode_at n) (put_dinode (dinode_at n) p d) q =
      q\<lparr>i_type := i_type p, i_major := i_major p, i_minor := i_minor p, i_nlink := i_nlink p,
        i_size := i_size p, i_addrs := (\<lambda>i. if i < 13 then i_addrs p i else i_addrs q i)\<rparr>"
    using assms dinode_at_bound by (intro get_put_dinode) simp
  assume "dinode_at m \<noteq> dinode_at n"
  from dinode_at_apart[OF this] show "get_dinode (dinode_at m) (put_dinode (dinode_at n) p d) q = get_dinode (dinode_at m) d q"
    by (intro get_dinode_cong put_dinode_outside) auto
qed

definition blank_inode :: inode where
  "blank_inode = \<lparr>i_dev = 1, i_inum = 2, i_ref = 1, i_valid = 0, i_type = 0, i_major = 0, i_minor = 0, i_nlink = 0,
     i_size = 0, i_addrs = (\<lambda>_. 0)\<rparr>"

lemma dinode_roundtrip_witness:
  "i_nlink (get_dinode (dinode_at 17) (put_dinode (dinode_at 17)
     \<lparr>i_dev = 1, i_inum = 17, i_ref = 1, i_valid = 1, i_type = 2, i_major = 0, i_minor = 0, i_nlink = 3,
       i_size = 4096, i_addrs = (\<lambda>_. 9)\<rparr> (replicate 1024 0)) blank_inode) = 3 \<and>
   i_nlink (get_dinode (dinode_at 2) (put_dinode (dinode_at 17)
     \<lparr>i_dev = 1, i_inum = 17, i_ref = 1, i_valid = 1, i_type = 2, i_major = 0, i_minor = 0, i_nlink = 3,
       i_size = 4096, i_addrs = (\<lambda>_. 9)\<rparr> (replicate 1024 0)) blank_inode) = 0"
proof -
  have "dinode_at 2 \<noteq> dinode_at 17" by (simp add: dinode_at_def)
  then show ?thesis by (simp add: dinode_roundtrip) (simp add: get_dinode_def get16_def dinode_at_def)
qed

end
