(* ===== verification/Inode.thy ===== *)
theory Inode
  imports Layout File
begin

text \<open>
  The table of inodes in memory: the effect of its operations when no lock is contended, and the
  invariant that an inode is in one place only.
\<close>

section \<open>Effect of the operations\<close>

definition add_ref :: "int \<Rightarrow> inode \<Rightarrow> inode" where
  "add_ref k p = p\<lparr>i_ref := i_ref p + k\<rparr>"

definition fresh_inode :: "u32 \<Rightarrow> u32 \<Rightarrow> inode \<Rightarrow> inode" where
  "fresh_inode dev n p = p\<lparr>i_dev := dev, i_inum := n, i_ref := 1, i_valid := 0\<rparr>"

lemma itable_critical:
  fixes s :: "'z fsst_scheme"
  assumes "running i s" "lock_free L_itable s"
  shows "release L_itable ((acq L_itable s)\<lparr>itable := T\<rparr>) e = Ret () ((touch s)\<lparr>itable := T\<rparr>) e"
    "acquire L_itable s e = Ret () (acq L_itable s) e"
proof -
  have "under L_itable i ((acq L_itable s)\<lparr>itable := T\<rparr>)" using under_acq[OF assms] by simp
  from under_release[OF this, of e] show "release L_itable ((acq L_itable s)\<lparr>itable := T\<rparr>) e = Ret () ((touch s)\<lparr>itable := T\<rparr>) e"
    using assms(2) runningD(5)[OF assms(1)] by simp
  show "acquire L_itable s e = Ret () (acq L_itable s) e" using assms(2) by (simp add: acquire_Ret lock_freeD)
qed

lemma idup_Ret:
  fixes s :: "'z fsst_scheme"
  assumes "running i s" "lock_free L_itable s"
  shows "idup ip s e = Ret ip ((touch s)\<lparr>itable := (itable s)(ip := add_ref 1 (itable s ip))\<rparr>) e"
  by (simp add: idup_def thn_def bnd_def itable_critical[OF assms] add_ref_def)

text \<open>The slot that \<open>iget\<close> gives: the one that holds the inode already, or the first free one.\<close>

definition iget_hit :: "(nat \<Rightarrow> inode) \<Rightarrow> u32 \<Rightarrow> u32 \<Rightarrow> nat option" where
  "iget_hit T dev n = find_index (\<lambda>i. i_ref (T i) > 0 \<and> i_dev (T i) = dev \<and> i_inum (T i) = n) [0..<NINODE]"

definition iget_free :: "(nat \<Rightarrow> inode) \<Rightarrow> nat option" where
  "iget_free T = find_index (\<lambda>i. i_ref (T i) = 0) [0..<NINODE]"

lemma iget_Ret:
  fixes s :: "'z fsst_scheme"
  assumes "running i s" "lock_free L_itable s"
  shows "iget dev n s e = (case iget_hit (itable s) dev n of
      Some ip \<Rightarrow> Ret ip ((touch s)\<lparr>itable := (itable s)(ip := add_ref 1 (itable s ip))\<rparr>) e
    | None \<Rightarrow> (case iget_free (itable s) of
        None \<Rightarrow> Panic ''iget: no inodes'' (acq L_itable s)
      | Some ip \<Rightarrow> Ret ip ((touch s)\<lparr>itable := (itable s)(ip := fresh_inode dev n (itable s ip))\<rparr>) e))"
  unfolding iget_hit_def iget_free_def
  by (simp add: iget_def thn_def bnd_def itable_critical[OF assms] add_ref_def fresh_inode_def split: option.split)

definition last_link :: "inode \<Rightarrow> bool" where
  "last_link p \<longleftrightarrow> i_ref p = 1 \<and> i_valid p \<noteq> 0 \<and> i_nlink p = 0"

lemma iput_Ret:
  fixes s :: "'z fsst_scheme"
  assumes "running i s" "lock_free L_itable s" "\<not> last_link (itable s ip)"
  shows "iput ip s e = Ret () ((touch s)\<lparr>itable := (itable s)(ip := add_ref (- 1) (itable s ip))\<rparr>) e"
  using assms(3)
  by (auto simp: iput_def thn_def bnd_def itable_critical[OF assms(1,2)] add_ref_def last_link_def)

lemma ilock_loaded:
  fixes s :: "'z fsst_scheme"
  assumes "running i s" "free_slock (SL_inode ip) s" "1 \<le> i_ref (itable s ip)" "i_valid (itable s ip) \<noteq> 0"
  shows "ilock (Some ip) s e = Ret () ((touch s)\<lparr>slocks := (slocks s)(SL_inode ip := locked_by (pid (procs s i)) (slocks s (SL_inode ip)))\<rparr>) e"
  using assms by (simp add: ilock_def thn_def bnd_def acquiresleep_Ret)

lemma iunlock_Ret:
  fixes s :: "'z fsst_scheme"
  assumes "running i s" "lock_free (L_sleep (SL_inode ip)) s" "1 \<le> i_ref (itable s ip)"
    "slocked (slocks s (SL_inode ip))" "slpid (slocks s (SL_inode ip)) = pid (procs s i)"
  shows "iunlock (Some ip) s e = Ret () ((touch s)\<lparr>slocks := (slocks s)(SL_inode ip := unlocked (slocks s (SL_inode ip))),
    procs := woken (Some i) (Some (C_sleep (SL_inode ip))) (procs s)\<rparr>) e"
  using assms by (simp add: iunlock_def bnd_def holdingsleep_Ret[OF assms(1)] releasesleep_Ret)

section \<open>One slot for an inode\<close>

text \<open>
  No counter is negative, no two slots in use hold the same inode, and \<open>H\<close> gives how many pointers
  the kernel has to each slot.
\<close>

definition itable_ok :: "(nat \<Rightarrow> int) \<Rightarrow> (nat \<Rightarrow> inode) \<Rightarrow> bool" where
  "itable_ok H T \<longleftrightarrow> (\<forall>i < NINODE. 0 \<le> H i \<and> i_ref (T i) = H i) \<and>
     (\<forall>i < NINODE. \<forall>j < NINODE. 0 < i_ref (T i) \<longrightarrow> 0 < i_ref (T j) \<longrightarrow>
        i_dev (T i) = i_dev (T j) \<longrightarrow> i_inum (T i) = i_inum (T j) \<longrightarrow> i = j)"

lemma itable_ok_ref:
  assumes "itable_ok H T" "0 < i_ref (T ip)" "0 \<le> H ip + k"
  shows "itable_ok (H(ip := H ip + k)) (T(ip := add_ref k (T ip)))"
proof -
  show ?thesis using assms unfolding itable_ok_def
    by (auto simp: add_ref_def) 
qed

lemma itable_ok_fresh:
  assumes "itable_ok H T" "iget_hit T dev n = None" "iget_free T = Some ip"
  shows "itable_ok (H(ip := 1)) (T(ip := fresh_inode dev n (T ip)))"
  using assms unfolding itable_ok_def iget_hit_def iget_free_def
  by (auto simp: fresh_inode_def find_index_upt find_index_None)

section \<open>A concrete machine\<close>

text \<open>
  A machine at rest: process 2 runs, no lock is held, and another operation of the file system is
  under way with nothing logged yet.
\<close>

definition file_machine :: "(nat \<Rightarrow> proc) \<Rightarrow> (nat \<Rightarrow> inode) \<Rightarrow> (nat \<Rightarrow> file_t) \<Rightarrow> filest" where
  "file_machine P T F = \<lparr>hart = 0, csr = (\<lambda>_. zero_csrs),
     cpus = (\<lambda>_. \<lparr>cproc = Some 2, noff = 0, intena = False\<rparr>),
     locks = (\<lambda>_. \<lparr>locked = False, lname = [], lcpu = None\<rparr>),
     thr = [], panicking = False, panicked = False, mem = (\<lambda>_. 0), freelist = 0, kend = KERNBASE,
     procs = P, initproc = None, nextpid = 1, ticks = 0,
     tframes = (\<lambda>_. zero_trapframe), syms = (\<lambda>_. 0),
     slocks = (\<lambda>_. \<lparr>slocked = False, slname = [], slpid = 0\<rparr>), uart = zero_uartdev,
     cons = \<lparr>cons_buf = (\<lambda>_. 0), cons_r = 0, cons_w = 0, cons_e = 0\<rparr>, devsw = (\<lambda>_. (None, None)),
     pipes = (\<lambda>_. zero_pipe), bufs = (\<lambda>_. zero_buf), vd = zero_vdisk, img = (\<lambda>_. 0),
     lg = \<lparr>l_start = 2, l_outstanding = 1, l_committing = 0, l_dev = 1, l_lh = \<lparr>lh_n = 0, lh_block = (\<lambda>_. 0)\<rparr>\<rparr>,
     sb = \<lparr>sb_magic = FSMAGIC, sb_size = 2000, sb_nblocks = 1900, sb_ninodes = 200, sb_nlog = 31,
       sb_logstart = 2, sb_inodestart = 33, sb_bmapstart = 46\<rparr>, itable = T, ftable = F, stack = (\<lambda>_. 0)\<rparr>"

lemma file_machine_simps [simp]:
  "procs (file_machine P T F) = P" "itable (file_machine P T F) = T" "ftable (file_machine P T F) = F"
  "running 2 (file_machine P T F)" "lock_free L (file_machine P T F)" "free_slock x (file_machine P T F)"
  "cproc (mycpu (file_machine P T F)) = Some 2" "cpu_wf (file_machine P T F)"
  "lg (file_machine P T F) = \<lparr>l_start = 2, l_outstanding = 1, l_committing = 0, l_dev = 1, l_lh = \<lparr>lh_n = 0, lh_block = (\<lambda>_. 0)\<rparr>\<rparr>"
  by (simp_all add: file_machine_def running_def plocks_free_def base_defs free_slock_def intr_get_def
      r_sstatus_def zero_csrs_def)

definition unused_inode :: inode where
  "unused_inode = \<lparr>i_dev = 0, i_inum = 0, i_ref = 0, i_valid = 0, i_type = 0, i_major = 0, i_minor = 0,
     i_nlink = 0, i_size = 0, i_addrs = (\<lambda>_. 0)\<rparr>"

text \<open>An empty regular file, held once, in slot 0.\<close>

definition one_inode :: "nat \<Rightarrow> inode" where
  "one_inode = (\<lambda>_. unused_inode)(0 := unused_inode\<lparr>i_dev := 1, i_inum := 5, i_ref := 1, i_valid := 1, i_type := 2,
     i_nlink := 1\<rparr>)"

text \<open>An open file on it, in slot 3 of the table of files.\<close>

definition one_file :: "nat \<Rightarrow> file_t" where
  "one_file = (\<lambda>_. \<lparr>f_type = FD_NONE, f_ref = 0, f_readable = 0, f_writable = 0, f_pipe = 0, f_ip = None, f_off = 0, f_major = 0\<rparr>)
     (3 := \<lparr>f_type = FD_INODE, f_ref = 1, f_readable = 1, f_writable = 0, f_pipe = 0, f_ip = Some 0, f_off = 0, f_major = 0\<rparr>)"

section \<open>Properties\<close>


lemma one_inode_ok: "itable_ok ((\<lambda>_. 0)(0 := 1)) one_inode"
  by (simp add: itable_ok_def one_inode_def unused_inode_def)


end
