(* ===== verification/Frame.thy ===== *)
theory Frame
  imports Sysfile
begin

text \<open>
  What kernel functions leave alone, when they may give up the CPU on the way: if whatever the rest of
  the machine does in the meantime follows a relation, so does the function.
\<close>

section \<open>The part of the state in question\<close>

text \<open>
  Open files, trapframes, the process that runs, and of each process what sleeping, waking and
  scheduling do not touch.
\<close>

definition at_rest :: "proc \<Rightarrow> proc" where
  "at_rest p = p\<lparr>pstate := UNUSED, pchan := None, q_ticks := 0, wait_time := 0\<rparr>"

record view =
  v_files :: "nat \<Rightarrow> file_t"
  v_frames :: "addr \<Rightarrow> trapframe"
  v_procs :: "nat \<Rightarrow> proc"
  v_cur :: "nat option"

definition view :: "'z filest_scheme \<Rightarrow> view" where
  "view s = \<lparr>v_files = ftable s, v_frames = tframes s, v_procs = at_rest \<circ> procs s, v_cur = cproc (mycpu s)\<rparr>"

lemma at_rest_upd [simp]:
  "at_rest (p\<lparr>pstate := x\<rparr>) = at_rest p" "at_rest (p\<lparr>pchan := c\<rparr>) = at_rest p"
  "at_rest (wake_one ch p) = at_rest p"
  by (simp_all add: at_rest_def wake_one_def)

lemma at_rest_fields:
  assumes "at_rest p = at_rest q"
  shows "ofile p = ofile q" "pagetable p = pagetable q" "sz p = sz q" "ptrapframe p = ptrapframe q" "cwd p = cwd q"
    "pname p = pname q"
  using assms by (cases p; cases q; simp add: at_rest_def)+

lemma view_base [simp]:
  "view (touch s) = view s" "view (acq L s) = view s" "view (rel L s) = view s" "view (intr_on s) = view s"
  "view (intr_off s) = view s" "view (push_off_st s) = view s" "view (pop_off_st s) = view s"
  "view (set_lock L f s) = view s" "view (set_mycpu (\<lambda>c. c\<lparr>intena := b\<rparr>) s) = view s"
  by (simp_all add: view_def base_defs intr_on_def intr_off_def w_sstatus_def)

lemma view_upd [simp]:
  "view (thr_update g0 s) = view s" "view (mem_update g1 s) = view s"
  "view (freelist_update g2 s) = view s" "view (slocks_update g3 s) = view s" "view (cons_update g4 s) = view s"
  "view (pipes_update g5 s) = view s" "view (bufs_update g6 s) = view s" "view (vd_update g7 s) = view s"
  "view (lg_update g8 s) = view s" "view (sb_update g9 s) = view s" "view (itable_update g10 s) = view s"
  "view (nextpid_update g11 s) = view s"
  by (simp_all add: view_def)

section \<open>Following a relation\<close>

named_theorems follows_intros \<open>functions that follow a relation\<close>

locale frame =
  fixes R :: "view \<Rightarrow> view \<Rightarrow> bool"
  assumes refl: "R v v" and trans: "R u v \<Longrightarrow> R v w \<Longrightarrow> R u w"
begin

definition follows :: "('z filest_scheme, 'a) kop \<Rightarrow> bool" where
  "follows m \<longleftrightarrow> (\<forall>s e x s' e'. (\<forall>g \<in> set e. \<forall>t. R (view t) (view (g t))) \<longrightarrow> m s e = Ret x s' e' \<longrightarrow>
     R (view s) (view s') \<and> set e' \<subseteq> set e)"

lemma followsD:
  assumes "follows m" "\<forall>g \<in> set e. \<forall>t. R (view t) (view (g t))" "m s e = Ret x s' e'"
  shows "R (view s) (view s')" "set e' \<subseteq> set e"
  using assms unfolding follows_def by blast+

lemma follows_upd [follows_intros]: "(\<And>s. view (g s) = view s) \<Longrightarrow> follows (upd g)"
  by (simp add: follows_def refl)

lemma follows_basic [follows_intros]:
  "follows (ret x)" "follows (rd f)" "follows (panic msg)" "follows hang" "follows undefined_behaviour"
  by (simp_all add: follows_def refl undefined_behaviour_def)

lemma follows_swtch [follows_intros]: "follows swtch"
  by (auto simp: follows_def swtch_def split: list.splits)

lemma follows_bnd [follows_intros]:
  assumes "follows m" "\<And>x. follows (f x)"
  shows "follows (bnd m f)"
  unfolding follows_def bnd_eq_Ret
proof (intro allI impI, elim exE conjE)
  fix s e y s' e' x t e1
  assume e: "\<forall>g \<in> set e. \<forall>t. R (view t) (view (g t))" and m: "m s e = Ret x t e1" and f: "f x t e1 = Ret y s' e'"
  note 1 = followsD[OF assms(1) e m]
  have "\<forall>g \<in> set e1. \<forall>t. R (view t) (view (g t))" using e 1(2) by blast
  note 2 = followsD[OF assms(2) this f]
  show "R (view s) (view s') \<and> set e' \<subseteq> set e" using 1 2 trans by blast
qed

lemma follows_thn [follows_intros]: "follows m \<Longrightarrow> follows k \<Longrightarrow> follows (thn m k)"
  unfolding thn_def by (rule follows_bnd)

lemma follows_if [follows_intros]:
  "(b \<Longrightarrow> follows m) \<Longrightarrow> (\<not> b \<Longrightarrow> follows n) \<Longrightarrow> follows (if b then m else n)"
  by simp

lemma follows_whenm [follows_intros]: "follows m \<Longrightarrow> follows (whenm b m)"
  by (simp add: whenm_def follows_basic)

lemma follows_option [follows_intros]:
  "follows m \<Longrightarrow> (\<And>x. follows (f x)) \<Longrightarrow> follows (case r of None \<Rightarrow> m | Some x \<Rightarrow> f x)"
  by (cases r) auto

lemma follows_sum [follows_intros]:
  "(\<And>x. follows (g x)) \<Longrightarrow> (\<And>x. follows (f x)) \<Longrightarrow> follows (case r of Inl x \<Rightarrow> g x | Inr x \<Rightarrow> f x)"
  by (cases r) auto

lemma follows_prod [follows_intros]: "(\<And>a b. follows (f a b)) \<Longrightarrow> follows (case_prod f p)"
  by (cases p) auto

lemma follows_let [follows_intros]: "(\<And>x. follows (f x)) \<Longrightarrow> follows (let x = t in f x)"
  by simp

lemma follows_deref [follows_intros]: "(\<And>x. follows (f x)) \<Longrightarrow> follows (deref p f)"
  unfolding deref_def by (intro follows_intros)

lemma follows_foreach [follows_intros]: "(\<And>i. follows (body i)) \<Longrightarrow> follows (foreach is body)"
  by (induction "is") (auto intro!: follows_intros)

lemma follows_for_until [follows_intros]: "(\<And>i. follows (body i)) \<Longrightarrow> follows (for_until is body)"
  by (induction "is") (auto intro!: follows_intros)

lemma follows_loop_fuel [follows_intros]: "(\<And>x. follows (body x)) \<Longrightarrow> follows (loop_fuel n body x)"
  by (induction n arbitrary: x) (auto intro!: follows_intros)

lemma follows_loop [follows_intros]: "(\<And>x. follows (body x)) \<Longrightarrow> follows (loop m body x)"
proof -
  assume "\<And>x. follows (body x)"
  then have "follows (loop_fuel n body x)" for n by (rule follows_loop_fuel)
  then show ?thesis unfolding follows_def loop_def by blast
qed

lemma follows_while_off [follows_intros]: "follows b \<Longrightarrow> follows (while_off c b)"
  unfolding while_off_def by (intro follows_intros)

subsection \<open>Locks, processes, memory\<close>

lemma follows_spinlock [follows_intros]:
  "follows (initlock L nm)" "follows (acquire L)" "follows (release L)" "follows myproc"
proof -
  have t: "follows (test_and_set L)" by (auto simp: follows_def test_and_set_def refl)
  show "follows (initlock L nm)" "follows (acquire L)" "follows (release L)" "follows myproc"
    unfolding initlock_def acquire_def release_def myproc_def holding_def push_off_def pop_off_def
    by (intro follows_intros t; simp)+
qed

lemma follows_myproc_ptr [follows_intros]: "follows myproc_ptr"
  unfolding myproc_ptr_def by (intro follows_intros)

lemma follows_upd_proc: "(\<And>p. at_rest (f p) = at_rest p) \<Longrightarrow> follows (upd_proc i f)"
  unfolding upd_proc_def by (intro follows_upd) (auto simp: view_def set_proc_def fun_eq_iff)

lemma follows_sched [follows_intros]: "follows sched"
  unfolding sched_def holding_def by (intro follows_intros; simp)

lemma follows_sleep [follows_intros]: "follows (sleep ch lk)" "follows (wakeup c)" "follows (killed i)"
  unfolding sleep_def wakeup_def killed_def by (intro follows_intros follows_upd_proc; simp)+

lemma follows_kalloc [follows_intros]: "follows kalloc" "follows (kfree pa)"
  unfolding kalloc_def kfree_def by (intro follows_intros; simp)+

lemma follows_sleeplock [follows_intros]:
  "follows (acquiresleep x)" "follows (releasesleep x)" "follows (holdingsleep x)"
  unfolding acquiresleep_def releasesleep_def holdingsleep_def set_slock_def by (intro follows_intros; simp)+

lemma follows_printf [follows_intros]: "follows (printf fmt args)"
  unfolding printf_def consputc_def uartputc_sync_def push_off_def pop_off_def by (intro follows_intros; simp)

subsection \<open>Disk, cache and log\<close>

lemma follows_descs [follows_intros]:
  "follows alloc_desc" "follows (free_desc d)" "follows alloc3_desc" "follows (free_chain d)" "follows vio_descs"
proof -
  show a: "follows alloc_desc" "follows (free_desc d)" for d
    unfolding alloc_desc_def free_desc_def upd_vd_def by (intro follows_intros; simp)+
  have "follows (alloc_descs n idx)" for n idx
    by (induction n arbitrary: idx) (auto intro!: follows_intros a)
  then show b: "follows alloc3_desc" by (simp add: alloc3_desc_def)
  show "follows (free_chain d)" unfolding free_chain_def free_round_def by (intro follows_intros a)
  show "follows vio_descs" unfolding vio_descs_def by (intro follows_intros b)
qed

lemma follows_disk [follows_intros]: "follows (virtio_disk_rw b wr)"
  unfolding virtio_disk_rw_def upd_vd_def upd_buf_def by (intro follows_intros; simp)

lemma follows_bio [follows_intros]:
  "follows (bread dev n)" "follows (bwrite b)" "follows (brelse b)" "follows (bpin b)" "follows (bunpin b)"
  unfolding bread_def bget_def bscan_def scan_round_def bwrite_def brelse_def bpin_def bunpin_def upd_buf_def upd_bufs_def
  by (intro follows_intros; simp)+

lemma follows_log_upd [follows_intros]:
  "follows (upd_lg f)" "follows (upd_lh h)" "follows (upd_data b d)" "follows (copy_buf b c)"
  unfolding upd_lh_def upd_lg_def upd_data_def copy_buf_def upd_buf_def by (intro follows_intros; simp)+

lemma follows_log_loop [follows_intros]: "(\<And>k. follows (body k)) \<Longrightarrow> follows (log_loop body)"
  unfolding log_loop_def log_round_def by (intro follows_intros)

lemma follows_log [follows_intros]: "follows begin_op" "follows end_op" "follows (log_write b)"
proof -
  have br: "follows (log_bread f)" for f unfolding log_bread_def by (intro follows_intros)
  have head: "follows write_head" unfolding write_head_def by (intro follows_intros br)
  have one: "follows (install_one r k)" "follows (write_one k)" for r k
    unfolding install_one_def write_one_def recovering_msg_def by (intro follows_intros br)+
  have c: "follows commit" unfolding commit_def write_log_def install_trans_def by (intro follows_intros head one)
  show "follows begin_op" "follows end_op" "follows (log_write b)"
    unfolding begin_op_def begin_round_def end_op_def log_write_def by (intro follows_intros c)+
qed

subsection \<open>File system\<close>

lemma follows_inode [follows_intros]: "follows (upd_inode ip f)" "follows m \<Longrightarrow> follows (in_int k m)"
  unfolding upd_inode_def in_int_def by (intro follows_intros; simp)+

lemma follows_blocks [follows_intros]: "follows (balloc dev)" "follows (bfree dev b)"
proof -
  have "follows (balloc_block dev S b)" for S b
    unfolding balloc_block_def fs_bzero_def by (intro follows_intros)
  then show "follows (balloc dev)" unfolding balloc_def by (intro follows_intros)
  show "follows (bfree dev b)" unfolding bfree_def by (intro follows_intros)
qed

lemma follows_iget [follows_intros]:
  "follows (iget dev n)" "follows (idup ip)" "follows (ilock ipo)" "follows (iunlock ipo)" "follows (iupdate ip)"
  unfolding iget_def idup_def ilock_def iunlock_def iupdate_def by (intro follows_intros)+

lemma follows_ialloc [follows_intros]: "follows (ialloc dev ty)"
proof -
  have "follows (ialloc_one dev ty S n)" for S n
    unfolding ialloc_one_def by (intro follows_intros)
  then show ?thesis unfolding ialloc_def by (intro follows_intros)
qed

lemma follows_iput [follows_intros]: "follows (itrunc ip)" "follows (iput ip)" "follows (iunlockput ip)"
proof -
  show t: "follows (itrunc ip)"
    unfolding itrunc_def itrunc_direct_def itrunc_indirect_def by (intro follows_intros)
  show p: "follows (iput ip)" unfolding iput_def by (intro follows_intros t)
  show "follows (iunlockput ip)" unfolding iunlockput_def by (intro follows_intros p)
qed

lemma follows_bmap [follows_intros]: "follows (bmap ip k)"
  unfolding bmap_def bmap_direct_def by (intro follows_intros)

end

section \<open>The copying functions and the page tables\<close>

text \<open>
  What the callers rely on: the functions of vm.c do not give up the CPU, and work on memory only.
\<close>

definition quiet :: "('z filest_scheme, 'a) kop \<Rightarrow> bool" where
  "quiet m \<longleftrightarrow> (\<forall>s e x s' e'. m s e = Ret x s' e' \<longrightarrow> view s' = view s \<and> e' = e)"

definition vm_quiet :: "('z filest_scheme) vm \<Rightarrow> bool" where
  "vm_quiet V \<longleftrightarrow> (\<forall>pt a bs. quiet (v_copyout V pt a bs)) \<and> (\<forall>pt a n. quiet (v_copyin V pt a n)) \<and>
     (\<forall>pt a n. quiet (v_copyinstr V pt a n)) \<and> quiet (v_uvmcreate V) \<and>
     (\<forall>pt a b c d. quiet (v_mappages V pt a b c d)) \<and> (\<forall>pt n. quiet (v_uvmfree V pt n)) \<and>
     (\<forall>pt a b i. quiet (v_uvmunmap V pt a b i)) \<and> (\<forall>pt a b c. quiet (v_uvmalloc V pt a b c)) \<and>
     (\<forall>pt a. quiet (v_uvmclear V pt a)) \<and> (\<forall>pt qt n. quiet (v_uvmcopy V pt qt n)) \<and>
     (\<forall>pt a. quiet (v_walkaddr V pt a))"

lemma simple_vm_quiet: "vm_quiet simple_vm"
  by (simp add: vm_quiet_def quiet_def)

context frame
begin

lemma follows_quiet: "quiet m \<Longrightarrow> follows m"
  using refl unfolding follows_def quiet_def by (metis subset_refl)

lemma follows_vm:
  assumes "vm_quiet V"
  shows "follows (v_copyout V pt a bs)" "follows (v_copyin V pt a n)" "follows (v_copyinstr V pt a n)"
    "follows (v_uvmcreate V)" "follows (v_mappages V pt a b c d)" "follows (v_uvmfree V pt b)"
    "follows (v_uvmunmap V pt a b i)" "follows (v_uvmalloc V pt a b c)" "follows (v_uvmclear V pt a)"
    "follows (v_uvmcopy V pt qt b)" "follows (v_walkaddr V pt a)"
  using assms by (simp_all add: vm_quiet_def follows_quiet)

lemma follows_pagetable:
  assumes "vm_quiet V"
  shows "follows (proc_pagetable V i)" "follows (proc_freepagetable V pt n)"
  unfolding proc_pagetable_def proc_freepagetable_def by (intro follows_intros follows_vm[OF assms])+

lemma follows_copy:
  assumes "vm_quiet V"
  shows "follows (either_copyout V d bs)" "follows (either_copyin V sr n)"
proof -
  show "follows (either_copyout V d bs)"
    unfolding either_copyout_def by (cases d) (auto intro!: follows_intros follows_vm[OF assms])
  show "follows (either_copyin V sr n)"
    unfolding either_copyin_def by (cases sr) (auto intro!: follows_intros follows_vm[OF assms])
qed

lemma follows_content:
  assumes "vm_quiet V"
  shows "follows (readi V ip d off n)" "follows (writei V ip sr off n)"
  unfolding readi_def readi_round_def writei_def writei_round_def by (intro follows_intros follows_copy[OF assms])+

lemma follows_dir:
  assumes "vm_quiet V"
  shows "follows (dirlookup V dp nm)" "follows (dirlink V dp nm n)"
proof -
  show d: "follows (dirlookup V dp nm)"
    unfolding dirlookup_def dirlookup_round_def by (intro follows_intros follows_content[OF assms])
  show "follows (dirlink V dp nm n)"
    unfolding dirlink_def dirlink_round_def by (intro follows_intros follows_content[OF assms] d)
qed

lemma follows_namex:
  assumes "vm_quiet V"
  shows "follows (namex V path par nm)" "follows (namei V path)" "follows (nameiparent V path nm)"
proof -
  show n: "follows (namex V path par nm)" for par nm
    unfolding namex_def namex_round_def by (intro follows_intros follows_dir[OF assms])
  show "follows (namei V path)" "follows (nameiparent V path nm)"
    unfolding namei_def nameiparent_def by (intro follows_intros n)+
qed

end

end
