(* ===== verification/Image.thy ===== *)
theory Image
  imports Frame Inode
begin

text \<open>
  Replacing the program of a process: \<open>kexec\<close> either succeeds, or leaves the process the program it had.
\<close>

section \<open>The image of a process\<close>

text \<open>What user code of process \<open>i\<close> runs with: address space, size, registers, name, files and directory.\<close>

definition image_of :: "nat \<Rightarrow> view \<Rightarrow> addr \<times> addr \<times> trapframe \<times> Cstring.buf \<times> (nat \<Rightarrow> nat option) \<times> nat option" where
  "image_of i v = (let p = v_procs v i in
     (pagetable p, sz p, v_frames v (ptrapframe p), pname p, ofile p, cwd p))"

definition keeps_image :: "nat \<Rightarrow> ('z filest_scheme \<Rightarrow> 'z filest_scheme) \<Rightarrow> bool" where
  "keeps_image i g \<longleftrightarrow> (\<forall>t. image_of i (view (g t)) = image_of i (view t))"

lemma image_of_view:
  "image_of i (view s) = (pagetable (procs s i), sz (procs s i), tframes s (ptrapframe (procs s i)),
     pname (procs s i), ofile (procs s i), cwd (procs s i))"
  by (simp add: image_of_def view_def at_rest_def Let_def)

interpretation img: frame "\<lambda>u v. image_of i u = image_of i v" for i
  by unfold_locales auto

section \<open>Succeed with \<open>n\<close>, or fail and keep the image\<close>

definition all_or :: "nat \<Rightarrow> int \<Rightarrow> ('z filest_scheme, int) kop \<Rightarrow> bool" where
  "all_or i n m \<longleftrightarrow> (\<forall>s e x s' e'. (\<forall>g \<in> set e. keeps_image i g) \<longrightarrow> m s e = Ret x s' e' \<longrightarrow>
     x = n \<or> x = - 1 \<and> image_of i (view s') = image_of i (view s))"

lemma all_or_ret: "all_or i n (ret (- 1))" "img.follows i m \<Longrightarrow> all_or i n (thn m (ret (- 1)))"
proof -
  show r: "all_or i n (ret (- 1))" for n by (simp add: all_or_def ret_def)
  assume m: "img.follows i m"
  show "all_or i n (thn m (ret (- 1)))"
    unfolding all_or_def thn_def bnd_eq_Ret
  proof (intro allI impI, elim exE conjE)
    fix s e s' e' x t e1 and y :: int
    assume e: "\<forall>g \<in> set e. keeps_image i g" and 1: "m s e = Ret x t e1" and 2: "ret (- 1) t e1 = Ret y s' e'"
    have "\<forall>g \<in> set e. \<forall>t. image_of i (view t) = image_of i (view (g t))" using e by (simp add: keeps_image_def)
    from img.followsD(1)[OF m this 1] 2
    show "y = n \<or> y = - 1 \<and> image_of i (view s') = image_of i (view s)" by (simp add: ret_def)
  qed
qed

lemma all_or_bnd:
  assumes "img.follows i m" "\<And>s e x s' e'. m s e = Ret x s' e' \<Longrightarrow> P x" "\<And>x. P x \<Longrightarrow> all_or i n (f x)"
  shows "all_or i n (bnd m f)"
  unfolding all_or_def bnd_eq_Ret
proof (intro allI impI, elim exE conjE)
  fix s e y s' e' x t e1
  assume e: "\<forall>g \<in> set e. keeps_image i g" and m: "m s e = Ret x t e1" and f: "f x t e1 = Ret y s' e'"
  have "\<forall>g \<in> set e. \<forall>t. image_of i (view t) = image_of i (view (g t))" using e by (simp add: keeps_image_def)
  note k = img.followsD[OF assms(1) this m]
  have "\<forall>g \<in> set e1. keeps_image i g" using e k(2) by blast
  with assms(3)[OF assms(2)[OF m]] f have "y = n \<or> y = - 1 \<and> image_of i (view s') = image_of i (view t)"
    unfolding all_or_def by blast
  then show "y = n \<or> y = - 1 \<and> image_of i (view s') = image_of i (view s)" using k(1) by simp
qed

lemma all_or_intros:
  "img.follows i m \<Longrightarrow> (\<And>x. all_or i n (f x)) \<Longrightarrow> all_or i n (bnd m f)"
  "img.follows i m \<Longrightarrow> all_or i n k \<Longrightarrow> all_or i n (thn m k)"
  unfolding thn_def by (rule all_or_bnd[where P = "\<lambda>_. True"]; blast)+

lemma all_or_cases:
  "(b \<Longrightarrow> all_or i n m) \<Longrightarrow> (\<not> b \<Longrightarrow> all_or i n k) \<Longrightarrow> all_or i n (if b then m else k)"
  "all_or i n m \<Longrightarrow> (\<And>x. r = Some x \<Longrightarrow> all_or i n (f x)) \<Longrightarrow> all_or i n (case r of None \<Rightarrow> m | Some x \<Rightarrow> f x)"
  "(\<And>a b. p = (a, b) \<Longrightarrow> all_or i n (h a b)) \<Longrightarrow> all_or i n (case_prod h p)"
  by (auto split: option.splits prod.splits)

lemma all_or_result: "(\<And>s e x s' e'. m s e = Ret x s' e' \<Longrightarrow> x = n) \<Longrightarrow> all_or i n m"
  unfolding all_or_def by blast

section \<open>The parts of \<open>kexec\<close>\<close>

lemma follows_load:
  assumes "vm_quiet V"
  shows "img.follows i (load_all V pt ip elf)"
proof -
  have s: "img.follows i (loadseg V pt va ip off n)" for va off n
    unfolding loadseg_def loadseg_round_def
    by (intro follows_intros img.follows_vm[OF assms] img.follows_content[OF assms])
  show ?thesis unfolding load_all_def load_one_def
    by (intro follows_intros img.follows_vm[OF assms] img.follows_content[OF assms] s)
qed

lemma follows_push_args:
  assumes "vm_quiet V"
  shows "img.follows i (push_args V pt base as sp us)"
  by (induction "as" arbitrary: sp us)
    (auto simp: str_len_def intro!: follows_intros img.follows_vm[OF assms])

lemma push_args_count:
  "push_args V pt base as sp us s e = Ret (Some (sp', us')) s' e' \<Longrightarrow> length us' = length us + length as"
  by (induction "as" arbitrary: sp us s e) (auto simp: ret_def bnd_eq_Ret Let_def split: if_splits)

lemma all_or_exec_bad:
  assumes "vm_quiet V"
  shows "all_or i n (exec_bad V pt k ip)"
  unfolding exec_bad_def by (intro all_or_ret all_or_intros follows_intros img.follows_pagetable[OF assms])

lemma all_or_push:
  assumes "vm_quiet V" "\<And>r. (case r of None \<Rightarrow> True | Some (sp, us) \<Rightarrow> length us = length argv) \<Longrightarrow> all_or i n (f r)"
  shows "all_or i n (bnd (push_args V pt base argv sp []) f)"
proof (rule all_or_bnd[OF follows_push_args[OF assms(1)] _ assms(2)])
  fix s e r s' e'
  assume "push_args V pt base argv sp [] s e = Ret r s' e'"
  then show "case r of None \<Rightarrow> True | Some (sp, us) \<Rightarrow> length us = length argv"
    by (auto split: option.split dest: push_args_count)
qed

lemma all_or_exec_stack:
  assumes "vm_quiet V"
  shows "all_or i (int (length argv)) (exec_stack V path argv elf pt n0)"
proof -
  have commit: "all_or i (int (length argv)) (thn (exec_commit V j path elf pt oldsz n sp) (ret (int (length us))))"
    if "length us = length argv" for j oldsz n sp and us :: "addr list"
    using that by (intro all_or_result) (auto simp: thn_def bnd_eq_Ret ret_def)
  show ?thesis
    unfolding exec_stack_def Let_def
    by (rule commit all_or_push[OF assms] all_or_intros follows_intros img.follows_vm[OF assms] all_or_cases
        all_or_exec_bad[OF assms])+ simp
qed


text \<open>Executing an empty file: it has no header.\<close>

lemma readi_empty: "i_size (itable s ip) = 0 \<Longrightarrow> readi V ip d 0 n s e = Ret (0, []) s e"
  by (simp add: readi_def bnd_def loop_def readi_round_def)

lemma exec_empty_fails:
  fixes s :: "'z filest_scheme"
  assumes run: "running i s" and free: "\<And>L. lock_free L s" "\<And>x. free_slock x s"
    and log: "may_begin (lg s)" "l_committing (lg s) = 0" "l_outstanding (lg s) \<noteq> 0"
    and dir: "cwd (procs s i) = Some ip" "1 \<le> i_ref (itable s ip)" "i_valid (itable s ip) \<noteq> 0" "i_size (itable s ip) = 0"
  shows "\<exists>s'. kexec V [] argv s e = Ret (- 1) s' e"
proof -
  note d = runningD[OF run]
  let ?s1 = "(touch s)\<lparr>lg := op_begun (lg s)\<rparr>"
  have b: "begin_op (touch s) e = Ret () ?s1 e"
    using begin_op_Ret[of i "touch s" e] run free log d by simp
  let ?s2 = "?s1\<lparr>itable := (itable s)(ip := add_ref 1 (itable s ip))\<rparr>"
  have n: "namei V [] ?s1 e = Ret (Some ip) ?s2 e"
    using d free dir idup_Ret[of i ?s1 ip e] run
    by (simp add: namei_def namex_def bnd_def loop_def namex_round_def skipelem_def myproc_ptr_Ret)
  let ?s3 = "?s2\<lparr>slocks := (slocks s)(SL_inode ip := locked_by (pid (procs s i)) (slocks s (SL_inode ip)))\<rparr>"
  have l: "ilock (Some ip) ?s2 e = Ret () ?s3 e"
    using ilock_loaded[of i ?s2 ip e] run free dir by (simp add: add_ref_def free_slock_def)
  have r: "readi V ip DLocal 0 64 ?s3 e = Ret (0, []) ?s3 e"
    using dir(4) by (intro readi_empty) (simp add: add_ref_def)
  let ?s4 = "?s3\<lparr>slocks := (slocks ?s3)(SL_inode ip := unlocked (slocks ?s3 (SL_inode ip))),
    procs := woken (Some i) (Some (C_sleep (SL_inode ip))) (procs s)\<rparr>"
  have u: "iunlock (Some ip) ?s3 e = Ret () ?s4 e"
    using iunlock_Ret[of i ?s3 ip e] run free dir by (simp add: add_ref_def locked_by_def)
  let ?s5 = "?s4\<lparr>itable := (itable ?s4)(ip := add_ref (- 1) (itable ?s4 ip))\<rparr>"
  have p: "iput ip ?s4 e = Ret () ?s5 e"
    using iput_Ret[of i ?s4 ip e] run free dir by (simp add: add_ref_def last_link_def)
  obtain s' where o: "end_op ?s5 e = Ret () s' e"
    using end_op_early[of i ?s5 e] run free log by (simp add: op_begun_def)
  show ?thesis using d b n l r u p o
    by (simp add: kexec_def thn_def bnd_def myproc_ptr_Ret exec_bad_def iunlockput_def del: fun_upd_apply)
qed

definition cwd_procs :: "nat \<Rightarrow> proc" where
  "cwd_procs = (\<lambda>_. zero_proc)(2 := zero_proc\<lparr>pstate := RUNNING, pid := 1, cwd := Some 0, sz := 4096\<rparr>)"


end
