(* ===== verification/Refs.thy ===== *)
theory Refs
  imports Frame Inode Syscall
begin

text \<open>
  The reference counts of open files: each is the number of file descriptors that refer to the file,
  and the system calls on descriptors keep it so.
\<close>

section \<open>Counting\<close>

definition holders :: "view \<Rightarrow> nat \<Rightarrow> (nat \<times> nat) set" where
  "holders v f = {(i, fd). i < NPROC \<and> fd < NOFILE \<and> ofile (v_procs v i) fd = Some f}"

lemma finite_holders [simp]: "finite (holders v f)"
proof -
  have "holders v f \<subseteq> {..<NPROC} \<times> {..<NOFILE}" by (auto simp: holders_def)
  then show ?thesis by (rule finite_subset) simp
qed

text \<open>How far the count of a file is from the number of its holders.\<close>

definition excess :: "view \<Rightarrow> nat \<Rightarrow> int" where
  "excess v f = f_ref (v_files v f) - int (card (holders v f))"

definition counted :: "'z filest_scheme \<Rightarrow> bool" where
  "counted s \<longleftrightarrow> (\<forall>f. f_ref (ftable s f) =
     int (card {(i, fd). i < NPROC \<and> fd < NOFILE \<and> ofile (procs s i) fd = Some f}))"

lemma counted_excess: "counted s \<longleftrightarrow> excess (view s) = (\<lambda>_. 0)"
  by (auto simp: counted_def excess_def holders_def view_def at_rest_def fun_eq_iff)

text \<open>
  What the rest of the machine does while a process waits: it may open, share and close files, but
  keeps the balance, and leaves the descriptors of the process alone.
\<close>

definition balanced :: "view \<Rightarrow> view \<Rightarrow> bool" where
  "balanced u v \<longleftrightarrow> v_cur v = v_cur u \<and> excess v = excess u \<and>
     (\<forall>i. v_cur u = Some i \<longrightarrow> ofile (v_procs v i) = ofile (v_procs u i))"

definition keeps_counts :: "('z filest_scheme \<Rightarrow> 'z filest_scheme) \<Rightarrow> bool" where
  "keeps_counts g \<longleftrightarrow> (\<forall>t. balanced (view t) (view (g t)))"

interpretation cnt: frame balanced
  by unfold_locales (auto simp: balanced_def)

section \<open>What an operation does to the counts\<close>

text \<open>
  \<open>at i F D v\<close>: process \<open>i\<close> runs, its descriptors are \<open>F\<close>, and \<open>D\<close> gives the references that no
  descriptor accounts for.
\<close>

definition at :: "nat \<Rightarrow> (nat \<Rightarrow> nat option) \<Rightarrow> (nat \<Rightarrow> int) \<Rightarrow> view \<Rightarrow> bool" where
  "at i F D v \<longleftrightarrow> i < NPROC \<and> v_cur v = Some i \<and> ofile (v_procs v i) = F \<and> excess v = D"

definition triple :: "(view \<Rightarrow> bool) \<Rightarrow> ('z filest_scheme, 'a) kop \<Rightarrow> ('a \<Rightarrow> view \<Rightarrow> bool) \<Rightarrow> bool" where
  "triple P m Q \<longleftrightarrow> (\<forall>s e x s' e'. P (view s) \<longrightarrow> (\<forall>g \<in> set e. keeps_counts g) \<longrightarrow> m s e = Ret x s' e' \<longrightarrow>
     Q x (view s') \<and> set e' \<subseteq> set e)"

lemma tripleD:
  assumes "triple P m Q" "P (view s)" "\<forall>g \<in> set e. keeps_counts g" "m s e = Ret x s' e'"
  shows "Q x (view s')" "set e' \<subseteq> set e"
  using assms unfolding triple_def by blast+

lemma triple_bnd:
  assumes "triple P m Q" "\<And>x. triple (Q x) (f x) S"
  shows "triple P (bnd m f) S"
  unfolding triple_def bnd_eq_Ret
proof (intro allI impI, elim exE conjE)
  fix s e y s' e' x t e1
  assume p: "P (view s)" and e: "\<forall>g \<in> set e. keeps_counts g" and m: "m s e = Ret x t e1" and f: "f x t e1 = Ret y s' e'"
  note k = tripleD[OF assms(1) p e m]
  have "\<forall>g \<in> set e1. keeps_counts g" using e k(2) by blast
  from tripleD[OF assms(2) k(1) this f] k(2) show "S y (view s') \<and> set e' \<subseteq> set e" by blast
qed

lemma triple_thn: "triple P m (\<lambda>_. Q) \<Longrightarrow> triple Q k S \<Longrightarrow> triple P (thn m k) S"
  unfolding thn_def by (rule triple_bnd)

lemma triple_weaken: "triple P m Q \<Longrightarrow> (\<And>v. P' v \<Longrightarrow> P v) \<Longrightarrow> (\<And>x v. Q x v \<Longrightarrow> Q' x v) \<Longrightarrow> triple P' m Q'"
  unfolding triple_def by blast

lemma triple_upd: "(\<And>s. P (view s) \<Longrightarrow> Q () (view (g s))) \<Longrightarrow> triple P (upd g) Q"
  by (simp add: triple_def)

lemma triple_basic:
  "triple (Q x) (ret x) Q" "triple P (panic msg) Q" "triple P hang Q" "triple P undefined_behaviour Q"
  by (simp_all add: triple_def undefined_behaviour_def)

lemma triple_ret: "(\<And>v. P v \<Longrightarrow> Q x v) \<Longrightarrow> triple P (ret x) Q"
  by (simp add: triple_def)

lemma triple_rd: "(\<And>s. P (view s) \<Longrightarrow> Q (f s) (view s)) \<Longrightarrow> triple P (rd f) Q"
  by (simp add: triple_def)

lemma triple_if: "(b \<Longrightarrow> triple P m Q) \<Longrightarrow> (\<not> b \<Longrightarrow> triple P k Q) \<Longrightarrow> triple P (if b then m else k) Q"
  by simp

lemma triple_when: "(b \<Longrightarrow> triple P m Q) \<Longrightarrow> triple (\<lambda>v. b \<and> P v) m Q"
  unfolding triple_def by blast

lemma triple_when': "(b \<Longrightarrow> triple P m Q) \<Longrightarrow> triple (\<lambda>v. P v \<and> b) m Q"
  unfolding triple_def by blast

lemma triple_False: "(\<And>v. \<not> P v) \<Longrightarrow> triple P m Q"
  by (simp add: triple_def)

lemma triple_follows: "cnt.follows m \<Longrightarrow> triple (at i F D) m (\<lambda>_. at i F D)"
  unfolding triple_def
proof (intro allI impI)
  fix s e x s' e'
  assume m: "cnt.follows m" and a: "at i F D (view s)" and e: "\<forall>g \<in> set e. keeps_counts g" and r: "m s e = Ret x s' e'"
  have "\<forall>g \<in> set e. \<forall>t. balanced (view t) (view (g t))" using e by (simp add: keeps_counts_def)
  from cnt.followsD[OF m this r] a show "at i F D (view s') \<and> set e' \<subseteq> set e"
    by (auto simp: at_def balanced_def)
qed

lemma triple_quiet: "quiet m \<Longrightarrow> triple P m (\<lambda>_. P)"
  unfolding triple_def quiet_def by (metis subset_refl)

section \<open>Descriptors and the table of files\<close>

lemma holders_fd:
  assumes "i < NPROC" "fd < NOFILE"
  shows "int (card (holders (v\<lparr>v_procs := (v_procs v)(i := (v_procs v i)\<lparr>ofile := (ofile (v_procs v i))(fd := r)\<rparr>)\<rparr>) f)) =
    int (card (holders v f)) + (if r = Some f then 1 else 0) - (if ofile (v_procs v i) fd = Some f then 1 else 0)"
proof -
  define h where "h = holders v f - {(i, fd)}"
  have 1: "holders (v\<lparr>v_procs := (v_procs v)(i := (v_procs v i)\<lparr>ofile := (ofile (v_procs v i))(fd := r)\<rparr>)\<rparr>) f =
      (if r = Some f then insert (i, fd) h else h)"
    using assms by (auto simp: holders_def h_def split: if_splits)
  have 2: "card (insert (i, fd) h) = Suc (card h)" unfolding h_def by (rule card_insert_disjoint) simp_all
  have "holders v f = (if ofile (v_procs v i) fd = Some f then insert (i, fd) h else h)"
    using assms by (auto simp: holders_def h_def)
  then have 3: "card (holders v f) = (if ofile (v_procs v i) fd = Some f then Suc (card h) else card h)"
    using 2 by metis
  show ?thesis unfolding 1 3 using 2 by simp
qed

lemma view_ofile:
  "view (s\<lparr>procs := (procs s)(i := (procs s i)\<lparr>ofile := F\<rparr>)\<rparr>) =
     (view s)\<lparr>v_procs := (v_procs (view s))(i := (v_procs (view s) i)\<lparr>ofile := F\<rparr>)\<rparr>"
  by (simp add: view_def at_rest_def fun_eq_iff)

definition owe :: "nat \<Rightarrow> int \<Rightarrow> (nat \<Rightarrow> int) \<Rightarrow> nat \<Rightarrow> int" where
  "owe f k D = D(f := D f + k)"

lemma owe_owe [simp]: "owe f a (owe f b D) = owe f (a + b) D" "owe f 0 D = D"
  by (auto simp: owe_def)

lemma owe_back [simp]: "owe f (- 1) (owe g k (owe f 1 D)) = owe g k D" "owe f 1 (owe g k (owe f (- 1) D)) = owe g k D"
  by (auto simp: owe_def)

lemma at_fd:
  assumes "at i F D (view s)" "fd < NOFILE"
  shows "at i (F(fd := r)) ((case r of None \<Rightarrow> id | Some f \<Rightarrow> owe f (- 1)) ((case F fd of None \<Rightarrow> id | Some f \<Rightarrow> owe f 1) D))
    (view (s\<lparr>procs := (procs s)(i := (procs s i)\<lparr>ofile := (ofile (procs s i))(fd := r)\<rparr>)\<rparr>))"
proof -
  let ?v = "view s"
  let ?w = "?v\<lparr>v_procs := (v_procs ?v)(i := (v_procs ?v i)\<lparr>ofile := F(fd := r)\<rparr>)\<rparr>"
  have o: "ofile (procs s i) = F" "ofile (v_procs ?v i) = F" using assms(1) by (auto simp: at_def view_def at_rest_def)
  have i: "i < NPROC" "v_cur ?v = Some i" "\<And>f. excess ?v f = D f" using assms(1) by (auto simp: at_def)
  have "excess ?w f = (case r of None \<Rightarrow> id | Some f \<Rightarrow> owe f (- 1)) ((case F fd of None \<Rightarrow> id | Some f \<Rightarrow> owe f 1) D) f" for f
    using holders_fd[OF i(1) assms(2), of ?v r f, unfolded o(2)] i(3)[of f]
    by (cases r; cases "F fd") (auto simp: excess_def owe_def)
  then show ?thesis using i(1,2) unfolding view_ofile o(1) at_def by auto
qed

lemma quiet_upd: "(\<And>s. view (g s) = view s) \<Longrightarrow> quiet (upd g)"
  by (simp add: quiet_def)

lemma quiet_basic: "quiet (rd f)" "quiet (ret x)" "quiet (panic msg)" "quiet hang" "quiet undefined_behaviour"
  by (simp_all add: quiet_def undefined_behaviour_def)

lemma quiet_bnd: "quiet m \<Longrightarrow> (\<And>x. quiet (f x)) \<Longrightarrow> quiet (bnd m f)"
  unfolding quiet_def bnd_eq_Ret by (elim exE conjE | intro allI impI | metis)+

lemma quiet_thn: "quiet m \<Longrightarrow> quiet k \<Longrightarrow> quiet (thn m k)"
  unfolding thn_def by (rule quiet_bnd)

lemma quiet_if: "quiet m \<Longrightarrow> quiet k \<Longrightarrow> quiet (if b then m else k)"
  by simp

lemma quiet_option: "quiet m \<Longrightarrow> (\<And>x. quiet (f x)) \<Longrightarrow> quiet (case r of None \<Rightarrow> m | Some x \<Rightarrow> f x)"
  by (cases r) auto

lemmas quiet_intros = quiet_basic quiet_bnd quiet_thn quiet_if quiet_option quiet_upd

lemma quiet_locks: "quiet (acquire L)" "quiet (release L)" "quiet myproc" "quiet myproc_ptr" "quiet (initlock L nm)"
proof -
  have t: "quiet (test_and_set L)" by (auto simp: quiet_def test_and_set_def)
  show "quiet (acquire L)" "quiet (release L)" "quiet (initlock L nm)" and m: "quiet myproc"
    unfolding acquire_def release_def initlock_def holding_def push_off_def pop_off_def myproc_def
    by (intro quiet_intros t; simp)+
  show "quiet myproc_ptr" unfolding myproc_ptr_def by (intro quiet_intros m)
qed

lemma quiet_memory: "quiet kalloc" "quiet (kfree pa)" "quiet (upd_pipe pi g)"
  unfolding kalloc_def kfree_def upd_pipe_def by (intro quiet_intros quiet_locks; simp)+

lemma quiet_args: "quiet (argraw n)" "quiet (argint n)" "quiet (argaddr n)"
  unfolding argint_def argaddr_def argraw_def by (intro quiet_intros quiet_locks)+

lemmas triple_read = triple_quiet[OF quiet_locks(1)] triple_quiet[OF quiet_locks(2)] triple_quiet[OF quiet_args(2)]
  triple_quiet[OF quiet_args(3)] triple_quiet[OF quiet_memory(1)] triple_quiet[OF quiet_memory(2)]
  triple_quiet[OF quiet_memory(3)] triple_quiet[OF quiet_locks(5)]

lemma myproc_ptr_cur: "myproc_ptr s e = Ret j s' e' \<Longrightarrow> cproc (mycpu s) = Some j"
proof -
  assume "myproc_ptr s e = Ret j s' e'"
  then obtain t e1 where "myproc s e = Ret (Some j) t e1"
    by (auto simp: myproc_ptr_def bnd_eq_Ret undefined_behaviour_def split: option.splits)
  then have "cproc (mycpu (push_off_st s)) = Some j"
    by (auto simp: myproc_def push_off_def thn_def bnd_eq_Ret)
  then show ?thesis by (simp add: base_defs intr_off_def w_sstatus_def split: if_splits)
qed

lemma triple_myproc: "triple (at i F D) myproc_ptr (\<lambda>j v. j = i \<and> at i F D v)"
  using quiet_locks(4) unfolding triple_def quiet_def
  by (metis myproc_ptr_cur at_def option.inject subset_refl view.select_convs(4) view_def)

lemma at_ofile: "at i F D (view s) \<Longrightarrow> ofile (procs s i) = F"
  by (auto simp: at_def view_def at_rest_def)

lemma triple_argfd:
  "triple (at i F D) (argfd n) (\<lambda>r v. at i F D v \<and> (case r of None \<Rightarrow> True | Some (fd, f) \<Rightarrow> fd < NOFILE \<and> F fd = Some f))"
proof -
  have rd: "triple (at i F D) (rd (\<lambda>s. ofile (procs s i) fd)) (\<lambda>r v. r = F fd \<and> at i F D v)" for fd
    by (rule triple_rd) (simp add: at_ofile)
  have last: "triple (at i F D) (case r of None \<Rightarrow> ret None | Some f \<Rightarrow> ret (Some (nat fd, f)))
      (\<lambda>r v. at i F D v \<and> (case r of None \<Rightarrow> True | Some (fd, f) \<Rightarrow> fd < NOFILE \<and> F fd = Some f))"
    if "r = F (nat fd)" "\<not> (fd < 0 \<or> fd \<ge> int NOFILE)" for r fd
    using that by (cases "F (nat fd)") (auto intro!: triple_ret)
  show ?thesis unfolding argfd_def
    by (rule triple_bnd[OF triple_quiet[OF quiet_args(2)]] triple_if triple_bnd[OF triple_myproc] triple_when
        triple_bnd[OF rd] last triple_ret | assumption | simp)+
qed

lemma triple_fdalloc:
  "triple (at i F D) (fdalloc f) (\<lambda>r v. if r < 0 then at i F D v
     else \<exists>fd < NOFILE. r = int fd \<and> F fd = None \<and> at i (F(fd := Some f)) (owe f (- 1) D) v)"
  (is "triple _ _ ?Q")
proof -
  have rd: "triple (at i F D) (rd (\<lambda>s. ofile (procs s i))) (\<lambda>r v. r = F \<and> at i F D v)"
    by (rule triple_rd) (simp add: at_ofile)
  have upd: "triple (at i F D) (upd_proc i (\<lambda>p. p\<lparr>ofile := (ofile p)(fd := Some f)\<rparr>))
      (\<lambda>_. at i (F(fd := Some f)) (owe f (- 1) D))"
    if "fd < NOFILE" "F fd = None" for fd
    unfolding upd_proc_def set_proc_def
    by (rule triple_upd) (use at_fd[of i F D _ fd "Some f"] that in simp)
  have put: "triple (at i F D) (thn (upd_proc i (\<lambda>p. p\<lparr>ofile := (ofile p)(fd := Some f)\<rparr>)) (ret (int fd))) ?Q"
    if "fd < NOFILE" "F fd = None" for fd
    by (rule triple_thn[OF upd[OF that]], rule triple_ret) (use that in auto)
  have pick: "triple (at i F D) (case r of
      Some fd \<Rightarrow> thn (upd_proc i (\<lambda>p. p\<lparr>ofile := (ofile p)(fd := Some f)\<rparr>)) (ret (int fd)) | None \<Rightarrow> ret (- 1)) ?Q"
    if "r = find_index (\<lambda>fd. F fd = None) [0..<NOFILE]" for r
  proof (cases r)
    case None
    then show ?thesis by (simp add: triple_ret)
  next
    case (Some fd)
    then have "fd < NOFILE" "F fd = None" using that[symmetric] by (simp_all add: find_index_upt)
    from put[OF this] show ?thesis unfolding Some option.case .
  qed
  show ?thesis unfolding fdalloc_def
    by (rule triple_bnd[OF triple_myproc], rule triple_when, hypsubst, rule triple_bnd[OF rd], rule triple_when,
        hypsubst, rule pick, rule refl)
qed

lemma triple_clear_fd:
  assumes "fd < NOFILE" "F fd = Some f"
  shows "triple (at i F D) (clear_fd (int fd)) (\<lambda>_. at i (F(fd := None)) (owe f 1 D))"
proof -
  have "triple (at i F D) (upd_proc i (\<lambda>p. p\<lparr>ofile := (ofile p)(fd := None)\<rparr>)) (\<lambda>_. at i (F(fd := None)) (owe f 1 D))"
    unfolding upd_proc_def set_proc_def
    by (rule triple_upd) (use at_fd[of i F D _ fd None] assms in simp)
  then show ?thesis unfolding clear_fd_def
    by (intro triple_bnd[OF triple_myproc] triple_when) simp
qed

lemma view_file:
  "view (s\<lparr>ftable := T\<rparr>) = (view s)\<lparr>v_files := T\<rparr>"
  by (simp add: view_def)

lemma at_file:
  assumes "at i F D (view s)"
  shows "at i F (owe f (f_ref (g (ftable s f)) - f_ref (ftable s f)) D) (view (s\<lparr>ftable := (ftable s)(f := g (ftable s f))\<rparr>))"
proof -
  have h: "holders (view s\<lparr>v_files := T\<rparr>) x = holders (view s) x" for T x by (simp add: holders_def)
  have "v_files (view s) = ftable s" by (simp add: view_def)
  with h have "excess (view s\<lparr>v_files := (ftable s)(f := g (ftable s f))\<rparr>) x =
      owe f (f_ref (g (ftable s f)) - f_ref (ftable s f)) (excess (view s)) x" for x
    by (simp add: excess_def owe_def)
  then show ?thesis using assms unfolding view_file at_def by auto
qed

lemma triple_upd_file:
  assumes "\<And>k. f_ref (g k) = f_ref k + n"
  shows "triple (at i F D) (upd_file f g) (\<lambda>_. at i F (owe f n D))"
  unfolding upd_file_def by (rule triple_upd) (use at_file[of i F D _ f g] assms in simp)

lemma triple_set_ref:
  "triple (\<lambda>v. f_ref (v_files v f) = r \<and> at i F D v) (upd_file f (\<lambda>k. k\<lparr>f_ref := n\<rparr>)) (\<lambda>_. at i F (owe f (n - r) D))"
  unfolding upd_file_def by (rule triple_upd) (use at_file[of i F D _ f "\<lambda>k. k\<lparr>f_ref := n\<rparr>"] in \<open>auto simp: view_def\<close>)

lemma triple_lock: "triple P (acquire L) (\<lambda>_. P)" "triple P (release L) (\<lambda>_. P)"
  by (rule triple_quiet quiet_locks)+

lemma triple_filealloc:
  "triple (at i F D) filealloc (\<lambda>r. case r of None \<Rightarrow> at i F D | Some f \<Rightarrow> at i F (owe f 1 D))"
proof -
  have rd: "triple (at i F D) (rd ftable) (\<lambda>T v. T = v_files v \<and> at i F D v)"
    by (rule triple_rd) (simp add: view_def)
  have some: "triple (\<lambda>v. T = v_files v \<and> at i F D v) (thn (upd_file f (\<lambda>k. k\<lparr>f_ref := 1\<rparr>)) (thn (release L_ftable) (ret (Some f))))
      (\<lambda>r. case r of None \<Rightarrow> at i F D | Some f \<Rightarrow> at i F (owe f 1 D))" if "f_ref (T f) = 0" for T f
  proof -
    have "triple (\<lambda>v. T = v_files v \<and> at i F D v) (upd_file f (\<lambda>k. k\<lparr>f_ref := 1\<rparr>)) (\<lambda>_. at i F (owe f 1 D))"
      by (rule triple_weaken[OF triple_set_ref[where r = 0 and i = i and F = F and D = D]]) (use that in auto)
    then show ?thesis by (rule triple_thn) (rule triple_thn[OF triple_lock(2)] triple_ret | simp)+
  qed
  show ?thesis unfolding filealloc_def
    by (rule triple_thn[OF triple_lock(1)], rule triple_bnd[OF rd])
      (auto split: option.split simp: find_index_upt intro!: some triple_thn[OF triple_lock(2)] triple_ret)
qed

lemma triple_filedup: "triple (at i F D) (filedup f) (\<lambda>r v. r = f \<and> at i F (owe f 1 D) v)"
  unfolding filedup_def
  by (rule triple_thn[OF triple_lock(1)] triple_bnd[OF triple_rd[where Q = "\<lambda>_. at i F D"]] triple_if triple_basic(2)
      triple_thn[OF triple_upd_file[where n = 1]] triple_thn[OF triple_lock(2)] triple_ret | simp)+

lemma follows_upd_file:
  assumes "\<And>k. f_ref (g k) = f_ref k"
  shows "cnt.follows (upd_file f g)"
proof -
  have "balanced (view s) (view (s\<lparr>ftable := (ftable s)(f := g (ftable s f))\<rparr>))" for s :: "'a filest_scheme"
    using assms by (simp add: balanced_def excess_def holders_def view_def fun_eq_iff)
  then show ?thesis unfolding cnt.follows_def upd_file_def by simp
qed

lemma follows_pipeclose: "cnt.follows (pipeclose pi w)"
  unfolding pipeclose_def upd_pipe_def by (intro follows_intros; simp)

lemma triple_fileclose: "triple (at i F D) (fileclose f) (\<lambda>_. at i F (owe f (- 1) D))"
proof -
  have rd: "triple (at i F D) (rd (\<lambda>s. ftable s f)) (\<lambda>k v. k = v_files v f \<and> at i F D v)" for D
    by (rule triple_rd) (simp add: view_def)
  have close: "cnt.follows (if f_type ff = FD_PIPE then pipeclose (f_pipe ff) (f_writable ff)
     else if f_type ff = FD_INODE \<or> f_type ff = FD_DEVICE then thn begin_op (thn (deref (f_ip ff) iput) end_op) else ret ())" for ff
    by (intro follows_intros follows_pipeclose)
  have tail: "triple (\<lambda>v. ff = v_files v f \<and> at i F D v) (if f_ref ff > 0 then release L_ftable else
     thn (upd_file f (\<lambda>k. k\<lparr>f_ref := 0\<rparr>)) (
     thn (upd_file f (\<lambda>k. k\<lparr>f_type := FD_NONE\<rparr>)) (
     thn (release L_ftable) (
     if f_type ff = FD_PIPE then pipeclose (f_pipe ff) (f_writable ff)
     else if f_type ff = FD_INODE \<or> f_type ff = FD_DEVICE then thn begin_op (thn (deref (f_ip ff) iput) end_op) else ret ()))))
     (\<lambda>_. at i F D)" if "f_ref ff \<ge> 0" for ff D
  proof (rule triple_if)
    show "triple (\<lambda>v. ff = v_files v f \<and> at i F D v) (release L_ftable) (\<lambda>_. at i F D)"
      by (rule triple_weaken[OF triple_lock(2)]) auto
    assume "\<not> f_ref ff > 0"
    then have "f_ref ff = 0" using that by simp
    then have z: "triple (\<lambda>v. ff = v_files v f \<and> at i F D v) (upd_file f (\<lambda>k. k\<lparr>f_ref := 0\<rparr>)) (\<lambda>_. at i F D)"
      by (intro triple_weaken[OF triple_set_ref[where r = 0 and i = i and F = F and D = D]]) auto
    show "triple (\<lambda>v. ff = v_files v f \<and> at i F D v) (thn (upd_file f (\<lambda>k. k\<lparr>f_ref := 0\<rparr>)) (
     thn (upd_file f (\<lambda>k. k\<lparr>f_type := FD_NONE\<rparr>)) (
     thn (release L_ftable) (
     if f_type ff = FD_PIPE then pipeclose (f_pipe ff) (f_writable ff)
     else if f_type ff = FD_INODE \<or> f_type ff = FD_DEVICE then thn begin_op (thn (deref (f_ip ff) iput) end_op) else ret ()))))
     (\<lambda>_. at i F D)"
      by (rule triple_thn[OF z], rule triple_thn[OF triple_follows[OF follows_upd_file]], simp,
          rule triple_thn[OF triple_lock(2)], rule triple_follows[OF close])
  qed
  have ref: "triple (at i F D) (rd (\<lambda>s. f_ref (ftable s f))) (\<lambda>r v. r = f_ref (v_files v f) \<and> at i F D v)"
    by (rule triple_rd) (simp add: view_def)
  have dec: "triple (\<lambda>v. r = f_ref (v_files v f) \<and> at i F D v) (upd_file f (\<lambda>k. k\<lparr>f_ref := f_ref k - 1\<rparr>))
      (\<lambda>_ v. 0 \<le> f_ref (v_files v f) \<and> at i F (owe f (- 1) D) v)" if "\<not> r < 1" for r
    unfolding upd_file_def
    by (rule triple_upd) (use at_file[of i F D _ f "\<lambda>k. k\<lparr>f_ref := f_ref k - 1\<rparr>"] that in \<open>auto simp: view_def\<close>)
  have get: "triple (\<lambda>v. 0 \<le> f_ref (v_files v f) \<and> at i F D v) (rd (\<lambda>s. ftable s f))
      (\<lambda>ff v. 0 \<le> f_ref ff \<and> ff = v_files v f \<and> at i F D v)" for D
    by (rule triple_rd) (simp add: view_def)
  show ?thesis unfolding fileclose_def
    by (rule triple_thn[OF triple_lock(1)] triple_bnd[OF ref] triple_if triple_basic(2) triple_thn[OF dec]
        triple_bnd[OF get] triple_when tail | assumption)+
qed

section \<open>The system calls\<close>

lemma triple_close_if: "triple (at i F D) (close_if f) (\<lambda>_. at i F (case f of None \<Rightarrow> D | Some x \<Rightarrow> owe x (- 1) D))"
  unfolding close_if_def by (cases f) (auto intro: triple_fileclose triple_ret)

lemma triple_fd:
  assumes "r < 0 \<Longrightarrow> triple (at i F D) k Q"
    "\<And>fd. fd < NOFILE \<Longrightarrow> r = int fd \<Longrightarrow> F fd = None \<Longrightarrow> triple (at i (F(fd := Some f)) (owe f (- 1) D)) k Q"
  shows "triple (\<lambda>v. if r < 0 then at i F D v
     else \<exists>fd < NOFILE. r = int fd \<and> F fd = None \<and> at i (F(fd := Some f)) (owe f (- 1) D) v) k Q"
  using assms unfolding triple_def by (simp (no_asm_simp)) blast

text \<open>The calls that leave every count at its distance from the number of holders.\<close>

definition balances :: "('z filest_scheme, 'a) kop \<Rightarrow> bool" where
  "balances m \<longleftrightarrow> (\<forall>i F D. triple (at i F D) m (\<lambda>_ v. \<exists>F'. at i F' D v))"

lemma triple_done: "triple (at i F D) (ret x) (\<lambda>_ v. \<exists>F'. at i F' D v)"
  by (rule triple_ret) blast

lemma balances_dup: "balances sys_dup"
  unfolding balances_def sys_dup_def
proof (intro allI, rule triple_bnd[OF triple_argfd])
  fix r i F D
  show "triple (\<lambda>v. at i F D v \<and> (case r of None \<Rightarrow> True | Some (fd, f) \<Rightarrow> fd < NOFILE \<and> F fd = Some f))
    (case r of None \<Rightarrow> ret (- 1) | Some (_, f) \<Rightarrow> bnd (fdalloc f) (\<lambda>fd.
       if fd < 0 then ret (- 1) else thn (bnd (filedup f) (\<lambda>_. ret ())) (ret (word_of_int fd))))
    (\<lambda>_ v. \<exists>F'. at i F' D v)"
  proof (cases r)
    case (Some p)
    obtain k f where p: "p = (k, f)" by (cases p)
    have ok: "triple (at i F' (owe f (- 1) D)) (thn (bnd (filedup f) (\<lambda>_. ret ())) (ret w)) (\<lambda>_ v. \<exists>F'. at i F' D v)" for F' w
      by (rule triple_thn[where Q = "at i F' D"] triple_bnd[OF triple_filedup] triple_ret | force)+
    show ?thesis unfolding Some p option.case prod.case
      by (rule triple_when', rule triple_bnd[OF triple_fdalloc], rule triple_fd) (simp_all add: triple_done ok)
  qed (simp add: triple_when' triple_done)
qed

lemma balances_close: "balances sys_close"
  unfolding balances_def sys_close_def
proof (intro allI, rule triple_bnd[OF triple_argfd])
  fix r i F D
  show "triple (\<lambda>v. at i F D v \<and> (case r of None \<Rightarrow> True | Some (fd, f) \<Rightarrow> fd < NOFILE \<and> F fd = Some f))
    (case r of None \<Rightarrow> ret (- 1) | Some (fd, f) \<Rightarrow> thn (clear_fd (int fd)) (thn (fileclose f) (ret 0)))
    (\<lambda>_ v. \<exists>F'. at i F' D v)"
  proof (cases r)
    case (Some p)
    obtain k f where p: "p = (k, f)" by (cases p)
    have f: "triple (at i F' (owe f 1 D)) (fileclose f) (\<lambda>_. at i F' D)" for F'
      using triple_fileclose[of i F' "owe f 1 D" f] by simp
    show ?thesis unfolding Some p option.case prod.case
      by (rule triple_when', rule triple_thn[OF triple_clear_fd], blast, blast, rule triple_thn[OF f], rule triple_done)
  qed (simp add: triple_when' triple_done)
qed

lemma triple_pipealloc:
  "triple (at i F D) pipealloc (\<lambda>r. case r of None \<Rightarrow> at i F D | Some (a, b) \<Rightarrow> at i F (owe b 1 (owe a 1 D)))"
  (is "triple _ _ ?Q")
proof -
  have bad: "triple (at i F (case f1 of None \<Rightarrow> D' | Some b \<Rightarrow> owe b 1 D')) (pipe_bad pi f0 f1) ?Q"
    if "D' = (case f0 of None \<Rightarrow> D | Some a \<Rightarrow> owe a 1 D)" for pi f0 f1 D'
  proof -
    have c1: "triple (at i F (case f1 of None \<Rightarrow> D | Some b \<Rightarrow> owe b 1 D)) (close_if f1) (\<lambda>_. at i F D)"
      using triple_close_if[of i F "case f1 of None \<Rightarrow> D | Some b \<Rightarrow> owe b 1 D" f1] by (cases f1) simp_all
    have c0: "triple (at i F (case f1 of None \<Rightarrow> D' | Some b \<Rightarrow> owe b 1 D')) (close_if f0)
        (\<lambda>_. at i F (case f1 of None \<Rightarrow> D | Some b \<Rightarrow> owe b 1 D))"
      using triple_close_if[of i F "case f1 of None \<Rightarrow> D' | Some b \<Rightarrow> owe b 1 D'" f0] that
      by (cases f0; cases f1) simp_all
    show ?thesis unfolding pipe_bad_def
      by (rule triple_thn[OF triple_if], rule triple_quiet, rule quiet_memory, rule triple_ret, assumption,
          rule triple_thn[OF c0], rule triple_thn[OF c1], rule triple_ret, simp)
  qed
  have b0: "triple (at i F D) (pipe_bad pi None None) ?Q" for pi using bad[of D None None pi] by simp
  have b1: "triple (at i F (owe a 1 D)) (pipe_bad pi (Some a) None) ?Q" for pi a using bad[of "owe a 1 D" "Some a" None pi] by simp
  have b2: "triple (at i F (owe b 1 (owe a 1 D))) (pipe_bad pi (Some a) (Some b)) ?Q" for pi a b
    using bad[of "owe a 1 D" "Some a" "Some b" pi] by simp
  have made: "triple (at i F D') (thn (upd_pipe pi (\<lambda>p. p\<lparr>preadopen := 1\<rparr>)) (
     thn (upd_pipe pi (\<lambda>p. p\<lparr>pwriteopen := 1\<rparr>)) (
     thn (upd_pipe pi (\<lambda>p. p\<lparr>pnwrite := 0\<rparr>)) (
     thn (upd_pipe pi (\<lambda>p. p\<lparr>pnread := 0\<rparr>)) (
     thn (initlock (L_pipe pi) ''pipe'') (
     thn (upd_file f0 (\<lambda>k. k\<lparr>f_type := FD_PIPE, f_readable := 1, f_writable := 0, f_pipe := pi\<rparr>)) (
     thn (upd_file f1 (\<lambda>k. k\<lparr>f_type := FD_PIPE, f_readable := 0, f_writable := 1, f_pipe := pi\<rparr>))
     (ret (Some (f0, f1)))))))))) ?Q" if "D' = owe f1 1 (owe f0 1 D)" for f0 f1 pi D'
    by (rule triple_thn[OF triple_quiet[OF quiet_memory(3)]] triple_thn[OF triple_quiet[OF quiet_locks(5)]]
        triple_thn[OF triple_follows[OF follows_upd_file]] triple_ret | simp add: that)+
  show ?thesis unfolding pipealloc_def
    apply (rule triple_bnd[OF triple_filealloc])
    subgoal for r0
      apply (cases r0; simp only: option.case)
       apply (rule b0)
      apply (rule triple_bnd[OF triple_filealloc])
      subgoal for f0 r1
        apply (cases r1; simp only: option.case)
         apply (rule b1)
        apply (rule triple_bnd[OF triple_quiet[OF quiet_memory(1)]])
        apply (rule triple_if)
        apply (rule b2)
        apply (rule made)
        apply (rule refl)
        done
      done
    done
qed

lemma triple_closes:
  "triple (at i F (owe w 1 (owe r 1 D))) (thn (fileclose r) (thn (fileclose w) (ret x))) (\<lambda>_ v. \<exists>F'. at i F' D v)"
proof -
  have 1: "triple (at i F (owe w 1 (owe r 1 D))) (fileclose r) (\<lambda>_. at i F (owe w 1 D))"
    using triple_fileclose[of i F "owe w 1 (owe r 1 D)" r] by simp
  have 2: "triple (at i F (owe w 1 D)) (fileclose w) (\<lambda>_. at i F D)"
    using triple_fileclose[of i F "owe w 1 D" w] by simp
  show ?thesis by (rule triple_thn[OF 1] triple_thn[OF 2] triple_done)+
qed

lemma triple_clear_if:
  assumes "0 \<le> fd \<Longrightarrow> fd < int NOFILE \<and> F (nat fd) = Some f"
  shows "triple (at i F D) (if fd \<ge> 0 then clear_fd fd else ret ())
    (\<lambda>_. at i (if fd \<ge> 0 then F(nat fd := None) else F) (if fd \<ge> 0 then owe f 1 D else D))"
proof (cases "fd \<ge> 0")
  case True
  then have "nat fd < NOFILE" "F (nat fd) = Some f" using assms by auto
  from triple_clear_fd[of "nat fd" F f i D, OF this] True show ?thesis by simp
qed (simp add: triple_ret)

lemma triple_pipe_undo:
  assumes "0 \<le> fd0 \<Longrightarrow> fd0 < int NOFILE \<and> F (nat fd0) = Some r" "0 \<le> fd1 \<Longrightarrow> fd1 < int NOFILE \<and> F (nat fd1) = Some w"
    "0 \<le> fd0 \<Longrightarrow> 0 \<le> fd1 \<Longrightarrow> fd0 \<noteq> fd1"
    and D: "owe w (if fd1 \<ge> 0 then 1 else 0) (owe r (if fd0 \<ge> 0 then 1 else 0) E) = owe w 1 (owe r 1 D)"
  shows "triple (at i F E) (pipe_undo fd0 fd1 r w) (\<lambda>_ v. \<exists>F'. at i F' D v)"
proof -
  let ?F = "if fd0 \<ge> 0 then F(nat fd0 := None) else F" and ?E = "if fd0 \<ge> 0 then owe r 1 E else E"
  have "(if fd1 \<ge> 0 then owe w 1 ?E else ?E) = owe w 1 (owe r 1 D)" using D by (auto split: if_splits)
  moreover have "0 \<le> fd1 \<Longrightarrow> fd1 < int NOFILE \<and> ?F (nat fd1) = Some w" using assms(2,3) by auto
  ultimately show ?thesis unfolding pipe_undo_def
    using triple_clear_if[of fd1 ?F w i ?E]
    by (intro triple_thn[OF triple_clear_if[of fd0 F r, OF assms(1)]] triple_thn[OF _ triple_closes]) simp_all
qed

lemma balances_pipe:
  assumes "vm_quiet V"
  shows "balances (sys_pipe V)"
proof -
  have q: "triple P (v_copyout V pt a bs) (\<lambda>_. P)" for P pt a bs
    using assms by (simp add: vm_quiet_def triple_quiet)
  have rdq: "triple P (rd f) (\<lambda>_. P)" for P and f :: "'a filest_scheme \<Rightarrow> addr"
    by (rule triple_rd)
  show ?thesis unfolding balances_def sys_pipe_def
  proof (intro allI, rule triple_bnd[OF triple_myproc], rule triple_when, rule triple_bnd[OF triple_quiet[OF quiet_args(3)]],
      rule triple_bnd[OF triple_pipealloc])
    fix i j :: nat and F :: "nat \<Rightarrow> nat option" and D fdarray r
    assume j: "j = i"
    show "triple (case r of None \<Rightarrow> at i F D | Some (a, b) \<Rightarrow> at i F (owe b 1 (owe a 1 D)))
     (case r of None \<Rightarrow> ret (- 1) | Some (rdf, wrf) \<Rightarrow>
     bnd (fdalloc rdf) (\<lambda>fd0.
     if fd0 < 0 then pipe_undo (- 1) (- 1) rdf wrf else
     bnd (fdalloc wrf) (\<lambda>fd1.
     if fd1 < 0 then pipe_undo fd0 (- 1) rdf wrf else
     bnd (rd (\<lambda>s. pagetable (procs s j))) (\<lambda>pt.
     bnd (v_copyout V pt fdarray (int_bytes fd0)) (\<lambda>r.
     if r < 0 then pipe_undo fd0 fd1 rdf wrf else
     bnd (rd (\<lambda>s. pagetable (procs s j))) (\<lambda>pt.
     bnd (v_copyout V pt (fdarray + 4) (int_bytes fd1)) (\<lambda>r.
     if r < 0 then pipe_undo fd0 fd1 rdf wrf else ret 0)))))))
     (\<lambda>_ v. \<exists>F'. at i F' D v)"
    proof (cases r)
      case (Some p)
      obtain a b where p: "p = (a, b)" by (cases p)
      have two: "triple (at i (F(k := Some a, l := Some b)) D)
         (bnd (rd (\<lambda>s. pagetable (procs s j))) (\<lambda>pt.
          bnd (v_copyout V pt fdarray (int_bytes (int k))) (\<lambda>r.
          if r < 0 then pipe_undo (int k) (int l) a b else
          bnd (rd (\<lambda>s. pagetable (procs s j))) (\<lambda>pt.
          bnd (v_copyout V pt (fdarray + 4) (int_bytes (int l))) (\<lambda>r.
          if r < 0 then pipe_undo (int k) (int l) a b else ret 0)))))
         (\<lambda>_ v. \<exists>F'. at i F' D v)" if "k < NOFILE" "l < NOFILE" "k \<noteq> l" for k l
      proof -
        have u: "triple (at i (F(k := Some a, l := Some b)) D) (pipe_undo (int k) (int l) a b) (\<lambda>_ v. \<exists>F'. at i F' D v)"
          using that by (intro triple_pipe_undo) auto
        show ?thesis by (rule triple_bnd[OF rdq] triple_bnd[OF q] triple_if u triple_done)+
      qed
      let ?Q = "\<lambda>_ v. \<exists>F'. at i F' D v"
      let ?two = "\<lambda>fd0 fd1. bnd (rd (\<lambda>s. pagetable (procs s j))) (\<lambda>pt.
          bnd (v_copyout V pt fdarray (int_bytes fd0)) (\<lambda>r.
          if r < 0 then pipe_undo fd0 fd1 a b else
          bnd (rd (\<lambda>s. pagetable (procs s j))) (\<lambda>pt.
          bnd (v_copyout V pt (fdarray + 4) (int_bytes fd1)) (\<lambda>r.
          if r < 0 then pipe_undo fd0 fd1 a b else ret 0))))"
      have none: "triple (at i F (owe b 1 (owe a 1 D))) (pipe_undo (- 1) (- 1) a b) ?Q"
        by (intro triple_pipe_undo) auto
      have one: "triple (at i (F(k := Some a)) (owe b 1 D)) (pipe_undo (int k) (- 1) a b) ?Q" if "k < NOFILE" for k
        using that by (intro triple_pipe_undo) (auto simp: owe_def)
      have second: "triple (at i (F(k := Some a)) (owe b 1 D)) (bnd (fdalloc b) (\<lambda>fd1.
          if fd1 < 0 then pipe_undo (int k) (- 1) a b else ?two (int k) fd1)) ?Q" if k: "k < NOFILE" for k
      proof (rule triple_bnd[OF triple_fdalloc], rule triple_fd)
        fix fd1 :: int and l
        assume l: "l < NOFILE" "fd1 = int l" "(F(k := Some a)) l = None"
        then have "k \<noteq> l" by auto
        with two[OF k l(1)] show "triple (at i (F(k := Some a, l := Some b)) (owe b (- 1) (owe b 1 D)))
          (if fd1 < 0 then pipe_undo (int k) (- 1) a b else ?two (int k) fd1) ?Q" unfolding l(2) by simp
      qed (use one[OF k] in simp)
      have first: "triple (at i F (owe b 1 (owe a 1 D))) (bnd (fdalloc a) (\<lambda>fd0.
          if fd0 < 0 then pipe_undo (- 1) (- 1) a b else bnd (fdalloc b) (\<lambda>fd1.
          if fd1 < 0 then pipe_undo fd0 (- 1) a b else ?two fd0 fd1))) ?Q"
      proof (rule triple_bnd[OF triple_fdalloc], rule triple_fd)
        fix fd0 :: int and k
        assume k: "k < NOFILE" "fd0 = int k" "F k = None"
        show "triple (at i (F(k := Some a)) (owe a (- 1) (owe b 1 (owe a 1 D)))) (if fd0 < 0 then pipe_undo (- 1) (- 1) a b
          else bnd (fdalloc b) (\<lambda>fd1. if fd1 < 0 then pipe_undo fd0 (- 1) a b else ?two fd0 fd1)) ?Q"
          using second[OF k(1)] unfolding k(2) by simp
      qed (use none in simp)
      show ?thesis unfolding Some p option.case prod.case by (rule first)
    qed (simp add: triple_done)
  qed
qed

subsection \<open>Opening\<close>

lemma follows_create:
  assumes "vm_quiet V"
  shows "cnt.follows (create V path ty mj mn)" "cnt.follows (open_inode V path om)"
proof -
  note d = cnt.follows_dir[OF assms] cnt.follows_namex[OF assms]
  have l: "cnt.follows (add_link ip k)" for ip k unfolding add_link_def by (intro follows_intros)
  have f: "cnt.follows (create_fail dp ip)" for dp ip unfolding create_fail_def by (intro follows_intros)
  have m: "cnt.follows (make_dots V dp ip)" for dp ip unfolding make_dots_def by (intro follows_intros d)
  have n: "cnt.follows (create_new V dp name ip ty mj mn)" for dp name ip ty mj mn
    unfolding create_new_def by (intro follows_intros d l f m)
  show c: "cnt.follows (create V path ty mj mn)" for ty mj mn
    unfolding create_def by (intro follows_intros d n)
  show "cnt.follows (open_inode V path om)"
    unfolding open_inode_def by (intro follows_intros d c)
qed

lemma follows_argstr:
  assumes "vm_quiet V"
  shows "cnt.follows (argstr V n mx)" "cnt.follows (argint n)" "cnt.follows end_fail"
  unfolding argstr_def fetchstr_def argint_def argaddr_def argraw_def end_fail_def Let_def
  by (intro follows_intros cnt.follows_vm[OF assms])+

lemma balances_open:
  assumes "vm_quiet V"
  shows "balances (sys_open V)"
proof -
  have fail: "triple (at i F (case f of None \<Rightarrow> D | Some x \<Rightarrow> owe x 1 D)) (open_fail ip f) (\<lambda>_ v. \<exists>F'. at i F' D v)" for i F D f ip
  proof -
    have c: "triple (at i F (case f of None \<Rightarrow> D | Some x \<Rightarrow> owe x 1 D)) (close_if f) (\<lambda>_. at i F D)"
      using triple_close_if[of i F "case f of None \<Rightarrow> D | Some x \<Rightarrow> owe x 1 D" f] by (cases f) simp_all
    show ?thesis unfolding open_fail_def end_fail_def
      by (rule triple_thn[OF c] triple_thn[OF triple_follows] triple_done follows_intros)+
  qed
  have op: "cnt.follows (open_file f ip om)" for f ip om
    unfolding open_file_def by (intro follows_intros follows_upd_file) simp_all
  have some: "triple (at i F D) (bnd filealloc (\<lambda>r. case r of None \<Rightarrow> open_fail ip None | Some f \<Rightarrow>
       bnd (fdalloc f) (\<lambda>fd. if fd < 0 then open_fail ip (Some f) else
       thn (open_file f ip om) (thn (iunlock (Some ip)) (thn end_op (ret (word_of_int fd)))))))
     (\<lambda>_ v. \<exists>F'. at i F' D v)" for i F D ip om
  proof (rule triple_bnd[OF triple_filealloc])
    fix r
    show "triple (case r of None \<Rightarrow> at i F D | Some f \<Rightarrow> at i F (owe f 1 D)) (case r of None \<Rightarrow> open_fail ip None | Some f \<Rightarrow>
       bnd (fdalloc f) (\<lambda>fd. if fd < 0 then open_fail ip (Some f) else
       thn (open_file f ip om) (thn (iunlock (Some ip)) (thn end_op (ret (word_of_int fd))))))
     (\<lambda>_ v. \<exists>F'. at i F' D v)"
    proof (cases r)
      case None
      then show ?thesis using fail[of i F D None ip] by simp
    next
      case (Some f)
      have ok: "triple (at i F' D) (thn (open_file f ip om) (thn (iunlock (Some ip)) (thn end_op (ret w)))) (\<lambda>_ v. \<exists>F'. at i F' D v)" for F' w
        by (rule triple_thn[OF triple_follows[OF op]] triple_thn[OF triple_follows[OF cnt.follows_iget(4)]]
            triple_thn[OF triple_follows[OF cnt.follows_log(2)]] triple_done)+
      show ?thesis unfolding Some option.case
      proof (rule triple_bnd[OF triple_fdalloc], rule triple_fd)
        fix fd :: int and k
        assume k: "fd = int k"
        show "triple (at i (F(k := Some f)) (owe f (- 1) (owe f 1 D))) (if fd < 0 then open_fail ip (Some f) else
          thn (open_file f ip om) (thn (iunlock (Some ip)) (thn end_op (ret (word_of_int fd))))) (\<lambda>_ v. \<exists>F'. at i F' D v)"
          using ok unfolding k by simp
      qed (use fail[of i F D "Some f" ip] in simp)
    qed
  qed
  have bad: "triple (at i F D) (thn (iunlockput ip) end_fail) (\<lambda>_ v. \<exists>F'. at i F' D v)"
    "triple (at i F D) end_fail (\<lambda>_ v. \<exists>F'. at i F' D v)" for i F D ip
    unfolding end_fail_def by (rule triple_thn[OF triple_follows] triple_done follows_intros)+
  have it: "triple (at i F D) (bnd (rd (\<lambda>s. itable s ip)) (\<lambda>p. if i_type p = T_DEVICE \<and> \<not> device (i_major p)
       then thn (iunlockput ip) end_fail else bnd filealloc (\<lambda>r. case r of None \<Rightarrow> open_fail ip None | Some f \<Rightarrow>
       bnd (fdalloc f) (\<lambda>fd. if fd < 0 then open_fail ip (Some f) else
       thn (open_file f ip om) (thn (iunlock (Some ip)) (thn end_op (ret (word_of_int fd))))))))
     (\<lambda>_ v. \<exists>F'. at i F' D v)" for i F D ip om
    by (rule triple_bnd[OF triple_quiet[OF quiet_basic(1)]], rule triple_if, rule bad, rule some)
  show ?thesis unfolding balances_def sys_open_def Let_def
  proof (intro allI, rule triple_bnd[OF triple_quiet[OF quiet_args(2)]], rule triple_bnd[OF triple_follows[OF follows_argstr(1)[OF assms]]])
    fix i F D om p
    show "triple (at i F D) (case p of (r, path) \<Rightarrow> if r < 0 then ret (- 1) else thn begin_op (
       bnd (open_inode V path (word_of_int om)) (\<lambda>ipo. case ipo of None \<Rightarrow> end_fail | Some ip \<Rightarrow>
       bnd (rd (\<lambda>s. itable s ip)) (\<lambda>p. if i_type p = T_DEVICE \<and> \<not> device (i_major p)
       then thn (iunlockput ip) end_fail else bnd filealloc (\<lambda>r. case r of None \<Rightarrow> open_fail ip None | Some f \<Rightarrow>
       bnd (fdalloc f) (\<lambda>fd. if fd < 0 then open_fail ip (Some f) else
       thn (open_file f ip (word_of_int om)) (thn (iunlock (Some ip)) (thn end_op (ret (word_of_int fd))))))))))
     (\<lambda>_ v. \<exists>F'. at i F' D v)"
      by (cases p) (auto split: option.split simp del: if_split
          intro!: triple_if triple_done triple_thn[OF triple_follows[OF cnt.follows_log(1)]]
            triple_bnd[OF triple_follows[OF follows_create(2)[OF assms]]] it bad)
  qed
qed

subsection \<open>Exit\<close>

lemma triple_close_fd:
  assumes "fd < NOFILE"
  shows "triple (at i F D) (close_fd i fd) (\<lambda>_. at i (F(fd := None)) D)"
proof -
  have rd: "triple (at i F D) (rd (\<lambda>s. ofile (procs s i) fd)) (\<lambda>r v. r = F fd \<and> at i F D v)"
    by (rule triple_rd) (simp add: at_ofile)
  have clear: "triple (at i F (owe f (- 1) D)) (upd_proc i (\<lambda>p. p\<lparr>ofile := (ofile p)(fd := None)\<rparr>)) (\<lambda>_. at i (F(fd := None)) D)"
    if "F fd = Some f" for f
    unfolding upd_proc_def set_proc_def
    by (rule triple_upd) (use at_fd[of i F "owe f (- 1) D" _ fd None] assms that in simp)
  have "triple (at i F D) (case r of None \<Rightarrow> ret () | Some f \<Rightarrow> thn (fileclose f)
      (upd_proc i (\<lambda>p. p\<lparr>ofile := (ofile p)(fd := None)\<rparr>))) (\<lambda>_. at i (F(fd := None)) D)" if "r = F fd" for r
  proof (cases r)
    case None
    then show ?thesis using that by (auto intro!: triple_ret simp: fun_upd_idem)
  next
    case (Some f)
    then show ?thesis using that by (auto intro!: triple_thn[OF triple_fileclose] clear)
  qed
  then show ?thesis unfolding close_fd_def by (intro triple_bnd[OF rd] triple_when) blast
qed

lemma triple_close_all:
  "\<forall>fd \<in> set fds. fd < NOFILE \<Longrightarrow> triple (at i F D) (foreach fds (close_fd i)) (\<lambda>_ v. \<exists>F'. at i F' D v)"
proof (induction fds arbitrary: F)
  case (Cons fd fds)
  then show ?case by (auto intro!: triple_thn[OF triple_close_fd])
qed (auto intro!: triple_done[unfolded ret_def] simp: triple_def)

text \<open>Operations that neither give up the CPU nor touch a file or a descriptor.\<close>

definition fds :: "view \<Rightarrow> (nat \<Rightarrow> file_t) \<times> nat option \<times> (nat \<Rightarrow> nat \<Rightarrow> nat option)" where
  "fds v = (v_files v, v_cur v, \<lambda>j. ofile (v_procs v j))"

definition still :: "('z filest_scheme, 'a) kop \<Rightarrow> bool" where
  "still m \<longleftrightarrow> (\<forall>s e x s' e'. m s e = Ret x s' e' \<longrightarrow> fds (view s') = fds (view s) \<and> e' = e)"

lemma still_quiet: "quiet m \<Longrightarrow> still m"
  unfolding still_def quiet_def by metis

lemma still_bnd: "still m \<Longrightarrow> (\<And>x. still (f x)) \<Longrightarrow> still (bnd m f)"
  unfolding still_def bnd_eq_Ret by (elim exE conjE | intro allI impI | metis)+

lemma still_thn: "still m \<Longrightarrow> still k \<Longrightarrow> still (thn m k)"
  unfolding thn_def by (rule still_bnd)

lemma still_when: "still m \<Longrightarrow> still (whenm b m)"
  by (simp add: whenm_def still_quiet[OF quiet_basic(2)])

lemma still_cases: "still m \<Longrightarrow> still k \<Longrightarrow> still (if b then m else k)"
  "still m \<Longrightarrow> (\<And>x. still (f x)) \<Longrightarrow> still (case r of None \<Rightarrow> m | Some x \<Rightarrow> f x)"
  by (auto split: option.split)

lemma still_upd_proc: "(\<And>p. ofile (f p) = ofile p) \<Longrightarrow> still (upd_proc j f)"
  unfolding upd_proc_def set_proc_def by (auto simp: still_def fds_def view_def at_rest_def fun_eq_iff)

lemma still_upd_tf: "still (upd_tf j f)"
  unfolding upd_tf_def by (auto simp: still_def fds_def view_def)

lemmas still_intros = still_bnd still_thn still_when still_cases still_upd_tf still_quiet[OF quiet_basic(1)] still_quiet[OF quiet_basic(2)]
  still_quiet[OF quiet_basic(3)] still_quiet[OF quiet_locks(1)] still_quiet[OF quiet_locks(2)] still_quiet[OF quiet_locks(4)]
  still_quiet[OF quiet_memory(1)] still_quiet[OF quiet_memory(2)]

lemma at_fds: "fds u = fds v \<Longrightarrow> at i F D u \<longleftrightarrow> at i F D v"
  by (auto simp: at_def fds_def excess_def holders_def fun_eq_iff)

lemma triple_still: "still m \<Longrightarrow> (\<And>u v. fds u = fds v \<Longrightarrow> P u \<Longrightarrow> P v) \<Longrightarrow> triple P m (\<lambda>_. P)"
  unfolding triple_def still_def by (metis subset_refl)

lemma follows_still: "still m \<Longrightarrow> cnt.follows m"
proof -
  have "fds v = fds u \<Longrightarrow> balanced u v" for u v
    by (auto simp: fds_def balanced_def excess_def holders_def fun_eq_iff)
  then show "still m \<Longrightarrow> cnt.follows m" unfolding cnt.follows_def still_def by (metis subset_refl)
qed

lemma balances_exit: "balances (bnd myproc_ptr exit_files)"
proof -
  have dir: "cnt.follows (bnd (rd (\<lambda>s. cwd (procs s i))) (\<lambda>c. thn (deref c iput) (thn end_op (upd_proc i (\<lambda>p. p\<lparr>cwd := None\<rparr>)))))" for i
    by (intro follows_intros follows_still still_upd_proc) simp
  have ex: "triple (\<lambda>v. \<exists>F'. at i F' D v) (thn begin_op (bnd (rd (\<lambda>s. cwd (procs s i))) (\<lambda>c. thn (deref c iput) (thn end_op (upd_proc i (\<lambda>p. p\<lparr>cwd := None\<rparr>))))))
      (\<lambda>_ v. \<exists>F'. at i F' D v)" for i D
  proof -
    have "triple (at i F' D) (thn begin_op (bnd (rd (\<lambda>s. cwd (procs s i))) (\<lambda>c. thn (deref c iput) (thn end_op (upd_proc i (\<lambda>p. p\<lparr>cwd := None\<rparr>)))))) (\<lambda>_. at i F' D)" for F'
      by (intro triple_follows follows_intros dir)
    then show ?thesis unfolding triple_def by blast
  qed
  show ?thesis unfolding balances_def exit_files_def
    by (intro allI triple_bnd[OF triple_myproc] triple_when) (hypsubst, rule triple_thn[OF triple_close_all ex], simp)
qed

subsection \<open>Fork\<close>

lemma acquire_procs: "acquire L s e = Ret x t e' \<Longrightarrow> procs t = procs s \<and> e' = e"
  by (auto simp: acquire_def push_off_def holding_def test_and_set_def thn_def bnd_eq_Ret base_defs intr_off_def w_sstatus_def split: if_splits)

lemma release_procs: "release L s e = Ret x t e' \<Longrightarrow> procs t = procs s \<and> e' = e"
  by (auto simp: release_def pop_off_def holding_def thn_def bnd_eq_Ret base_defs intr_on_def w_sstatus_def split: if_splits)

lemma find_unused_slot:
  "find_unused s e = Ret (Some np) t e' \<Longrightarrow> np < NPROC \<and> pstate (procs s np) = UNUSED"
proof -
  let ?b = "\<lambda>i. thn (acquire (L_proc i)) (bnd (rd (\<lambda>s. pstate (procs s i) = UNUSED)) (\<lambda>hit. if hit then ret (Some i)
      else thn (release (L_proc i)) (ret None)))"
  have "for_until is ?b s e = Ret (Some np) t e' \<Longrightarrow> np \<in> set is \<and> pstate (procs s np) = UNUSED" for "is"
  proof (induction "is" arbitrary: s e)
    case (Cons j js)
    then obtain r t1 e1 where b: "?b j s e = Ret r t1 e1" and k: "(case r of Some x \<Rightarrow> ret (Some x) | None \<Rightarrow> for_until js ?b) t1 e1 = Ret (Some np) t e'"
      unfolding for_until.simps bnd_eq_Ret by blast
    show ?case
    proof (cases r)
      case None
      then have p: "procs t1 = procs s" using b by (auto simp: thn_def bnd_eq_Ret split: if_splits dest!: acquire_procs release_procs)
      have "for_until js ?b t1 e1 = Ret (Some np) t e'" using k unfolding None option.case .
      from Cons.IH[OF this] p show ?thesis by simp
    next
      case (Some i)
      then show ?thesis using b k by (auto simp: thn_def bnd_eq_Ret split: if_splits dest!: acquire_procs release_procs)
    qed
  qed simp
  from this[of "[0..<NPROC]"] show "find_unused s e = Ret (Some np) t e' \<Longrightarrow> np < NPROC \<and> pstate (procs s np) = UNUSED"
    by (simp add: find_unused_def)
qed

lemma still_for_until: "(\<And>i. still (b i)) \<Longrightarrow> still (for_until is b)"
proof (induction "is")
  case Nil
  show ?case unfolding for_until.simps by (rule still_intros)
next
  case (Cons i "is")
  show ?case unfolding for_until.simps by (rule still_intros Cons)+
qed

lemma still_allocproc:
  assumes "vm_quiet V"
  shows "still find_unused" "still (freeproc V j)" "still (proc_pagetable V j)" "still (allocproc V)" "still (v_uvmcopy V pt qt n)"
proof -
  have v: "quiet (v_uvmcreate V)" "quiet (v_mappages V pt a b c d)" "quiet (v_uvmfree V pt b)"
    "quiet (v_uvmunmap V pt a b k)" "quiet (v_uvmcopy V pt qt b)" for pt qt a b c d k
    using assms by (simp_all add: vm_quiet_def)
  note q = v[THEN still_quiet]
  show u: "still find_unused" unfolding find_unused_def by (rule still_for_until) (intro still_intros)
  show f: "still (freeproc V j)" for j
    unfolding freeproc_def proc_freepagetable_def by (intro still_intros q still_upd_proc) simp_all
  show p: "still (proc_pagetable V j)" for j unfolding proc_pagetable_def by (intro still_intros q)
  have n: "quiet allocpid" unfolding allocpid_def by (intro quiet_intros quiet_locks) simp
  show "still (allocproc V)"
    unfolding allocproc_def alloc_fail_def by (intro still_intros still_quiet[OF n] u f p still_upd_proc) simp_all
  show "still (v_uvmcopy V pt qt n)" by (rule q)
qed

lemma allocproc_slot:
  "allocproc V s e = Ret (Some np) t e' \<Longrightarrow> np < NPROC \<and> pstate (procs s np) = UNUSED"
  by (auto simp: allocproc_def alloc_fail_def thn_def bnd_eq_Ret ret_def split: option.splits if_splits dest!: find_unused_slot)

text \<open>The child has no open file from descriptor \<open>n\<close> on.\<close>

definition closed_from :: "nat \<Rightarrow> nat \<Rightarrow> view \<Rightarrow> bool" where
  "closed_from np n v \<longleftrightarrow> np < NPROC \<and> (\<forall>fd. n \<le> fd \<longrightarrow> fd < NOFILE \<longrightarrow> ofile (v_procs v np) fd = None)"

lemma closed_fds: "fds u = fds v \<Longrightarrow> closed_from np n u \<longleftrightarrow> closed_from np n v"
  by (auto simp: closed_from_def fds_def fun_eq_iff)

lemma triple_closed:
  assumes "triple P m Q" "\<And>s e x s' e'. m s e = Ret x s' e' \<Longrightarrow> v_procs (view s') = v_procs (view s)"
  shows "triple (\<lambda>v. P v \<and> closed_from np n v) m (\<lambda>x v. Q x v \<and> closed_from np n v)"
  unfolding triple_def
proof (intro allI impI, elim conjE)
  fix s e x s' e'
  assume a: "P (view s)" "closed_from np n (view s)" "\<forall>g \<in> set e. keeps_counts g" "m s e = Ret x s' e'"
  show "(Q x (view s') \<and> closed_from np n (view s')) \<and> set e' \<subseteq> set e"
    using tripleD[OF assms(1) a(1,3,4)] a(2) assms(2)[OF a(4)] by (simp add: closed_from_def)
qed

lemma triple_dup_put:
  assumes "fd < NOFILE"
  shows "triple (\<lambda>v. at i F (owe f 1 D) v \<and> closed_from np fd v)
    (upd_proc np (\<lambda>p. p\<lparr>ofile := (ofile p)(fd := Some f)\<rparr>) :: ('z filest_scheme, unit) kop)
    (\<lambda>_ v. (\<exists>F'. at i F' D v) \<and> closed_from np (Suc fd) v)"
  unfolding upd_proc_def set_proc_def
proof (rule triple_upd)
  fix s :: "'z filest_scheme"
  assume P: "at i F (owe f 1 D) (view s) \<and> closed_from np fd (view s)"
  let ?t = "s\<lparr>procs := (procs s)(np := (procs s np)\<lparr>ofile := (ofile (procs s np))(fd := Some f)\<rparr>)\<rparr>"
  have np: "np < NPROC" "ofile (v_procs (view s) np) fd = None" using P assms by (auto simp: closed_from_def)
  have o: "ofile (procs s np) = ofile (v_procs (view s) np)" by (simp add: view_def at_rest_def)
  let ?F = "if np = i then F(fd := Some f) else F"
  have ex: "excess (view s) g = owe f 1 D g" for g using P by (simp add: at_def)
  have "excess (view ?t) g = D g" for g
    using ex[of g] np(2) holders_fd[OF np(1) assms, of "view s" "Some f" g]
    unfolding view_ofile o by (auto simp: excess_def owe_def split: if_splits)
  moreover have "ofile (v_procs (view ?t) i) = ?F" "v_cur (view ?t) = Some i" "i < NPROC"
    using P by (auto simp: at_def view_def at_rest_def fun_eq_iff)
  moreover have "closed_from np (Suc fd) (view ?t)"
    using P by (auto simp: closed_from_def view_def at_rest_def)
  ultimately show "(\<exists>F'. at i F' D (view ?t)) \<and> closed_from np (Suc fd) (view ?t)"
    unfolding at_def by blast
qed

lemma triple_dup_one:
  assumes "fd < NOFILE"
  shows "triple (\<lambda>v. at i F D v \<and> closed_from np fd v) (dup_one i np fd) (\<lambda>_ v. (\<exists>F'. at i F' D v) \<and> closed_from np (Suc fd) v)"
proof -
  have rd: "triple (\<lambda>v. at i F D v \<and> closed_from np fd v) (rd (\<lambda>s. ofile (procs s i) fd))
      (\<lambda>r v. r = F fd \<and> at i F D v \<and> closed_from np fd v)"
    by (rule triple_rd) (auto simp: at_ofile)
  have "triple (\<lambda>v. at i F D v \<and> closed_from np fd v) (case r of None \<Rightarrow> ret ()
      | Some f \<Rightarrow> bnd (filedup f) (\<lambda>f'. upd_proc np (\<lambda>p. p\<lparr>ofile := (ofile p)(fd := Some f')\<rparr>)))
     (\<lambda>_ v. (\<exists>F'. at i F' D v) \<and> closed_from np (Suc fd) v)" for r
  proof (cases r)
    case None
    then show ?thesis by (auto intro!: triple_ret simp: closed_from_def)
  next
    case (Some f)
    have dup: "triple (\<lambda>v. at i F D v \<and> closed_from np fd v) (filedup f)
        (\<lambda>r v. (r = f \<and> at i F (owe f 1 D) v) \<and> closed_from np fd v)"
    proof -
      have "v_procs (view s') = v_procs (view s)" if "filedup f s e = Ret x s' e'" for s e x s' e'
        using that by (auto simp: filedup_def thn_def bnd_eq_Ret view_def split: if_splits dest!: acquire_procs release_procs)
      then show ?thesis by (intro triple_closed triple_filedup)
    qed
    note put = triple_dup_put[OF assms]
    show ?thesis unfolding Some option.case
    proof (rule triple_bnd[OF dup])
      fix x
      show "triple (\<lambda>v. (x = f \<and> at i F (owe f 1 D) v) \<and> closed_from np fd v) (upd_proc np (\<lambda>p. p\<lparr>ofile := (ofile p)(fd := Some x)\<rparr>))
          (\<lambda>_ v. (\<exists>F'. at i F' D v) \<and> closed_from np (Suc fd) v)"
      proof (cases "x = f")
        case True
        show ?thesis using put True by simp
      next
        case False
        then show ?thesis by (intro triple_False) simp
      qed
    qed
  qed
  then show ?thesis unfolding dup_one_def by (intro triple_bnd[OF rd] triple_when)
qed

lemma triple_dup_all:
  "n \<le> NOFILE \<Longrightarrow> triple (\<lambda>v. (\<exists>F. at i F D v) \<and> closed_from np (NOFILE - n) v) (foreach [NOFILE - n..<NOFILE] (dup_one i np))
     (\<lambda>_ v. \<exists>F. at i F D v)"
proof (induction n)
  case 0
  then show ?case by (simp add: triple_def)
next
  case (Suc n)
  let ?k = "NOFILE - Suc n"
  have k: "?k < NOFILE" "Suc ?k = NOFILE - n" using Suc.prems by auto
  have one: "triple (\<lambda>v. (\<exists>F. at i F D v) \<and> closed_from np ?k v) (dup_one i np ?k)
      (\<lambda>_ v. (\<exists>F. at i F D v) \<and> closed_from np (NOFILE - n) v)"
    using triple_dup_one[OF k(1), of i _ D np] unfolding k(2) triple_def by blast
  have "[?k..<NOFILE] = ?k # [NOFILE - n..<NOFILE]" using k by (metis upt_conv_Cons)
  then have eq: "foreach [?k..<NOFILE] (dup_one i np) = thn (dup_one i np ?k) (foreach [NOFILE - n..<NOFILE] (dup_one i np))"
    by (simp only: foreach.simps)
  have n: "n \<le> NOFILE" using Suc.prems by simp
  show ?case unfolding eq by (rule triple_thn[OF one Suc.IH[OF n]])
qed

lemma triple_fork_files: "triple (\<lambda>v. (\<exists>F. at i F D v) \<and> closed_from np 0 v) (fork_files i np) (\<lambda>_ v. \<exists>F. at i F D v)"
proof -
  have "triple (at i F D) (bnd (rd (\<lambda>s. cwd (procs s i))) (\<lambda>c. bnd (deref c idup) (\<lambda>c'. upd_proc np (\<lambda>p. p\<lparr>cwd := Some c'\<rparr>))))
      (\<lambda>_. at i F D)" for F
    by (intro triple_follows follows_intros follows_still still_upd_proc) simp
  then have "triple (\<lambda>v. \<exists>F. at i F D v) (bnd (rd (\<lambda>s. cwd (procs s i))) (\<lambda>c. bnd (deref c idup) (\<lambda>c'. upd_proc np (\<lambda>p. p\<lparr>cwd := Some c'\<rparr>))))
      (\<lambda>_ v. \<exists>F. at i F D v)" unfolding triple_def by blast
  then show ?thesis unfolding fork_files_def using triple_dup_all[of NOFILE i D np] by (intro triple_thn) simp_all
qed

lemma triple_fork_tail:
  assumes "vm_quiet V" "np < NPROC"
  shows "triple (\<lambda>v. (\<exists>F. at i F D v) \<and> closed_from np 0 v) (fork_child V i np) (\<lambda>_ v. \<exists>F. at i F D v)"
proof -
  let ?P = "\<lambda>v. (\<exists>F. at i F D v) \<and> closed_from np 0 v" and ?Q = "\<lambda>v. \<exists>F. at i F D v"
  have P: "triple ?P m (\<lambda>_. ?P)" if "still m" for m
    using that by (rule triple_still) (use at_fds closed_fds in blast)
  have Q: "triple ?Q m (\<lambda>_. ?Q)" if "still m" for m
    using that by (rule triple_still) (use at_fds in blast)
  have PQ: "triple ?P m (\<lambda>_. ?Q)" if "still m" for m
    by (rule triple_weaken[OF P[OF that]]) auto
  note st = still_intros still_allocproc[OF assms(1)] still_upd_proc
  have tail: "triple ?Q (bnd (rd (\<lambda>s. pname (procs s i))) (\<lambda>nm.
       thn (upd_proc np (\<lambda>p. p\<lparr>pname := safestrcpy (pname p) nm 16\<rparr>)) (
       bnd (rd (\<lambda>s. pid (procs s np))) (\<lambda>pd.
       thn (release (L_proc np)) (
       thn (acquire L_wait) (
       thn (upd_proc np (\<lambda>p. p\<lparr>parent := Some i\<rparr>)) (
       thn (release L_wait) (
       thn (acquire (L_proc np)) (
       thn (upd_proc np (\<lambda>p. p\<lparr>pstate := RUNNABLE\<rparr>)) (
       thn (release (L_proc np))
       (ret pd)))))))))))
     (\<lambda>_. ?Q)"
    by (rule Q) (intro st; simp)
  show ?thesis unfolding fork_child_def
    apply (rule triple_bnd[OF P], intro st)+
    apply (rule triple_if)
     apply (rule PQ, intro st)
    apply (rule triple_bnd[OF P], intro st)
    apply (rule triple_thn[OF P], intro st, simp)
    apply (rule triple_bnd[OF P], intro st)
    apply (rule triple_thn[OF P], intro st)+
    apply (rule triple_thn[OF triple_fork_files tail])
    done
qed

text \<open>A slot that is not in use holds no file.\<close>

definition unused_closed :: "'z pst_scheme \<Rightarrow> bool" where
  "unused_closed s \<longleftrightarrow> (\<forall>j < NPROC. pstate (procs s j) = UNUSED \<longrightarrow> (\<forall>fd < NOFILE. ofile (procs s j) fd = None))"

lemma myproc_ptr_procs: "myproc_ptr s e = Ret j t e' \<Longrightarrow> procs t = procs s"
  by (auto simp: myproc_ptr_def myproc_def push_off_def pop_off_def thn_def bnd_eq_Ret undefined_behaviour_def base_defs
      intr_on_def intr_off_def w_sstatus_def split: option.splits if_splits)

lemma kfork_counts:
  assumes V: "vm_quiet V" and u: "unused_closed s" and a: "at i F D (view s)" and e: "\<forall>g \<in> set e. keeps_counts g"
    and k: "kfork V s e = Ret x s' e'"
  shows "\<exists>F. at i F D (view s')"
proof -
  obtain j t e1 where m: "myproc_ptr s e = Ret j t e1" using k unfolding kfork_def bnd_eq_Ret by blast
  have t: "view t = view s" "e1 = e" "procs t = procs s"
    using m quiet_locks(4) myproc_ptr_procs[OF m] unfolding quiet_def by blast+
  have "j = i" using myproc_ptr_cur[OF m] a by (simp add: at_def view_def)
  from k m t(2) \<open>j = i\<close> obtain r w e2 where al: "allocproc V t e = Ret r w e2"
    and rest: "(case r of None \<Rightarrow> ret (- 1) | Some np \<Rightarrow> fork_child V i np) w e2 = Ret x s' e'"
    by (auto simp: kfork_def bnd_eq_Ret)
  have w: "fds (view w) = fds (view s)" "e2 = e" using still_allocproc(4)[OF V] al t(1) unfolding still_def by metis+
  have at: "at i F D (view w)" using at_fds[OF w(1)] a by blast
  show ?thesis
  proof (cases r)
    case None
    then show ?thesis using rest at by (auto simp: ret_def)
  next
    case (Some np)
    have np: "np < NPROC" "pstate (procs s np) = UNUSED" using allocproc_slot[of V t e np w e2] al Some t(3) by auto
    then have "closed_from np 0 (view s)" using u by (simp add: unused_closed_def closed_from_def view_def at_rest_def)
    then have c: "closed_from np 0 (view w)" using closed_fds[OF w(1)] by blast
    have "fork_child V i np w e = Ret x s' e'" using rest w(2) unfolding Some option.case by simp
    from tripleD(1)[OF triple_fork_tail[OF V np(1)] _ e this] at c show ?thesis by blast
  qed
qed

section \<open>Properties\<close>

text \<open>
  C10: The reference count of every open file is the number of descriptors of all processes that refer
  to it, and stays so through dup, close, open, pipe, fork and the closing of the files of a process
  that exits, on every path, also the failing ones, and whatever other processes do with their
  descriptors while one of the calls waits.\<close>

theorem file_references_counted:
  fixes s :: "'z filest_scheme"
  assumes "vm_quiet V" "counted s" "unused_closed s" "cproc (mycpu s) = Some i" "i < NPROC" "\<forall>g \<in> set e. keeps_counts g"
    and m: "m \<in> {sys_dup, sys_close, sys_open V, sys_pipe V, sys_fork V, bnd myproc_ptr (\<lambda>i. thn (exit_files i) (ret 0))}"
    and r: "m s e = Ret x s' e'"
  shows "counted s'"
proof -
  have a: "at i (ofile (procs s i)) (\<lambda>_. 0) (view s)"
    using assms(2,4,5) counted_excess[of s] by (simp add: at_def view_def at_rest_def)
  have fin: "counted s'" if "\<exists>F. at i F (\<lambda>_. 0) (view s')" using that counted_excess[of s'] by (auto simp: at_def)
  have b: "counted s'" if "balances n" "n s e = Ret y s' e'" for n :: "('z filest_scheme, 'b) kop" and y
  proof -
    have "triple (at i (ofile (procs s i)) (\<lambda>_. 0)) n (\<lambda>_ v. \<exists>F. at i F (\<lambda>_. 0) v)" using that(1) by (simp add: balances_def)
    from tripleD(1)[OF this a assms(6) that(2)] show ?thesis by (rule fin)
  qed
  have files: "balances (bnd myproc_ptr (\<lambda>i. thn (exit_files i) (ret (0 :: addr))))" (is "balances ?x")
  proof -
    have "\<exists>u. bnd myproc_ptr exit_files s e = Ret u s' e'" if "?x s e = Ret y s' e'" for s e y s' e'
      using that by (auto simp: thn_def bnd_eq_Ret ret_def)
    then show ?thesis using balances_exit unfolding balances_def triple_def by blast
  qed
  have fork: "counted s'" if f: "sys_fork V s e = Ret x s' e'"
  proof -
    obtain y where "kfork V s e = Ret y s' e'" using f by (auto simp: sys_fork_def bnd_eq_Ret ret_def)
    from kfork_counts[OF assms(1,3) a assms(6) this] show ?thesis by (rule fin)
  qed
  consider "m = sys_dup" | "m = sys_close" | "m = sys_open V" | "m = sys_pipe V" | "m = sys_fork V"
    | "m = bnd myproc_ptr (\<lambda>i. thn (exit_files i) (ret 0))" using m by blast
  then show ?thesis
    using r b[OF balances_dup] b[OF balances_close] b[OF balances_open[OF assms(1)]] b[OF balances_pipe[OF assms(1)]]
      b[OF files] fork by cases blast+
qed

lemma sys_dup_Ret:
  fixes s :: "'z filest_scheme"
  assumes r: "running i s" "lock_free L_ftable s" and a: "uregs (tframes s (ptrapframe (procs s i))) (R_a 0) = 0"
    and f: "ofile (procs s i) 0 = Some f" "ofile (procs s i) 1 = None" "1 \<le> f_ref (ftable s f)"
  shows "\<exists>s'. sys_dup s e = Ret 1 s' e \<and> f_ref (ftable s' f) = f_ref (ftable s f) + 1"
proof -
  note d = runningD[OF r(1)]
  have ai: "argint 0 s e = Ret 0 (touch s) e"
    using d a by (simp add: argint_def argraw_def bnd_def myproc_ptr_Ret)
  have "find_index (\<lambda>fd. ofile (procs s i) fd = None) [0..<NOFILE] = Some 1"
    using f by (simp add: find_index_upt)
  then have al: "fdalloc f (touch s) e = Ret 1 ((touch s)\<lparr>procs := (procs s)(i := (procs s i)\<lparr>ofile := (ofile (procs s i))(1 := Some f)\<rparr>)\<rparr>) e"
    (is "_ = Ret 1 ?t e")
    using d by (simp add: fdalloc_def bnd_def thn_def myproc_ptr_Ret upd_proc_def set_proc_def del: upt_Suc)
  have rt: "running i ?t" "lock_free L_ftable ?t" "ftable ?t = ftable s" using r by simp_all
  let ?u = "(acq L_ftable ?t)\<lparr>ftable := (ftable s)(f := (ftable s f)\<lparr>f_ref := f_ref (ftable s f) + 1\<rparr>)\<rparr>"
  have "under L_ftable i ?u" using under_acq[OF rt(1,2)] by simp
  from under_release[OF this, of e] have rel: "release L_ftable ?u e = Ret () (rel L_ftable ?u) e" .
  have "filedup f ?t e = Ret f (rel L_ftable ?u) e"
    using rt f(3) rel by (simp add: filedup_def bnd_def thn_def acquire_Ret lock_freeD)
  then show ?thesis using ai al f(1) d
    by (simp add: sys_dup_def argfd_def bnd_def thn_def myproc_ptr_Ret)
qed

text \<open>Process 2 has a file on descriptor 0, which a second descriptor shares after the call.\<close>

definition file_procs :: "nat \<Rightarrow> proc" where
  "file_procs = (\<lambda>_. zero_proc)(2 := zero_proc\<lparr>pstate := RUNNING, pid := 1, ofile := (\<lambda>_. None)(0 := Some 3)\<rparr>)"

lemma file_references_counted_witness:
  "\<exists>s'. sys_dup (file_machine file_procs one_inode one_file) [] = Ret 1 s' [] \<and> counted s' \<and> f_ref (ftable s' 3) = 2"
proof -
  let ?s = "file_machine file_procs one_inode one_file"
  have "{(i, fd). i < NPROC \<and> fd < NOFILE \<and> ofile (file_procs i) fd = Some f} = (if f = 3 then {(2, 0)} else {})" for f
    by (auto simp: file_procs_def zero_proc_def split: if_splits)
  then have c: "counted ?s" by (auto simp: counted_def one_file_def)
  have u: "unused_closed ?s" by (auto simp: unused_closed_def file_procs_def zero_proc_def split: if_splits)
  have run: "\<exists>s'. sys_dup ?s [] = Ret 1 s' [] \<and> f_ref (ftable s' 3) = 2"
    using sys_dup_Ret[of 2 ?s 3 "[]"]
    by (simp add: file_procs_def one_file_def) (simp add: file_machine_def zero_trapframe_def)
  then obtain s' where s': "sys_dup ?s [] = Ret 1 s' []" "f_ref (ftable s' 3) = 2" by blast
  have "counted s'"
    by (rule file_references_counted[where V = simple_vm and s = ?s and e = "[]" and m = sys_dup and i = 2])
      (simp_all add: simple_vm_quiet c u s'(1))
  then show ?thesis using s' by blast
qed

end
