(* ===== verification/Calls.thy ===== *)
theory Calls
  imports Refs Boot
begin

unbundle bit_operations_syntax

text \<open>
  The kernel at its edges: the dispatch of system calls by number, the size of a process, the way
  back to user space, and the entry of a core.
\<close>

section \<open>Dispatch\<close>

text \<open>The numbers of syscall.h.\<close>

primrec sys_number :: "sysno \<Rightarrow> nat" where
  "sys_number SYS_fork = 1" | "sys_number SYS_exit = 2" | "sys_number SYS_wait = 3"
| "sys_number SYS_pipe = 4" | "sys_number SYS_read = 5" | "sys_number SYS_kill = 6"
| "sys_number SYS_exec = 7" | "sys_number SYS_fstat = 8" | "sys_number SYS_chdir = 9"
| "sys_number SYS_dup = 10" | "sys_number SYS_getpid = 11" | "sys_number SYS_sbrk = 12"
| "sys_number SYS_pause = 13" | "sys_number SYS_uptime = 14" | "sys_number SYS_open = 15"
| "sys_number SYS_write = 16" | "sys_number SYS_mknod = 17" | "sys_number SYS_unlink = 18"
| "sys_number SYS_link = 19" | "sys_number SYS_mkdir = 20" | "sys_number SYS_close = 21"
| "sys_number SYS_getlev = 22" | "sys_number SYS_getpinfo = 23"

lemma length_syscalls [simp]: "length syscalls = 24"
  by (simp add: syscalls_def)

lemma sys_number_bounds: "1 \<le> sys_number c" "sys_number c \<le> 23"
  by (cases c; simp)+

lemma syscalls_number: "syscalls ! sys_number c = Some c"
  by (cases c) (simp_all add: syscalls_def)

lemma syscalls_some: "k < 24 \<Longrightarrow> syscalls ! k = Some c \<Longrightarrow> sys_number c = k"
  by (auto simp: syscalls_def nth_Cons' split: if_splits)

lemma syscall_of_number: "syscall_of a = Some c \<longleftrightarrow> (ucast a :: u32) = of_nat (sys_number c)"
proof -
  let ?w = "ucast a :: u32"
  have 1: "sint (of_nat (sys_number c) :: u32) = int (sys_number c)"
    using sys_number_bounds[of c] by (simp add: signed_of_nat signed_take_bit_int_eq_self)
  show ?thesis
  proof
    assume "syscall_of a = Some c"
    then have b: "0 < sint ?w" "sint ?w < 24" "syscalls ! nat (sint ?w) = Some c"
      by (auto simp: syscall_of_def Let_def split: if_splits)
    then have "sys_number c = nat (sint ?w)" by (intro syscalls_some) auto
    then have "sint ?w = int (sys_number c)" using b by simp
    then have "word_of_int (sint ?w) = (word_of_int (int (sys_number c)) :: u32)" by (rule arg_cong)
    then show "?w = of_nat (sys_number c)" by simp
  next
    assume "?w = of_nat (sys_number c)"
    then have "sint ?w = int (sys_number c)" using 1 by simp
    then show "syscall_of a = Some c" using sys_number_bounds[of c] syscalls_number[of c] by (simp add: syscall_of_def Let_def)
  qed
qed

lemma unknown_call_Ret:
  assumes "cpu_wf s" "\<not> panicked s" "\<not> panicking s" "lock_free L_pr s"
  shows "\<exists>out. unknown_call i a7 s e = Ret () ((touch s)\<lparr>thr := thr s @ bytes_of out\<rparr>) e"
proof -
  let ?p = "procs s i"
  have "\<exists>out. format (''%d %s: unknown sys call %d'' @ [CHR 0x0A])
      [VW (word_of_int (pid ?p)), VS (Some (name_chars (pname ?p))), VW a7] = Some out"
    by (simp add: format.simps)
  then obtain out where f: "format (''%d %s: unknown sys call %d'' @ [CHR 0x0A])
      [VW (word_of_int (pid ?p)), VS (Some (name_chars (pname ?p))), VW a7] = Some out" ..
  show ?thesis using printf_Ret[OF f assms(2,3,1,4), of e] by (auto simp: unknown_call_def bnd_def thn_def)
qed

text \<open>
  C17: A system call runs the function whose number in syscall.h the low 32 bits of register a7 hold,
  and its result goes to register a0; any other number prints a message and sets a0 to -1, changing
  nothing else.\<close>

theorem syscall_dispatch:
  assumes "running i s" "\<not> panicked s" "\<not> panicking s" "lock_free L_pr s"
    and a7: "uregs (tframes s (ptrapframe (procs s i))) (R_a 7) = a7"
  shows "if \<exists>c. (ucast a7 :: u32) = of_nat (sys_number c)
    then \<exists>c. (ucast a7 :: u32) = of_nat (sys_number c) \<and>
      syscall V s e = bnd (run_syscall V c) (\<lambda>v. upd_tf i (set_reg (R_a 0) v)) (touch s) e
    else \<exists>out. syscall V s e = Ret () ((touch s)\<lparr>thr := thr s @ bytes_of out,
      tframes := (tframes s)(ptrapframe (procs s i) := set_reg (R_a 0) (- 1) (tframes s (ptrapframe (procs s i))))\<rparr>) e"
proof -
  note d = runningD[OF assms(1)]
  have start: "syscall V s e = bnd (case syscall_of a7 of Some c \<Rightarrow> run_syscall V c | None \<Rightarrow> thn (unknown_call i a7) (ret (- 1)))
      (\<lambda>v. upd_tf i (set_reg (R_a 0) v)) (touch s) e"
    using d a7 by (simp add: syscall_def bnd_def myproc_ptr_Ret cong: option.case_cong)
  show ?thesis
  proof (cases "syscall_of a7")
    case None
    then have no: "\<not> (\<exists>c. (ucast a7 :: u32) = of_nat (sys_number c))" using syscall_of_number[of a7] by auto
    obtain out where u: "unknown_call i a7 (touch s) e = Ret () ((touch s)\<lparr>thr := thr s @ bytes_of out\<rparr>) e"
      using unknown_call_Ret[of "touch s" i a7 e] d assms(2-4) by auto
    show ?thesis unfolding start None using no u by (auto simp: bnd_def thn_def)
  next
    case (Some c)
    then have "(ucast a7 :: u32) = of_nat (sys_number c)" using syscall_of_number[of a7] by simp
    then show ?thesis unfolding start Some by auto
  qed
qed

lemma syscall_dispatch_witness:
  "\<exists>s'. syscall simple_vm (file_machine (\<lambda>_. zero_proc) one_inode one_file) [] = Ret () s' [] \<and> uregs (tframes s' 0) (R_a 0) = - 1"
proof -
  let ?s = "file_machine (\<lambda>_. zero_proc) one_inode one_file"
  have p: "\<not> panicked ?s" "\<not> panicking ?s" "uregs (tframes ?s (ptrapframe (procs ?s 2))) (R_a 7) = 0" "ptrapframe (procs ?s 2) = 0"
    by (simp_all add: file_machine_def zero_trapframe_def zero_proc_def)
  have "\<not> (\<exists>c. (ucast (0 :: addr) :: u32) = of_nat (sys_number c))"
  proof
    assume "\<exists>c. (ucast (0 :: addr) :: u32) = of_nat (sys_number c)"
    then obtain c where "syscall_of 0 = Some c" using syscall_of_number[of 0] by blast
    then show False by (simp add: syscall_of_def)
  qed
  with syscall_dispatch[OF _ p(1,2) _ p(3), of simple_vm "[]"] p(4) show ?thesis
    by (auto simp: set_reg_def)
qed

section \<open>Growing lazily\<close>

definition sbrk_args :: "nat \<Rightarrow> nat \<Rightarrow> addr \<Rightarrow> 'z pst_scheme \<Rightarrow> bool" where
  "sbrk_args i n t s \<longleftrightarrow> running i s \<and> n < 2 ^ 31 \<and>
     uregs (tframes s (ptrapframe (procs s i))) (R_a 0) = of_nat n \<and>
     uregs (tframes s (ptrapframe (procs s i))) (R_a 1) = t"

lemma argint_small:
  assumes "cpu_wf s" "cproc (mycpu s) = Some i" "k \<le> 5"
  shows "argint k s e = Ret (sint (ucast (uregs (tframes s (ptrapframe (procs s i))) (R_a k)) :: u32)) (touch s) e"
  using assms by (simp add: argint_def argraw_def bnd_def myproc_ptr_Ret)

lemma ucast_small_int: "n < 2 ^ 31 \<Longrightarrow> sint (ucast (of_nat n :: addr) :: u32) = int n"
proof -
  assume n: "n < 2 ^ 31"
  have "(ucast (of_nat n :: addr) :: u32) = of_nat n" using n by (simp add: unsigned_of_nat take_bit_nat_eq_self)
  then show ?thesis using n by (simp add: signed_of_nat signed_take_bit_int_eq_self)
qed

lemma sbrk_lazy_Ret:
  assumes a: "sbrk_args i n t s" and t: "sint (ucast t :: u32) \<noteq> v_SBRK_EAGER V" and z: "unat (sz (procs s i)) + n < 2 ^ 64"
  shows "sys_sbrk V s e = Ret (sz (procs s i))
    ((touch s)\<lparr>procs := (procs s)(i := (procs s i)\<lparr>sz := sz (procs s i) + of_nat n\<rparr>)\<rparr>) e"
proof -
  have d: "running i s" "n < 2 ^ 31" using a by (simp_all add: sbrk_args_def)
  note r = runningD[OF d(1)]
  have "\<not> sz (procs s i) + of_nat n < sz (procs s i)"
    using z d(2) by (simp add: word_less_nat_alt unat_word_ariths unat_of_nat take_bit_nat_eq_self)
  then show ?thesis using a t r(2,5) ucast_small_int[OF d(2)]
    by (simp add: sys_sbrk_def bnd_def thn_def argint_small[of _ i] myproc_ptr_Ret sbrk_args_def upd_proc_def set_proc_def)
qed

text \<open>The call made \<open>k\<close> times with the same arguments; a new size changes neither of them.\<close>

definition sbrk_times :: "('z pst_scheme) vm \<Rightarrow> nat \<Rightarrow> ('z pst_scheme, unit) kop" where
  "sbrk_times V k = foreach [0..<k] (\<lambda>_. bnd (sys_sbrk V) (\<lambda>_. ret ()))"

lemma sbrk_repeat:
  assumes "sbrk_args i n t s" "sint (ucast t :: u32) \<noteq> v_SBRK_EAGER V" "unat (sz (procs s i)) + length xs * n < 2 ^ 64"
  shows "\<exists>s'. foreach xs (\<lambda>_. bnd (sys_sbrk V) (\<lambda>_. ret ())) s e = Ret () s' e \<and>
    unat (sz (procs s' i)) = unat (sz (procs s i)) + length xs * n"
  using assms
proof (induction xs arbitrary: s)
  case (Cons x xs)
  let ?z = "sz (procs s i)"
  let ?t = "(touch s)\<lparr>procs := (procs s)(i := (procs s i)\<lparr>sz := ?z + of_nat n\<rparr>)\<rparr>"
  have z: "unat ?z + n < 2 ^ 64" "n < 2 ^ 64" using Cons.prems(3) by simp_all
  then have u: "unat (?z + of_nat n) = unat ?z + n"
    by (simp add: unat_word_ariths unat_of_nat take_bit_nat_eq_self)
  have one: "bnd (sys_sbrk V) (\<lambda>_. ret ()) s e = Ret () ?t e"
    using sbrk_lazy_Ret[OF Cons.prems(1,2) z(1)] by (simp add: bnd_def)
  have "sbrk_args i n t ?t" using Cons.prems(1) by (simp add: sbrk_args_def)
  moreover have "unat (sz (procs ?t i)) + length xs * n < 2 ^ 64" using Cons.prems(3) u by (simp add: algebra_simps)
  ultimately obtain s' where s': "foreach xs (\<lambda>_. bnd (sys_sbrk V) (\<lambda>_. ret ())) ?t e = Ret () s' e"
    "unat (sz (procs s' i)) = unat (sz (procs ?t i)) + length xs * n"
    using Cons.IH[OF _ Cons.prems(2), of ?t] by blast
  have eq: "foreach (x # xs) (\<lambda>_. bnd (sys_sbrk V) (\<lambda>_. ret ())) s e = foreach xs (\<lambda>_. bnd (sys_sbrk V) (\<lambda>_. ret ())) ?t e"
    by (rule foreach_Ret) (rule one)
  have "unat (sz (procs s' i)) = unat (sz (procs s i)) + length (x # xs) * n" using s'(2) u by simp
  then show ?case unfolding eq using s'(1) by blast
qed simp

text \<open>
  C33: Memory that sbrk grants lazily has no bound below the end of the address space of 64 bits: k
  calls with the increment n all succeed and make the process k * n bytes larger, past the trapframe
  page and past the largest address a page table can map.\<close>

theorem lazy_sbrk_unbounded:
  assumes "sbrk_args i n t s" "sint (ucast t :: u32) \<noteq> v_SBRK_EAGER V" "unat (sz (procs s i)) + k * n < 2 ^ 64"
  shows "\<exists>s'. sbrk_times V k s e = Ret () s' e \<and> unat (sz (procs s' i)) = unat (sz (procs s i)) + k * n"
  using sbrk_repeat[OF assms(1,2), of "[0..<k]" e] assms(3) by (simp add: sbrk_times_def)

text \<open>Two hundred calls for a gigabyte each pass the trapframe and \<open>MAXVA\<close>.\<close>

definition sbrk_machine :: filest where
  "sbrk_machine = (file_machine (\<lambda>_. zero_proc) one_inode one_file)\<lparr>tframes := (\<lambda>_. zero_trapframe
     \<lparr>uregs := (\<lambda>_. 0)(R_a 0 := 0x40000000, R_a 1 := 2)\<rparr>)\<rparr>"

lemma lazy_sbrk_unbounded_witness:
  "\<exists>s'. sbrk_times simple_vm 300 sbrk_machine [] = Ret () s' [] \<and> MAXVA < sz (procs s' 2) \<and> TRAPFRAME < sz (procs s' 2)"
proof -
  have a: "sbrk_args 2 0x40000000 2 sbrk_machine"
    by (simp add: sbrk_args_def sbrk_machine_def running_def plocks_free_def base_defs file_machine_def)
  have z: "sz (procs sbrk_machine 2) = 0" by (simp add: sbrk_machine_def zero_proc_def)
  obtain s' where s': "sbrk_times simple_vm 300 sbrk_machine [] = Ret () s' []" "unat (sz (procs s' 2)) = 300 * 0x40000000"
    using lazy_sbrk_unbounded[OF a, of simple_vm 300 "[]"] z by auto
  have "sz (procs s' 2) = of_nat (unat (sz (procs s' 2)))" by simp
  then have "sz (procs s' 2) = 322122547200" unfolding s'(2) by simp
  then show ?thesis using s'(1) by (auto simp: MAXVA_def TRAPFRAME_def TRAMPOLINE_def PGSIZE_def)
qed

section \<open>Back to user space\<close>

text \<open>
  Where \<open>sret\<close> goes: the mode is bit 8 of \<open>sstatus\<close> (0: user), the address that of \<open>sepc\<close>, and
  interrupts are on afterwards when bit 5 is set.
\<close>

definition sret :: "'z hw_scheme \<Rightarrow> addr \<times> addr \<times> bool" where
  "sret s = (drop_bit 8 (r_sstatus s) AND 1, r_sepc s, bit (r_sstatus s) 5)"

text \<open>What the code of trampoline.S finds when it leaves the kernel for process \<open>j\<close>.\<close>

definition user_ready :: "nat \<Rightarrow> 'z pst_scheme \<Rightarrow> bool" where
  "user_ready j s \<longleftrightarrow> cproc (mycpu s) = Some j \<and> \<not> intr_get s \<and>
     stvec (csr s (hart s)) = uservec_offset s ''uservec'' \<and>
     (let t = tframes s (ptrapframe (procs s j)) in
        sret s = (0, epc t, True) \<and> kernel_satp t = r_satp s \<and> kernel_sp t = kstack (procs s j) + PGSIZE \<and>
        kernel_trap t = syms s ''usertrap'' \<and> kernel_hartid t = of_nat (hart s))"

lemma bit_SPP: "bit SSTATUS_SPP n \<longleftrightarrow> n = 8"
  unfolding SSTATUS_SPP_def push_bit_of_1 bit_exp_iff by auto

lemma bit_SPIE: "bit SSTATUS_SPIE n \<longleftrightarrow> n = 5"
  unfolding SSTATUS_SPIE_def push_bit_of_1 bit_exp_iff by auto

lemma return_status:
  fixes x :: addr
  assumes "\<not> bit x 1"
  defines "y \<equiv> (x AND NOT SSTATUS_SPP) OR SSTATUS_SPIE"
  shows "drop_bit 8 y AND 1 = 0" "bit y 5" "\<not> bit y 1"
proof -
  have b: "bit y n \<longleftrightarrow> bit x n \<and> n \<noteq> 8 \<and> n < 64 \<or> n = 5" for n
    unfolding y_def by (auto simp: bit_simps bit_SPP bit_SPIE dest: bit_imp_le_length)
  show "bit y 5" "\<not> bit y 1" using b assms(1) by auto
  show "drop_bit 8 y AND 1 = 0"
    by (rule bit_word_eqI) (auto simp: bit_simps b bit_1_iff)
qed

text \<open>Writing a control register leaves the rest of the machine, and the other registers, as they are.\<close>

lemma w_csr_base:
  "mycpu (w_sepc a s) = mycpu s" "mycpu (w_stvec a s) = mycpu s" "mycpu (w_sstatus a s) = mycpu s"
  "r_sstatus (w_sepc a s) = r_sstatus s" "r_sstatus (w_stvec a s) = r_sstatus s"
  "r_satp (w_sepc a s) = r_satp s" "r_satp (w_stvec a s) = r_satp s" "r_satp (w_sstatus a s) = r_satp s"
  "r_sepc (w_sepc a s) = a" "stvec (csr (w_stvec a s) (hart s)) = a"
  "stvec (csr (w_sepc a s) h) = stvec (csr s h)" "stvec (csr (w_sstatus a s) h) = stvec (csr s h)"
  by (simp_all add: base_defs w_sepc_def w_stvec_def w_sstatus_def r_sstatus_def r_satp_def r_sepc_def)

lemma w_csr_pst:
  "procs (w_sepc a s) = procs s" "procs (w_stvec a s) = procs s" "procs (w_sstatus a s) = procs s"
  "tframes (w_sepc a s) = tframes s" "tframes (w_stvec a s) = tframes s" "tframes (w_sstatus a s) = tframes s"
  "syms (w_sepc a s) = syms s" "syms (w_stvec a s) = syms s" "syms (w_sstatus a s) = syms s"
  by (simp_all add: w_sepc_def w_stvec_def w_sstatus_def)

lemma csr_tframes:
  "r_sstatus (tframes_update g s) = r_sstatus s" "r_satp (tframes_update g s) = r_satp s"
  "csr (tframes_update g s) = csr s" "mycpu (tframes_update g s) = mycpu s"
  by (simp_all add: r_sstatus_def r_satp_def base_defs)

lemma myproc_ptr_stays: "myproc_ptr s e = Ret j t e' \<Longrightarrow> cproc (mycpu t) = Some j"
  by (auto simp: myproc_ptr_def myproc_def push_off_def pop_off_def thn_def bnd_eq_Ret undefined_behaviour_def base_defs
      intr_on_def intr_off_def w_sstatus_def split: option.splits if_splits)

lemma prepare_return_ready:
  assumes "prepare_return s e = Ret () s' e'"
  shows "\<exists>j. user_ready j s'"
proof -
  obtain j t e1 where m: "myproc_ptr s e = Ret j t e1" using assms unfolding prepare_return_def bnd_eq_Ret by blast
  have j: "cproc (mycpu t) = Some j"
    using m by (rule myproc_ptr_stays)
  define x where "x = r_sstatus t AND NOT SSTATUS_SIE"
  have x: "\<not> bit x 1" unfolding x_def by (simp add: bit_simps bit_SIE)
  define t2 where "t2 = w_stvec (uservec_offset (intr_off t) ''uservec'') (intr_off t)"
  define p where "p = procs t j"
  have 2: "hart t2 = hart t" "r_sstatus t2 = x" "mycpu t2 = mycpu t" "procs t2 j = p" "syms t2 = syms t"
    "stvec (csr t2 (hart t)) = uservec_offset t ''uservec''"
    unfolding t2_def x_def p_def intr_off_def by (simp_all add: w_csr_base w_csr_pst uservec_offset_def w_csr_base(10)[of _ "w_sstatus _ t", simplified])
  define t3 where "t3 = t2\<lparr>tframes := (tframes t2)(ptrapframe p := (tframes t2 (ptrapframe p))
     \<lparr>kernel_satp := r_satp t2, kernel_sp := kstack p + PGSIZE, kernel_trap := syms t2 ''usertrap'',
      kernel_hartid := of_nat (r_tp t2)\<rparr>)\<rparr>"
  define k where "k = tframes t3 (ptrapframe p)"
  have 3: "hart t3 = hart t" "r_sstatus t3 = x" "mycpu t3 = mycpu t" "procs t3 j = p" "syms t3 = syms t"
    "stvec (csr t3 (hart t)) = uservec_offset t ''uservec''" "r_satp t3 = r_satp t2"
    "kernel_satp k = r_satp t2" "kernel_sp k = kstack p + PGSIZE" "kernel_trap k = syms t ''usertrap''" "kernel_hartid k = of_nat (hart t)"
    unfolding t3_def k_def using 2 by (simp_all add: csr_tframes r_tp_def)
  define y where "y = (x AND NOT SSTATUS_SPP) OR SSTATUS_SPIE"
  have s': "s' = w_sepc (epc k) (w_sstatus y t3)"
  proof -
    have "prepare_return s e =
        (let t3' = t2\<lparr>tframes := (tframes t2)(ptrapframe (procs t2 j) := (tframes t2 (ptrapframe (procs t2 j)))
           \<lparr>kernel_satp := r_satp t2, kernel_sp := kstack (procs t2 j) + PGSIZE, kernel_trap := syms t2 ''usertrap'',
            kernel_hartid := of_nat (r_tp t2)\<rparr>)\<rparr>;
           t4 = w_sstatus ((r_sstatus t3' AND NOT SSTATUS_SPP) OR SSTATUS_SPIE) t3'
         in Ret () (w_sepc (epc (tframes t4 (ptrapframe (procs t4 j)))) t4) e1)"
      unfolding prepare_return_def thn_def bnd_def m outcome.case upd_app rd_app upd_tf_app t2_def Let_def
      by (simp only: uservec_offset_def)
    also have "\<dots> = Ret () (w_sepc (epc k) (w_sstatus y t3)) e1"
      unfolding 2(4) t3_def[symmetric] Let_def 3(2) y_def[symmetric] w_csr_pst 3(4) k_def ..
    finally show ?thesis using assms by simp
  qed
  note rs = return_status[OF x, folded y_def]
  have "user_ready j s'"
    using rs j 3 unfolding user_ready_def s' sret_def intr_get_iff Let_def
    by (simp add: w_csr_base w_csr_pst uservec_offset_def k_def)
  then show ?thesis ..
qed

text \<open>
  C12: When a trap from user space has been handled, or a new process starts, the kernel leaves with
  everything set for user mode: interrupts off until the return and on after it, the trap vector at
  the trampoline, the program counter of the trapframe, and the trapframe holding what the next trap
  needs.  This holds whatever happened in between, a system call, an interrupt, a fault or a change
  of the process or of the hart.\<close>

theorem kernel_leaves_for_user:
  assumes "usertrap V s e = Ret r s' e' \<or> forkret V s e = Ret r s' e'"
  shows "\<exists>j. user_ready j s'"
proof -
  have "\<exists>t e1. prepare_return t e1 = Ret () s' e'" if "usertrap V s e = Ret r s' e'"
    using that by (auto simp: usertrap_def user_satp_def thn_def bnd_eq_Ret split: if_splits)
  moreover have "\<exists>t e1. prepare_return t e1 = Ret () s' e'" if "forkret V s e = Ret r s' e'"
    using that by (auto simp: forkret_def user_satp_def thn_def bnd_eq_Ret split: if_splits)
  ultimately show ?thesis using assms prepare_return_ready by blast
qed

text \<open>An external interrupt that no device claims, taken in user mode.\<close>

lemma running_w_stvec: "running i (w_stvec a s) = running i s" "cpu_wf (w_stvec a s) = (0 \<le> noff (mycpu s) \<and> (0 < noff (mycpu s) \<longrightarrow> \<not> intr_get s))"
  by (simp_all add: running_def plocks_free_def lock_free_def w_csr_base cpu_wf_def intr_get_iff)

lemma usertrap_unclaimed:
  fixes s :: "'z trapst_scheme"
  assumes r: "running i s" and m: "r_sstatus s AND SSTATUS_SPP = 0" "r_scause s = 0x8000000000000009"
    and p: "plic s = (\<lambda>_. 0)" "pkilled (procs s i) = 0"
  shows "\<exists>s'. usertrap V s e = Ret (MAKE_SATP (pagetable (procs s i))) s' e"
proof -
  let ?a = "w_stvec (syms s ''kernelvec'') s"
  have ra: "running i ?a" using r by (simp add: running_w_stvec)
  note d = runningD[OF ra]
  let ?b = "(touch ?a)\<lparr>tframes := (tframes s)(ptrapframe (procs s i) := (tframes s (ptrapframe (procs s i)))\<lparr>epc := r_sepc (touch ?a)\<rparr>)\<rparr>"
  have b: "running i ?b" using ra by (simp add: running_def plocks_free_def)
  note db = runningD[OF b]
  have c: "r_scause ?b = 0x8000000000000009" "plic ?b = (\<lambda>_. 0)" "pkilled (procs ?b i) = 0"
    using m(2) p by (simp_all add: r_scause_def base_defs w_stvec_def)
  have dev: "devintr ?b e = Ret 1 ?b e"
    unfolding devintr_def by (simp add: bnd_def thn_def c plic_claim_def UART0_IRQ_def VIRTIO0_IRQ_def)
  have k: "killed i ?b e = Ret 0 (touch ?b) e"
    using db c(3) by (simp add: killed_Ret)
  have pr: "\<exists>s'. prepare_return (touch ?b) e = Ret () s' e \<and> procs s' = procs s"
    using db by (simp add: prepare_return_def bnd_def thn_def myproc_ptr_Ret w_csr_pst)
  have tr: "(thn (bnd (rd (\<lambda>s. syms s ''kernelvec'')) (\<lambda>v. upd (w_stvec v)))) = (\<lambda>k s e. k (w_stvec (syms s ''kernelvec'') s) e)"
    by (rule ext)+ (simp add: bnd_def thn_def)
  obtain s' where s': "prepare_return (touch ?b) e = Ret () s' e" "procs s' = procs s" using pr by blast
  have other: "trap_other V i ?b e = Ret 1 ?b e" unfolding trap_other_def by (simp add: bnd_def dev)
  have "myproc_ptr ?a e = Ret i (touch ?a) e" using d by (simp add: myproc_ptr_Ret)
  then show ?thesis unfolding usertrap_def tr
    using m(1) c(1) other k s' by (simp add: bnd_def thn_def user_satp_def w_csr_pst del: fun_upd_apply)
qed

definition trap_machine :: trapst where
  "trap_machine = filest.extend ((file_machine (\<lambda>_. zero_proc) one_inode one_file)
     \<lparr>csr := (\<lambda>_. zero_csrs\<lparr>scause := 0x8000000000000009, sepc := 0x1000\<rparr>)\<rparr>) (trapst.fields (\<lambda>_. 0) False)"

lemma kernel_leaves_for_user_witness:
  "\<exists>r s' j. usertrap simple_vm trap_machine [] = Ret r s' [] \<and> user_ready j s' \<and> fst (sret s') = 0"
proof -
  have "running 2 trap_machine" "r_sstatus trap_machine AND SSTATUS_SPP = 0" "r_scause trap_machine = 0x8000000000000009"
    "plic trap_machine = (\<lambda>_. 0)" "pkilled (procs trap_machine 2) = 0"
    by (simp_all add: trap_machine_def file_machine_def filest.defs trapst.defs running_def plocks_free_def base_defs
        r_sstatus_def r_scause_def zero_csrs_def zero_proc_def)
  from usertrap_unclaimed[OF this, of simple_vm "[]"]
  obtain r s' where s': "usertrap simple_vm trap_machine [] = Ret r s' []" by blast
  then obtain j where "user_ready j s'" using kernel_leaves_for_user by blast
  then show ?thesis using s' by (auto simp: user_ready_def Let_def)
qed

section \<open>What the entry code leaves\<close>

lemma bit_three: "bit (3 :: addr) k \<longleftrightarrow> k < 2"
proof -
  have "(3 :: addr) = mask 2" by (simp add: mask_eq_exp_minus_1)
  then have "bit (3 :: addr) k \<longleftrightarrow> bit (mask 2 :: addr) k" by (rule arg_cong)
  also have "\<dots> \<longleftrightarrow> k < 2" unfolding bit_mask_iff by (auto simp: possible_bit_def)
  finally show ?thesis .
qed

lemma bit_MPP: "bit MSTATUS_MPP_MASK k \<longleftrightarrow> k = 11 \<or> k = 12" "bit MSTATUS_MPP_S k \<longleftrightarrow> k = 11"
proof -
  show "bit MSTATUS_MPP_MASK k \<longleftrightarrow> k = 11 \<or> k = 12"
    unfolding MSTATUS_MPP_MASK_def bit_push_bit_iff bit_three by (auto simp: possible_bit_def)
  show "bit MSTATUS_MPP_S k \<longleftrightarrow> k = 11"
    unfolding MSTATUS_MPP_S_def push_bit_of_1 bit_exp_iff by auto
qed

lemma mpp_mask: "drop_bit 11 ((x AND NOT MSTATUS_MPP_MASK) OR MSTATUS_MPP_S) AND 3 = 1" for x :: addr
proof (rule bit_word_eqI)
  fix n
  show "bit (drop_bit 11 ((x AND NOT MSTATUS_MPP_MASK) OR MSTATUS_MPP_S) AND 3) n \<longleftrightarrow> bit (1 :: addr) n"
    unfolding bit_and_iff bit_drop_bit_eq comp_def bit_or_iff bit_not_iff bit_three bit_MPP bit_1_iff by auto
qed

lemma hart_word: "h < NCPU \<Longrightarrow> scast (ucast (of_nat h :: addr) :: u32) = (of_nat h :: addr)"
proof -
  assume h: "h < NCPU"
  then have "(ucast (of_nat h :: addr) :: u32) = of_nat h" by (simp add: unsigned_of_nat take_bit_nat_eq_self)
  moreover have "sint (of_nat h :: u32) = int h" using h by (simp add: signed_of_nat signed_take_bit_int_eq_self)
  ultimately show ?thesis by (simp add: scast_eq)
qed


definition entry_machine :: bootst where
  "entry_machine = trapst.extend trap_machine (bootst.fields (\<lambda>_. \<lparr>m_hartid = 0, m_mstatus = 0x1800, m_mepc = 0,
     m_medeleg = 0, m_mideleg = 0, m_sie = 0, m_mie = 0, m_menvcfg = 0, m_mcounteren = 0, m_pmpaddr0 = 0, m_pmpcfg0 = 0\<rparr>) False)"


end
