(* ===== verification/Exits.thy ===== *)
theory Exits
  imports Frame Fork
begin

text \<open>
  The end of a process: what \<open>kexit\<close> leaves to its children, to its parent, and to the scheduler.
\<close>

section \<open>Giving the children away\<close>

definition adopted :: "nat \<Rightarrow> nat option \<Rightarrow> nat \<Rightarrow> (nat \<Rightarrow> proc) \<Rightarrow> nat \<Rightarrow> proc" where
  "adopted n ini i P = (\<lambda>j. if j < n \<and> parent (P j) = Some i then (P j)\<lparr>parent := ini\<rparr> else P j)"

definition reparented :: "nat \<Rightarrow> nat option \<Rightarrow> nat \<Rightarrow> (nat \<Rightarrow> proc) \<Rightarrow> nat \<Rightarrow> proc" where
  "reparented n ini i P =
     (if \<exists>j < n. parent (P j) = Some i then woken (Some i) (map_option C_proc ini) (adopted n ini i P) else P)"

lemma wake_one_parent [simp]: "wake_one ch (p\<lparr>parent := x\<rparr>) = (wake_one ch p)\<lparr>parent := x\<rparr>"
  by (simp add: wake_one_def)

lemma wake_one_twice [simp]: "wake_one ch (wake_one ch p) = wake_one ch p"
  by (simp add: wake_one_def)

lemma reparented_same: "\<not> (j < n \<and> parent (P j) = Some i) \<Longrightarrow> parent (reparented n ini i P j) = parent (P j)"
  by (auto simp only: woken_wf reparented_def adopted_def split: if_splits)

lemma woken_upd:
  "woken me ch ((woken me ch A)(n := (woken me ch A n)\<lparr>parent := x\<rparr>)) = woken me ch (A(n := (A n)\<lparr>parent := x\<rparr>))"
proof
  fix j
  show "woken me ch ((woken me ch A)(n := (woken me ch A n)\<lparr>parent := x\<rparr>)) j = woken me ch (A(n := (A n)\<lparr>parent := x\<rparr>)) j"
    by (cases "j < NPROC \<and> me \<noteq> Some j"; cases "j = n") (auto simp: woken_def)
qed

lemma adopted_Suc:
  "adopted (Suc n) ini i P = (if parent (P n) = Some i then (adopted n ini i P)(n := (adopted n ini i P n)\<lparr>parent := ini\<rparr>)
     else adopted n ini i P)"
  by (rule ext) (auto simp: adopted_def less_Suc_eq)

lemma reparented_Suc:
  "reparented (Suc n) ini i P =
     (let Q = reparented n ini i P in
      if parent (P n) = Some i then woken (Some i) (map_option C_proc ini) (Q(n := (Q n)\<lparr>parent := ini\<rparr>)) else Q)"
proof (cases "\<exists>j < n. parent (P j) = Some i")
  case True
  then show ?thesis by (auto simp: reparented_def adopted_Suc woken_upd Let_def less_Suc_eq)
next
  case False
  then have "adopted n ini i P = P" by (auto simp: adopted_def fun_eq_iff)
  then show ?thesis using False by (auto simp: reparented_def adopted_Suc Let_def less_Suc_eq)
qed

lemma reparent_Ret:
  assumes "other_plocks_free s" "cpu_wf s" "noff (mycpu s) \<noteq> 0" "cproc (mycpu s) = Some i"
  shows "reparent i s e = Ret () (s\<lparr>procs := reparented NPROC (initproc s) i (procs s)\<rparr>) e"
proof -
  define body where "body = (\<lambda>j.
       bnd (rd (\<lambda>s :: 'a pst_scheme. parent (procs s j) = Some i)) (\<lambda>mine.
       if mine then
         bnd (rd initproc) (\<lambda>ip.
         thn (upd_proc j (\<lambda>p. p\<lparr>parent := ip\<rparr>))
         (wakeup (map_option C_proc ip)))
       else ret ()))"
  have "foreach [0..<n] body s e = Ret () (s\<lparr>procs := reparented n (initproc s) i (procs s)\<rparr>) e" for n
  proof (induction n)
    case 0
    then show ?case by (simp add: reparented_def)
  next
    case (Suc n)
    have "foreach [0..<Suc n] body s e =
        bnd (body n) (\<lambda>_. ret ()) (s\<lparr>procs := reparented n (initproc s) i (procs s)\<rparr>) e"
      by (simp add: foreach_append bnd_def thn_def Suc)
    also have "\<dots> = Ret () (s\<lparr>procs := reparented (Suc n) (initproc s) i (procs s)\<rparr>) e"
      using assms by (simp add: body_def bnd_def thn_def wakeup_nested reparented_same reparented_Suc Let_def)
    finally show ?case .
  qed
  then show ?thesis unfolding reparent_def body_def .
qed

section \<open>The last steps of a process\<close>

definition exited :: "nat \<Rightarrow> int \<Rightarrow> 'z pst_scheme \<Rightarrow> nat \<Rightarrow> proc" where
  "exited i st s =
     (let P = reparented NPROC (initproc s) i (procs s);
          Q = woken (Some i) (map_option C_proc (parent (P i))) P
      in Q(i := (Q i)\<lparr>xstate := st, pstate := ZOMBIE\<rparr>))"

lemma exit_zombie_run:
  assumes r: "running i s" and w: "lock_free L_wait s"
  shows "exit_zombie i st s [] = Off ((acq (L_proc i) s)\<lparr>procs := exited i st s\<rparr>)"
    "\<exists>t. exit_zombie i st s (g # e) = Panic ''zombie exit'' t"
proof -
  note d = runningD[OF r]
  have ready: "sched_ready i ((acq (L_proc i) s)\<lparr>procs := exited i st s\<rparr>)"
    using d by (simp add: sched_ready_def own_lock_only_def exited_def Let_def)
  have run: "exit_zombie i st s e = bnd sched (\<lambda>_. panic ''zombie exit'') ((acq (L_proc i) s)\<lparr>procs := exited i st s\<rparr>) e" for e
    using d w
    by (simp add: exit_zombie_def kop_simps reparent_Ret lock_freeD exited_def Let_def)
  show "exit_zombie i st s [] = Off ((acq (L_proc i) s)\<lparr>procs := exited i st s\<rparr>)"
    unfolding run by (simp add: sched_switch[OF ready] kop_simps)
  show "\<exists>t. exit_zombie i st s (g # e) = Panic ''zombie exit'' t"
    unfolding run by (simp add: bnd_def sched_switch[OF ready])
qed

lemma at_rest_parent: "at_rest p = at_rest q \<Longrightarrow> at_rest (p\<lparr>parent := x\<rparr>) = at_rest (q\<lparr>parent := x\<rparr>)"
  by (cases p; cases q) (simp add: at_rest_def)

lemma at_rest_wake_parent [simp]: "at_rest ((wake_one ch p)\<lparr>parent := x\<rparr>) = at_rest (p\<lparr>parent := x\<rparr>)"
  by (rule at_rest_parent) simp

lemma at_rest_woken [simp]: "at_rest (woken me ch P j) = at_rest (P j)"
  by (simp add: woken_def)

text \<open>What becomes of another process: it changes hands if \<open>i\<close> was its parent, and it wakes if it waited.\<close>

lemma exited_other:
  assumes "j < NPROC" "j \<noteq> i" "initproc s = Some k" "parent (procs s i) = Some pa" "pa \<noteq> i"
  shows "parent (exited i st s j) = (if parent (procs s j) = Some i then Some k else parent (procs s j))"
    "at_rest (exited i st s j) = at_rest ((procs s j)\<lparr>parent := parent (exited i st s j)\<rparr>)"
    "pstate (exited i st s j) = (if pstate (procs s j) = SLEEPING \<and> (pchan (procs s j) = Some (C_proc pa) \<or>
        pchan (procs s j) = Some (C_proc k) \<and> (\<exists>c < NPROC. parent (procs s c) = Some i)) then RUNNABLE else pstate (procs s j))"
proof -
  let ?c = "\<exists>c < NPROC. parent (procs s c) = Some i"
  let ?A = "adopted NPROC (Some k) i (procs s)"
  have pi: "parent (reparented NPROC (Some k) i (procs s) i) = Some pa"
    using assms(4,5) by (simp add: reparented_same)
  have e: "exited i st s j = wake_one (Some (C_proc pa)) (if ?c then wake_one (Some (C_proc k)) (?A j) else procs s j)"
  proof -
    have "reparented NPROC (Some k) i (procs s) j = (if ?c then wake_one (Some (C_proc k)) (?A j) else procs s j)"
      using assms(1,2) by (auto simp: reparented_def woken_def)
    then show ?thesis using assms(1-3) pi by (simp add: exited_def Let_def woken_def)
  qed
  have A: "?A j = (procs s j)\<lparr>parent := if parent (procs s j) = Some i then Some k else parent (procs s j)\<rparr>"
    using assms(1) by (simp add: adopted_def)
  show p: "parent (exited i st s j) = (if parent (procs s j) = Some i then Some k else parent (procs s j))"
    unfolding e using assms(1) by (auto simp: A wake_one_def)
  show "at_rest (exited i st s j) = at_rest ((procs s j)\<lparr>parent := parent (exited i st s j)\<rparr>)"
    unfolding p unfolding e using assms(1) by (auto simp: A)
  show "pstate (exited i st s j) = (if pstate (procs s j) = SLEEPING \<and> (pchan (procs s j) = Some (C_proc pa) \<or>
        pchan (procs s j) = Some (C_proc k) \<and> ?c) then RUNNABLE else pstate (procs s j))"
    unfolding e by (auto simp: A wake_one_def)
qed

lemma exited_self:
  assumes "parent (procs s i) = Some pa" "pa \<noteq> i"
  shows "pstate (exited i st s i) = ZOMBIE" "xstate (exited i st s i) = st" "parent (exited i st s i) = Some pa"
    "pid (exited i st s i) = pid (procs s i)" "ptrapframe (exited i st s i) = ptrapframe (procs s i)"
  using assms by (simp_all add: exited_def Let_def reparented_same) (simp_all add: reparented_def adopted_def)

lemma exited_reaped:
  assumes i: "i < NPROC" and pa: "parent (procs s i) = Some pa" "pa \<noteq> i" and P: "procs t = exited i st s"
    and t: "waiting pa t" "vm_tables V" "a = 0 \<or> copyout_ok V (pagetable (procs t pa)) a"
      "ptrapframe (procs s i) = 0 \<or> page_ok t (ptrapframe (procs s i))"
      "\<forall>j < NPROC. j \<noteq> i \<longrightarrow> parent (procs t j) = Some pa \<longrightarrow> pstate (procs t j) \<noteq> ZOMBIE"
  shows "\<exists>M F. kwait V a t e = Ret (pid (procs s i)) ((touch t)\<lparr>mem := M, freelist := F,
    procs := (exited i st s)(i := freed (exited i st s i))\<rparr>) e"
proof -
  note self = exited_self[OF pa, of st]
  have "\<exists>M F. kwait V a t e = Ret (pid (procs t i)) ((touch t)\<lparr>mem := M, freelist := F,
      procs := (procs t)(i := freed (procs t i))\<rparr>) e"
    by (rule kwait_reaps[OF t(1-3) i]) (use t(4,5) i in \<open>auto simp: P self\<close>)
  then show ?thesis by (simp add: P self)
qed

text \<open>
  C14: a process that exits gives its children to init, wakes whoever waits as its parent (and init, if
  it got children), and switches away for good as a zombie with its exit status and its own lock held:
  run again, it would panic.  All else of the other processes stays.  The next \<open>wait\<close> of the parent
  returns its pid and frees the slot, when no other child of the parent is a zombie.
\<close>

theorem exit_reaches_parent:
  fixes s :: "'z pst_scheme"
  assumes "running i s" "lock_free L_wait s" "initproc s = Some k" "parent (procs s i) = Some pa" "pa \<noteq> i"
  shows "(\<exists>t. (exit_zombie i st s (g # e) :: ('z pst_scheme, 'a) outcome) = Panic ''zombie exit'' t) \<and>
    (\<exists>s'. (exit_zombie i st s [] :: ('z pst_scheme, 'a) outcome) = Off s' \<and> is_holding (L_proc i) s' \<and> lock_free L_wait s' \<and>
      pstate (procs s' i) = ZOMBIE \<and> xstate (procs s' i) = st \<and>
      (\<forall>j < NPROC. j \<noteq> i \<longrightarrow>
        parent (procs s' j) = (if parent (procs s j) = Some i then Some k else parent (procs s j)) \<and>
        pstate (procs s' j) = (if pstate (procs s j) = SLEEPING \<and> (pchan (procs s j) = Some (C_proc pa) \<or>
            pchan (procs s j) = Some (C_proc k) \<and> (\<exists>c < NPROC. parent (procs s c) = Some i))
          then RUNNABLE else pstate (procs s j)) \<and>
        at_rest (procs s' j) = at_rest ((procs s j)\<lparr>parent := parent (procs s' j)\<rparr>)) \<and>
      (\<forall>V a (t :: 'z pst_scheme) e'. waiting pa t \<longrightarrow> procs t = procs s' \<longrightarrow> vm_tables V \<longrightarrow>
        a = 0 \<or> copyout_ok V (pagetable (procs t pa)) a \<longrightarrow>
        ptrapframe (procs s i) = 0 \<or> page_ok t (ptrapframe (procs s i)) \<longrightarrow>
        (\<forall>j < NPROC. j \<noteq> i \<longrightarrow> parent (procs t j) = Some pa \<longrightarrow> pstate (procs t j) \<noteq> ZOMBIE) \<longrightarrow>
        (\<exists>M F. kwait V a t e' = Ret (pid (procs s i)) ((touch t)\<lparr>mem := M, freelist := F,
           procs := (procs s')(i := freed (procs s' i))\<rparr>) e')))"
proof (rule conjI[OF exit_zombie_run(2)[OF assms(1,2)] exI[of _ "(acq (L_proc i) s)\<lparr>procs := exited i st s\<rparr>"]], intro conjI)
  let ?s' = "(acq (L_proc i) s)\<lparr>procs := exited i st s\<rparr>"
  have P: "procs ?s' = exited i st s" by simp
  note self = exited_self[OF assms(4,5), of st] and i = runningD(1)[OF assms(1)]
  show "(exit_zombie i st s [] :: ('z pst_scheme, 'a) outcome) = Off ?s'" by (rule exit_zombie_run(1)[OF assms(1,2)])
  show "is_holding (L_proc i) ?s'" "lock_free L_wait ?s'" "pstate (procs ?s' i) = ZOMBIE" "xstate (procs ?s' i) = st"
    using assms(2) self by simp_all
  show "\<forall>j < NPROC. j \<noteq> i \<longrightarrow>
        parent (procs ?s' j) = (if parent (procs s j) = Some i then Some k else parent (procs s j)) \<and>
        pstate (procs ?s' j) = (if pstate (procs s j) = SLEEPING \<and> (pchan (procs s j) = Some (C_proc pa) \<or>
            pchan (procs s j) = Some (C_proc k) \<and> (\<exists>c < NPROC. parent (procs s c) = Some i))
          then RUNNABLE else pstate (procs s j)) \<and>
        at_rest (procs ?s' j) = at_rest ((procs s j)\<lparr>parent := parent (procs ?s' j)\<rparr>)"
    unfolding P by (intro allI impI conjI) (rule exited_other[OF _ _ assms(3-5)]; assumption)+
  show "\<forall>V a (t :: 'z pst_scheme) e'. waiting pa t \<longrightarrow> procs t = procs ?s' \<longrightarrow> vm_tables V \<longrightarrow>
        a = 0 \<or> copyout_ok V (pagetable (procs t pa)) a \<longrightarrow>
        ptrapframe (procs s i) = 0 \<or> page_ok t (ptrapframe (procs s i)) \<longrightarrow>
        (\<forall>j < NPROC. j \<noteq> i \<longrightarrow> parent (procs t j) = Some pa \<longrightarrow> pstate (procs t j) \<noteq> ZOMBIE) \<longrightarrow>
        (\<exists>M F. kwait V a t e' = Ret (pid (procs s i)) ((touch t)\<lparr>mem := M, freelist := F,
           procs := (procs ?s')(i := freed (procs ?s' i))\<rparr>) e')"
    unfolding P by (intro allI impI, rule exited_reaped[OF i assms(4,5)]) assumption+
qed

text \<open>Process 5, with the child 7, exits; its parent 2 and init, process 1, wait.\<close>

definition exit_example :: pst where
  "exit_example = (set_mycpu (\<lambda>c. c\<lparr>cproc := Some 5\<rparr>) zero_pst)\<lparr>initproc := Some 1, procs := (\<lambda>_. zero_proc)
     (1 := zero_proc\<lparr>pstate := SLEEPING, pchan := Some (C_proc 1), pid := 1\<rparr>,
      2 := zero_proc\<lparr>pstate := SLEEPING, pchan := Some (C_proc 2), pid := 2\<rparr>,
      5 := zero_proc\<lparr>pstate := RUNNING, pid := 9, parent := Some 2\<rparr>,
      7 := zero_proc\<lparr>pstate := RUNNABLE, pid := 11, parent := Some 5\<rparr>)\<rparr>"

theorem exit_reaches_parent_witness:
  "\<exists>s'. (exit_zombie 5 3 exit_example [] :: (pst, unit) outcome) = Off s' \<and> xstate (procs s' 5) = 3 \<and> parent (procs s' 7) = Some 1 \<and>
     pstate (procs s' 1) = RUNNABLE \<and> pstate (procs s' 2) = RUNNABLE"
proof -
  have r: "running 5 exit_example" "lock_free L_wait exit_example"
    by (simp_all add: running_def exit_example_def plocks_free_def)
  have f: "initproc exit_example = Some 1" "parent (procs exit_example 5) = Some 2" "parent (procs exit_example 7) = Some 5"
    "pstate (procs exit_example 1) = SLEEPING" "pchan (procs exit_example 1) = Some (C_proc 1)"
    "pstate (procs exit_example 2) = SLEEPING" "pchan (procs exit_example 2) = Some (C_proc 2)"
    by (simp_all add: exit_example_def)
  obtain s' where o: "(exit_zombie 5 3 exit_example [] :: (pst, unit) outcome) = Off s'" "xstate (procs s' 5) = 3"
    and j: "\<forall>j < NPROC. j \<noteq> 5 \<longrightarrow>
        parent (procs s' j) = (if parent (procs exit_example j) = Some 5 then Some 1 else parent (procs exit_example j)) \<and>
        pstate (procs s' j) = (if pstate (procs exit_example j) = SLEEPING \<and> (pchan (procs exit_example j) = Some (C_proc 2) \<or>
            pchan (procs exit_example j) = Some (C_proc 1) \<and> (\<exists>c < NPROC. parent (procs exit_example c) = Some 5))
          then RUNNABLE else pstate (procs exit_example j))"
    using exit_reaches_parent[OF r f(1,2), of 3 id "[]"] by auto
  have c: "\<exists>c < NPROC. parent (procs exit_example c) = Some 5" using f(3) by (intro exI[of _ 7]) simp
  show ?thesis
    using o j[rule_format, of 7] j[rule_format, of 1] j[rule_format, of 2] f c by (intro exI[of _ s']) simp
qed

end
