(* ===== verification/Bitmap.thy ===== *)
theory Bitmap
  imports Crash Inode
begin

unbundle bit_operations_syntax

text \<open>
  The free blocks of the disk: \<open>balloc\<close> and \<open>bfree\<close> on the bitmap, through the buffer cache and the log.
\<close>

section \<open>Bits\<close>

text \<open>The bit of block number \<open>bi\<close> (of those one bitmap block stands for) in the block's bytes.\<close>

definition bm_bit :: "byte list \<Rightarrow> nat \<Rightarrow> bool" where
  "bm_bit d bi \<longleftrightarrow> d ! (bi div 8) AND bit_mask bi \<noteq> 0"

lemma bm_bit_iff: "bm_bit d bi \<longleftrightarrow> bit (d ! (bi div 8)) (bi mod 8)"
  by (simp add: bm_bit_def bit_mask_def bit_iff_and_push_bit_not_eq_0)

lemma bit_bit_mask: "j < 8 \<Longrightarrow> bit (bit_mask bi) j \<longleftrightarrow> j = bi mod 8"
  by (auto simp: bit_mask_def bit_simps)

lemma same_position: "(bi :: nat) div 8 = bj div 8 \<Longrightarrow> bi mod 8 = bj mod 8 \<Longrightarrow> bi = bj"
  by (metis div_mult_mod_eq)

lemma bm_bit_update:
  assumes "bi < 8 * length d" "bj < 8 * length d"
  shows "bm_bit (d[bi div 8 := d ! (bi div 8) OR bit_mask bi]) bj \<longleftrightarrow> bj = bi \<or> bm_bit d bj"
    "bm_bit (d[bi div 8 := d ! (bi div 8) AND NOT (bit_mask bi)]) bj \<longleftrightarrow> bj \<noteq> bi \<and> bm_bit d bj"
proof -
  have l: "bi div 8 < length d" "bj mod 8 < 8" using assms by auto
  have n: "d[bi div 8 := x] ! (bj div 8) = (if bj div 8 = bi div 8 then x else d ! (bj div 8))" for x
    using l(1) by (simp add: nth_list_update)
  show "bm_bit (d[bi div 8 := d ! (bi div 8) OR bit_mask bi]) bj \<longleftrightarrow> bj = bi \<or> bm_bit d bj"
    unfolding bm_bit_iff n using same_position[of bj bi]
    by (cases "bj div 8 = bi div 8") (auto simp: bit_or_iff bit_bit_mask[OF l(2)])
  show "bm_bit (d[bi div 8 := d ! (bi div 8) AND NOT (bit_mask bi)]) bj \<longleftrightarrow> bj \<noteq> bi \<and> bm_bit d bj"
    unfolding bm_bit_iff n using same_position[of bj bi]
    by (cases "bj div 8 = bi div 8") (auto simp: bit_and_iff bit_not_iff bit_bit_mask[OF l(2)])
qed

section \<open>Used blocks\<close>

definition used_block :: "'z fsst_scheme \<Rightarrow> u32 \<Rightarrow> bool" where
  "used_block s a \<longleftrightarrow> bm_bit (blk s (BBLOCK a (sb s))) (unat (a mod 8192))"

definition on_fs :: "'z fsst_scheme \<Rightarrow> u32 \<Rightarrow> bool" where
  "on_fs s a \<longleftrightarrow> unat a < unat (sb_size (sb s))"

definition bitmap_blocks :: "'z fsst_scheme \<Rightarrow> u32 set" where
  "bitmap_blocks s = (\<lambda>a. BBLOCK a (sb s)) ` {a. on_fs s a}"

text \<open>
  What mkfs sets up: the bitmap lies outside the log, and the blocks of both are marked used.
\<close>

definition bitmap_ok :: "'z fsst_scheme \<Rightarrow> bool" where
  "bitmap_ok s \<longleftrightarrow> unat (sb_size (sb s)) < 2 ^ 31 \<and>
     (\<forall>m \<in> bitmap_blocks s. on_disk m \<and> \<not> in_log (lg s) m) \<and>
     (\<forall>a. on_fs s a \<and> (a \<in> bitmap_blocks s \<or> in_log (lg s) a) \<longrightarrow> used_block s a)"

lemma BBLOCK_of_nat:
  assumes "bi < 8192" "k * 8192 + bi < 2 ^ 31"
  shows "BBLOCK (of_nat (k * 8192 + bi)) S = BBLOCK (of_nat (k * 8192)) S"
    "unat ((of_nat (k * 8192 + bi) :: u32) mod 8192) = bi" "unat (of_nat (k * 8192 + bi) :: u32) = k * 8192 + bi"
proof -
  have u: "unat (of_nat (k * 8192 + bi) :: u32) = k * 8192 + bi" "unat (of_nat (k * 8192) :: u32) = k * 8192"
    using assms(2) by (simp_all add: unat_of_nat del: of_nat_add of_nat_mult)
  then show "unat (of_nat (k * 8192 + bi) :: u32) = k * 8192 + bi" by blast
  show "unat ((of_nat (k * 8192 + bi) :: u32) mod 8192) = bi"
    using assms(1) by (simp add: unat_mod u del: of_nat_add of_nat_mult)
  have "(of_nat (k * 8192 + bi) :: u32) div 8192 = of_nat (k * 8192) div 8192"
    using assms(1) by (intro word_unat_eq_iff[THEN iffD2]) (simp add: unat_div u del: of_nat_add of_nat_mult)
  then show "BBLOCK (of_nat (k * 8192 + bi)) S = BBLOCK (of_nat (k * 8192)) S" by (simp add: BBLOCK_def)
qed

lemma BBLOCK_inj:
  assumes "BBLOCK a S = BBLOCK b S" "a mod 8192 = b mod 8192"
  shows "a = b"
proof -
  have "a div 8192 = b div 8192" using assms(1) by (simp add: BBLOCK_def)
  then show ?thesis using assms(2) by (metis word_mod_div_equality)
qed

section \<open>An operation on blocks\<close>

text \<open>
  Process \<open>i\<close>, inside an operation of the log that has recorded \<open>n\<close> blocks in the buffers \<open>P\<close>, holds
  the buffers \<open>H\<close>.
\<close>

definition op_ready :: "nat \<Rightarrow> nat set \<Rightarrow> nat set \<Rightarrow> nat \<Rightarrow> 'z logst_scheme \<Rightarrow> bool" where
  "op_ready i H P n s \<longleftrightarrow> bc_ready i H P s \<and> log_ok (lg s) n \<and> pinned (lg s) {..<n} P s \<and>
     lock_free L_log s \<and> 1 \<le> l_outstanding (lg s)"

lemma op_readyD:
  assumes "op_ready i H P n s"
  shows "bc_ready i H P s" "log_ok (lg s) n" "pinned (lg s) {..<n} P s" "lock_free L_log s" "1 \<le> l_outstanding (lg s)"
  using assms by (auto simp: op_ready_def)

text \<open>A buffer that may be released.\<close>

definition clean :: "nat \<Rightarrow> nat set \<Rightarrow> 'z bufst_scheme \<Rightarrow> bool" where
  "clean b P s \<longleftrightarrow> b \<in> P \<or> bdata (bufs s b) = disk_block (img s) (blockno (bufs s b))"

lemma log_rest_fields:
  "log_rest s s' \<Longrightarrow> lock_free L s' = lock_free L s" "log_rest s s' \<Longrightarrow> logst.more s' = logst.more s"
  by (simp_all add: log_rest_def calm_def)

lemma read_block_wpc:
  fixes s :: "'z logst_scheme"
  assumes r: "op_ready i {} P n s" and e: "disk_envs i e" "e \<noteq> []" and n: "n < NBUF" and k: "on_disk k"
    and Q: "\<And>b s' e'. op_ready i {b} P n s' \<Longrightarrow> blockno (bufs s' b) = k \<Longrightarrow> bdata (bufs s' b) = blk s k \<Longrightarrow>
      clean b P s' \<Longrightarrow> same_view s s' \<Longrightarrow> lg s' = lg s \<Longrightarrow> log_rest s s' \<Longrightarrow> disk_envs i e' \<Longrightarrow>
      length e \<le> Suc (length e') \<Longrightarrow> Q b s' e'"
  shows "wp (bread 1 k) Q s e"
proof (rule bread_wpc[OF op_readyD(1)[OF r] e(1) _ _ k])
  note d = op_readyD[OF r]
  show "card ({} \<union> P) < NBUF \<or> (\<exists>b \<in> P. blockno (bufs s b) = k)"
    using pinned_card[OF d(1,3)] n by simp
  fix b and s' :: "'z logst_scheme" and e' :: "('z logst_scheme \<Rightarrow> 'z logst_scheme) list"
  assume a: "bc_ready i (insert b {}) P s'" "b < NBUF" "blockno (bufs s' b) = k" "bdata (bufs s' b) = blk s k" "same_view s s'"
    "\<forall>c \<in> {} \<union> P. same_buf (bufs s c) (bufs s' c)" "img s' = img s" "bio_rest s s'" "disk_envs i e'" "length e \<le> Suc (length e')"
  note lr = bio_log_rest[OF a(8)] and g = bio_rest_lg[OF a(8)]
  have "op_ready i {b} P n s'"
    using a(1,6) d(2-5) log_rest_fields(1)[OF lr, of L_log] pinned_cong[of P s s'] by (simp add: op_ready_def g)
  moreover have "clean b P s'"
  proof (cases "b \<in> P")
    case False
    have "blockno (bufs s c) \<noteq> k" if "c \<in> P" for c
    proof
      assume "blockno (bufs s c) = k"
      then have "blockno (bufs s' c) = blockno (bufs s' b)" using a(3,6) that by (simp add: same_buf_def)
      then show False using held_inj[OF a(1), of c b] that False by blast
    qed
    then have "blk s k = disk_block (img s) k" by (intro blk_clean[OF d(1)]) simp
    then show ?thesis by (simp add: clean_def a(3,4,7))
  qed (simp add: clean_def)
  ultimately show "Q b s' e'" using a(3,4,5,9,10) g lr by (intro Q)
qed (use e(2) in simp_all)

lemma logged_write_wpc:
  fixes s :: "'z logst_scheme"
  assumes r: "op_ready i {b} P n s" and n: "n < LOGBLOCKS" and k: "\<not> in_log (lg s) (blockno (bufs s b))"
    and l: "length (f (bdata (bufs s b))) = BSIZE"
    and Q: "\<And>s' P' m. op_ready i {b} P' m s' \<Longrightarrow> clean b P' s' \<Longrightarrow> m \<le> Suc n \<Longrightarrow> l_start (lg s') = l_start (lg s) \<Longrightarrow>
      log_rest s s' \<Longrightarrow> \<forall>x. on_disk x \<longrightarrow> blk s' x = (if x = blockno (bufs s b) then f (bdata (bufs s b)) else blk s x) \<Longrightarrow>
      Q () s' e"
  shows "wp (upd_data b f) (\<lambda>_. wp (log_write b) Q) s e"
  unfolding wp_upd_data
proof -
  note d = op_readyD[OF r]
  let ?s1 = "s\<lparr>bufs := (bufs s)(b := (bufs s b)\<lparr>bdata := f (bdata (bufs s b))\<rparr>)\<rparr>"
  note m = bc_ready_modify[OF d(1) _ l refl, of b, simplified]
  show "wp (log_write b) Q ?s1 e"
  proof (rule log_write_wpc[where i = i and H = "{b}" and P = P and n = n])
    have "blockno (bufs ?s1 c) = blockno (bufs s c)" "lg ?s1 = lg s" for c by simp_all
    then show "pinned (lg ?s1) {..<n} P ?s1" using d(3) unfolding pinned_def by (simp only:)
    fix s' :: "'z logst_scheme" and P' m'
    assume a: "bc_ready i {b} P' s'" "log_ok (lg s') m'" "pinned (lg s') {..<m'} P' s'" "b \<in> P'"
      "m' = (if b \<in> P then n else Suc n)" "lg s' = (if b \<in> P then lg ?s1 else add_entry (blockno (bufs ?s1 b)) (lg ?s1))"
      "log_rest ?s1 s'" "same_view ?s1 s'"
    have lr: "log_rest s s'" using bio_log_rest[OF m(3)] a(7) by (rule log_rest_trans)
    have st: "l_start (lg s') = l_start (lg s)" "l_outstanding (lg s') = l_outstanding (lg s)"
      using a(6) by (simp_all add: add_entry_def split: if_splits)
    have op: "op_ready i {b} P' m' s'"
      using a(1-3) d(4,5) log_rest_fields(1)[OF lr, of L_log] st by (simp add: op_ready_def)
    have bl: "\<forall>x. on_disk x \<longrightarrow> blk s' x = (if x = blockno (bufs s b) then f (bdata (bufs s b)) else blk s x)"
      using a(8) m(2) by (simp add: same_view_def)
    show "Q () s' e" by (rule Q[OF op _ _ st(1) lr bl]) (use a(4,5) in \<open>auto simp: clean_def\<close>)
  qed (use d n k m(1) in simp_all)
qed

lemma release_wpc:
  fixes s :: "'z logst_scheme"
  assumes r: "op_ready i {b} P n s" and c: "clean b P s"
    and Q: "\<And>s'. op_ready i {} P n s' \<Longrightarrow> same_view s s' \<Longrightarrow> lg s' = lg s \<Longrightarrow> log_rest s s' \<Longrightarrow> Q () s' e"
  shows "wp (brelse b) Q s e"
proof (rule brelse_wpc[OF op_readyD(1)[OF r] _ c[unfolded clean_def]])
  note d = op_readyD[OF r]
  fix s' :: "'z logst_scheme"
  assume a: "bc_ready i ({b} - {b}) P s'" "\<forall>c. same_buf (bufs s c) (bufs s' c)" "same_view s s'" "bio_rest s s'"
  note lr = bio_log_rest[OF a(4)] and g = bio_rest_lg[OF a(4)]
  have "op_ready i {} P n s'"
    using a(1,2) d(2-5) log_rest_fields(1)[OF lr, of L_log] pinned_cong[of P s s'] by (simp add: op_ready_def g)
  then show "Q () s' e" using a(3) g lr by (intro Q)
qed simp

lemma blk_length:
  assumes "bc_wf (bufs s) (img s)"
  shows "length (blk s k) = BSIZE"
proof (cases "\<exists>b < NBUF. bvalid (bufs s b) \<noteq> 0 \<and> blockno (bufs s b) = k")
  case True
  then show ?thesis using blk_cached[OF assms] bc_wfD(2)[OF assms] by auto
next
  case False
  then have "blk s k = disk_block (img s) k" by (intro blk_uncached) blast
  then show ?thesis by simp
qed

section \<open>Taking a block\<close>

lemma same_sb: "logst.more s' = logst.more s \<Longrightarrow> sb s' = sb s"
  by (cases s, cases s') simp

lemma log_rest_sb: "log_rest s s' \<Longrightarrow> sb s' = sb s"
  by (rule same_sb) (rule log_rest_fields(2))

definition marked :: "byte list \<Rightarrow> nat \<Rightarrow> byte list" where
  "marked d bi = d[bi div 8 := d ! (bi div 8) OR bit_mask bi]"

definition took :: "'z fsst_scheme \<Rightarrow> 'z fsst_scheme \<Rightarrow> u32 \<Rightarrow> bool" where
  "took s s' a \<longleftrightarrow> (\<forall>x. on_disk x \<longrightarrow> blk s' x = (if x = a then replicate BSIZE 0
     else if x = BBLOCK a (sb s) then marked (blk s x) (unat (a mod 8192)) else blk s x))"

text \<open>A process in an operation of the log, with no buffer, after at most \<open>c\<close> turns of the disk.\<close>

definition op_done :: "nat \<Rightarrow> nat \<Rightarrow> nat \<Rightarrow> 'z logst_scheme \<Rightarrow> 'z logst_scheme env \<Rightarrow> 'z logst_scheme \<Rightarrow> 'z logst_scheme env \<Rightarrow> bool" where
  "op_done i n c s e s' e' \<longleftrightarrow> (\<exists>P m. op_ready i {} P m s' \<and> m \<le> n) \<and> l_start (lg s') = l_start (lg s) \<and>
     log_rest s s' \<and> disk_envs i e' \<and> length e \<le> c + length e'"

lemma in_log_cong: "l_start g' = l_start g \<Longrightarrow> in_log g' k = in_log g k"
  by (simp add: in_log_def)

lemma bzero_wpc:
  fixes s :: "'z logst_scheme"
  assumes r: "op_ready i {} P n s" and e: "disk_envs i e" "e \<noteq> []" and n: "n < LOGBLOCKS" "n < NBUF"
    and k: "on_disk k" "\<not> in_log (lg s) k"
  shows "wp (fs_bzero 1 k) (\<lambda>_ s' e'. op_done i (Suc n) 1 s e s' e' \<and>
    (\<forall>x. on_disk x \<longrightarrow> blk s' x = (if x = k then replicate BSIZE 0 else blk s x))) s e"
  unfolding fs_bzero_def wp_bnd
proof (rule read_block_wpc[OF r e n(2) k(1)])
  fix b and s1 :: "'z logst_scheme" and e1 :: "'z logst_scheme env"
  assume 1: "op_ready i {b} P n s1" "blockno (bufs s1 b) = k" "same_view s s1" "lg s1 = lg s" "log_rest s s1" "disk_envs i e1"
    "length e \<le> Suc (length e1)"
  show "wp (thn (upd_data b (\<lambda>d. replicate BSIZE 0)) (thn (log_write b) (brelse b))) (\<lambda>_ s' e'. op_done i (Suc n) 1 s e s' e' \<and>
      (\<forall>x. on_disk x \<longrightarrow> blk s' x = (if x = k then replicate BSIZE 0 else blk s x))) s1 e1"
    unfolding wp_thn
  proof (rule logged_write_wpc[OF 1(1) n(1)])
    fix s2 :: "'z logst_scheme" and P2 m
    assume 2: "op_ready i {b} P2 m s2" "clean b P2 s2" "m \<le> Suc n" "l_start (lg s2) = l_start (lg s1)" "log_rest s1 s2"
      "\<forall>x. on_disk x \<longrightarrow> blk s2 x = (if x = blockno (bufs s1 b) then replicate BSIZE 0 else blk s1 x)"
    show "wp (brelse b) (\<lambda>_ s' e'. op_done i (Suc n) 1 s e s' e' \<and>
      (\<forall>x. on_disk x \<longrightarrow> blk s' x = (if x = k then replicate BSIZE 0 else blk s x))) s2 e1"
    proof (rule release_wpc[OF 2(1,2)])
      fix s3 :: "'z logst_scheme"
      assume 3: "op_ready i {} P2 m s3" "same_view s2 s3" "lg s3 = lg s2" "log_rest s2 s3"
      have "log_rest s s3" using 1(5) 2(5) 3(4) log_rest_trans by blast
      then show "op_done i (Suc n) 1 s e s3 e1 \<and> (\<forall>x. on_disk x \<longrightarrow> blk s3 x = (if x = k then replicate BSIZE 0 else blk s x))"
        using 1 2 3 by (auto simp: op_done_def same_view_def)
    qed
  qed (use 1 k(2) in simp_all)
qed

lemma used_block_of_nat:
  assumes "bi < 8192" "k * 8192 + bi < 2 ^ 31"
  shows "used_block s (of_nat (k * 8192 + bi)) = bm_bit (blk s (BBLOCK (of_nat (k * 8192)) (sb s))) bi"
  unfolding used_block_def BBLOCK_of_nat(1,2)[OF assms] ..

lemma bitmap_okD:
  assumes "bitmap_ok s" "on_fs s a"
  shows "on_disk (BBLOCK a (sb s))" "\<not> in_log (lg s) (BBLOCK a (sb s))" "on_disk a"
    "\<not> used_block s a \<Longrightarrow> a \<notin> bitmap_blocks s" "\<not> used_block s a \<Longrightarrow> \<not> in_log (lg s) a"
    "BBLOCK a (sb s) \<in> bitmap_blocks s"
  using assms by (auto simp: bitmap_ok_def bitmap_blocks_def on_fs_def on_disk_def)

lemma find_free:
  assumes "k * 8192 < N" "N < 2 ^ 31" "N = unat (sb_size (sb s))" "d = blk s (BBLOCK (of_nat (k * 8192)) (sb s))"
  shows "case find_index (\<lambda>bi. d ! (bi div 8) AND bit_mask bi = 0) [0..<min 8192 (N - k * 8192)] of
      None \<Rightarrow> \<forall>bi < 8192. k * 8192 + bi < N \<longrightarrow> used_block s (of_nat (k * 8192 + bi))
    | Some bi \<Rightarrow> bi < 8192 \<and> k * 8192 + bi < N \<and> \<not> used_block s (of_nat (k * 8192 + bi)) \<and>
        (\<forall>bj < bi. used_block s (of_nat (k * 8192 + bj)))"
proof -
  have u: "used_block s (of_nat (k * 8192 + bi)) = bm_bit d bi" if "bi < 8192" "k * 8192 + bi < N" for bi
    using used_block_of_nat[of bi k s] that assms by simp
  have m: "bi < min 8192 (N - k * 8192) \<longleftrightarrow> bi < 8192 \<and> k * 8192 + bi < N" for bi using assms(1) by auto
  show ?thesis
  proof (cases "find_index (\<lambda>bi. \<not> bm_bit d bi) [0..<min 8192 (N - k * 8192)]")
    case None
    then have "\<forall>bi. bi < min 8192 (N - k * 8192) \<longrightarrow> bm_bit d bi" by (auto simp: find_index_None)
    then show ?thesis using None u unfolding m by (simp add: bm_bit_def)
  next
    case (Some bi)
    then have "bi < 8192 \<and> k * 8192 + bi < N" "\<not> bm_bit d bi" "\<forall>bj < bi. bm_bit d bj"
      unfolding find_index_upt m by auto
    then show ?thesis using Some u by (simp add: bm_bit_def)
  qed
qed

lemma balloc_take_wpc:
  fixes s s1 :: "'z fsst_scheme"
  assumes r: "op_ready i {b} P n s1" and b: "blockno (bufs s1 b) = BBLOCK a (sb s)" "bdata (bufs s1 b) = blk s (BBLOCK a (sb s))"
    and s1: "same_view s s1" "lg s1 = lg s" "log_rest s s1" and e: "disk_envs i e1" "e1 \<noteq> []" "length e \<le> Suc (length e1)"
    and n: "n + 2 \<le> LOGBLOCKS" and a: "bitmap_ok s" "on_fs s a" "\<not> used_block s a" and bi: "bi = unat (a mod 8192)"
    and Q: "\<And>s' e'. op_done i (n + 2) 2 s e s' e' \<Longrightarrow> took s s' a \<Longrightarrow> Q s' e'"
  shows "wp (upd_data b (\<lambda>d. d[bi div 8 := d ! (bi div 8) OR bit_mask bi])) (\<lambda>_. wp (thn (log_write b)
    (thn (brelse b) (fs_bzero 1 a))) (\<lambda>_. Q)) s1 e1"
  unfolding wp_thn
proof (rule logged_write_wpc[OF r])
  note D = bitmap_okD[OF a(1,2)]
  show "n < LOGBLOCKS" using n by simp
  show "\<not> in_log (lg s1) (blockno (bufs s1 b))" using D(2) b(1) s1(2) by simp
  have "length (blk s1 (BBLOCK a (sb s))) = BSIZE" using bc_readyD(5)[OF op_readyD(1)[OF r]] by (rule blk_length)
  then show "length ((bdata (bufs s1 b))[bi div 8 := bdata (bufs s1 b) ! (bi div 8) OR bit_mask bi]) = BSIZE"
    using s1(1) D(1) b(2) by (simp add: same_view_def)
  fix s2 :: "'z fsst_scheme" and P2 m
  assume 2: "op_ready i {b} P2 m s2" "clean b P2 s2" "m \<le> Suc n" "l_start (lg s2) = l_start (lg s1)" "log_rest s1 s2"
    "\<forall>x. on_disk x \<longrightarrow> blk s2 x = (if x = blockno (bufs s1 b) then (bdata (bufs s1 b))[bi div 8 := bdata (bufs s1 b) ! (bi div 8) OR bit_mask bi]
        else blk s1 x)"
  show "wp (brelse b) (\<lambda>_. wp (fs_bzero 1 a) (\<lambda>_. Q)) s2 e1"
  proof (rule release_wpc[OF 2(1,2)])
    fix s3 :: "'z fsst_scheme"
    assume 3: "op_ready i {} P2 m s3" "same_view s2 s3" "lg s3 = lg s2" "log_rest s2 s3"
    have st: "l_start (lg s3) = l_start (lg s)" using 2(4) 3(3) s1(2) by simp
    have lr: "log_rest s s3" using s1(3) 2(5) 3(4) log_rest_trans by blast
    have m: "m < LOGBLOCKS" "m < NBUF" using 2(3) n by simp_all
    have v: "blk s3 x = (if x = BBLOCK a (sb s) then marked (blk s x) bi else blk s x)" if "on_disk x" for x
      using that 3(2) 2(6) b s1(1) by (simp add: same_view_def marked_def)
    show "wp (fs_bzero 1 a) (\<lambda>_. Q) s3 e1"
    proof (rule wp_mono[OF bzero_wpc[OF 3(1) e(1,2) m D(3)]])
      show "\<not> in_log (lg s3) a" using D(5)[OF a(3)] in_log_cong[OF st] by simp
      fix x s4 e4
      assume 4: "op_done i (Suc m) 1 s3 e1 s4 e4 \<and> (\<forall>x. on_disk x \<longrightarrow> blk s4 x = (if x = a then replicate BSIZE 0 else blk s3 x))"
      obtain P' m' where o: "op_ready i {} P' m' s4" "m' \<le> Suc m" "l_start (lg s4) = l_start (lg s3)" "log_rest s3 s4"
        "disk_envs i e4" "length e1 \<le> 1 + length e4" using 4 unfolding op_done_def by blast
      have "op_done i (n + 2) 2 s e s4 e4" unfolding op_done_def
      proof (intro conjI exI)
        show "op_ready i {} P' m' s4" "m' \<le> n + 2" using o(1,2) 2(3) by simp_all
        show "l_start (lg s4) = l_start (lg s)" "log_rest s s4" using o(3) st log_rest_trans[OF lr o(4)] by simp_all
        show "disk_envs i e4" "length e \<le> 2 + length e4" using o(5,6) e(3) by simp_all
      qed
      moreover have "took s s4 a" unfolding took_def
      proof (intro allI impI)
        fix x assume x: "on_disk x"
        show "blk s4 x = (if x = a then replicate BSIZE 0 else if x = BBLOCK a (sb s) then marked (blk s x) (unat (a mod 8192)) else blk s x)"
          using 4 v[OF x] x unfolding bi by metis
      qed
      ultimately show "Q s4 e4" by (rule Q)
    qed
  qed
qed

lemma find_free_block:
  assumes "bitmap_ok s" "k * 8192 < unat (sb_size (sb s))"
  shows "case find_index (\<lambda>bi. blk s (BBLOCK (of_nat (k * 8192)) (sb s)) ! (bi div 8) AND bit_mask bi = 0)
        [0..<min 8192 (unat (sb_size (sb s)) - k * 8192)] of
      None \<Rightarrow> \<forall>j. k * 8192 \<le> j \<longrightarrow> j < (k + 1) * 8192 \<longrightarrow> j < unat (sb_size (sb s)) \<longrightarrow> used_block s (of_nat j)
    | Some bi \<Rightarrow> bi < 8192 \<and> unat (of_nat (k * 8192 + bi) :: u32) = k * 8192 + bi \<and> on_fs s (of_nat (k * 8192 + bi)) \<and>
        BBLOCK (of_nat (k * 8192 + bi)) (sb s) = BBLOCK (of_nat (k * 8192)) (sb s) \<and>
        unat ((of_nat (k * 8192 + bi) :: u32) mod 8192) = bi \<and> \<not> used_block s (of_nat (k * 8192 + bi)) \<and>
        (\<forall>j. k * 8192 \<le> j \<longrightarrow> j < k * 8192 + bi \<longrightarrow> used_block s (of_nat j))"
proof -
  have N: "unat (sb_size (sb s)) < 2 ^ 31" using assms(1) by (simp add: bitmap_ok_def)
  note ff = find_free[OF assms(2) N refl refl]
  show ?thesis
  proof (cases "find_index (\<lambda>bi. blk s (BBLOCK (of_nat (k * 8192)) (sb s)) ! (bi div 8) AND bit_mask bi = 0)
        [0..<min 8192 (unat (sb_size (sb s)) - k * 8192)]")
    case None
    have "used_block s (of_nat j)" if j: "k * 8192 \<le> j" "j < (k + 1) * 8192" "j < unat (sb_size (sb s))" for j
      using ff[unfolded None option.case, rule_format, of "j - k * 8192"] le_add_diff_inverse[OF j(1)] j
      by (simp del: of_nat_add of_nat_mult)
    then show ?thesis unfolding None option.case by blast
  next
    case (Some bi)
    note f = ff[unfolded Some option.case]
    have lt: "bi < 8192" "k * 8192 + bi < 2 ^ 31" using f N by linarith+
    have "used_block s (of_nat j)" if j: "k * 8192 \<le> j" "j < k * 8192 + bi" for j
      using f le_add_diff_inverse[OF j(1)] j by (metis add_less_cancel_left)
    moreover have "on_fs s (of_nat (k * 8192 + bi))" using f BBLOCK_of_nat(3)[OF lt] unfolding on_fs_def by simp
    ultimately show ?thesis unfolding Some option.case using f BBLOCK_of_nat[OF lt] by blast
  qed
qed

definition block_done :: "nat \<Rightarrow> nat \<Rightarrow> nat \<Rightarrow> 'z fsst_scheme \<Rightarrow> 'z fsst_scheme env \<Rightarrow> u32 option \<Rightarrow> 'z fsst_scheme \<Rightarrow> 'z fsst_scheme env \<Rightarrow> bool" where
  "block_done i n k s e r s' e' \<longleftrightarrow> (case r of
     None \<Rightarrow> op_done i n 1 s e s' e' \<and> same_view s s' \<and>
       (\<forall>j. k * 8192 \<le> j \<longrightarrow> j < (k + 1) * 8192 \<longrightarrow> j < unat (sb_size (sb s)) \<longrightarrow> used_block s (of_nat j))
   | Some a \<Rightarrow> op_done i (n + 2) 2 s e s' e' \<and> took s s' a \<and> on_fs s a \<and> \<not> used_block s a \<and>
       (\<forall>j. k * 8192 \<le> j \<longrightarrow> j < unat a \<longrightarrow> used_block s (of_nat j)))"

lemma balloc_block_wpc:
  fixes s :: "'z fsst_scheme"
  assumes r: "op_ready i {} P n s" and ok: "bitmap_ok s" and e: "disk_envs i e" "2 \<le> length e" and n: "n + 2 \<le> LOGBLOCKS"
    and k: "k * 8192 < unat (sb_size (sb s))"
  shows "wp (balloc_block 1 (sb s) (k * 8192)) (block_done i n k s e) s e"
  unfolding balloc_block_def wp_bnd
proof (rule read_block_wpc[OF r e(1)])
  let ?M = "BBLOCK (of_nat (k * 8192)) (sb s)"
  note ff = find_free_block[OF ok k]
  have "k * 8192 < 2 ^ 31" using k ok by (simp add: bitmap_ok_def)
  then have "on_fs s (of_nat (k * 8192))" using k by (simp add: on_fs_def unat_of_nat del: of_nat_mult)
  then show "on_disk ?M" by (rule bitmap_okD(1)[OF ok])
  show "e \<noteq> []" "n < NBUF" using e(2) n by auto
  fix b and s1 :: "'z fsst_scheme" and e1 :: "'z fsst_scheme env"
  assume 1: "op_ready i {b} P n s1" "blockno (bufs s1 b) = ?M" "bdata (bufs s1 b) = blk s ?M" "clean b P s1" "same_view s s1"
    "lg s1 = lg s" "log_rest s s1" "disk_envs i e1" "length e \<le> Suc (length e1)"
  show "wp (rd (\<lambda>s. bdata (bufs s b))) (\<lambda>d. wp (case find_index (\<lambda>bi. d ! (bi div 8) AND bit_mask bi = 0) [0..<min 8192 (unat (sb_size (sb s)) - k * 8192)] of
       None \<Rightarrow> thn (brelse b) (ret None)
     | Some bi \<Rightarrow> thn (upd_data b (\<lambda>d. d[bi div 8 := d ! (bi div 8) OR bit_mask bi])) (thn (log_write b) (thn (brelse b)
         (thn (fs_bzero 1 (of_nat (k * 8192 + bi))) (ret (Some (of_nat (k * 8192 + bi)))))))) (block_done i n k s e)) s1 e1"
    unfolding wp_rd 1(3)
  proof (cases "find_index (\<lambda>bi. blk s ?M ! (bi div 8) AND bit_mask bi = 0) [0..<min 8192 (unat (sb_size (sb s)) - k * 8192)]")
    case None
    show "wp (case find_index (\<lambda>bi. blk s ?M ! (bi div 8) AND bit_mask bi = 0) [0..<min 8192 (unat (sb_size (sb s)) - k * 8192)] of
       None \<Rightarrow> thn (brelse b) (ret None)
     | Some bi \<Rightarrow> thn (upd_data b (\<lambda>d. d[bi div 8 := d ! (bi div 8) OR bit_mask bi])) (thn (log_write b) (thn (brelse b)
         (thn (fs_bzero 1 (of_nat (k * 8192 + bi))) (ret (Some (of_nat (k * 8192 + bi)))))))) (block_done i n k s e) s1 e1"
      unfolding None option.case wp_thn wp_ret
    proof (rule release_wpc[OF 1(1,4)])
      fix s' :: "'z fsst_scheme"
      assume "op_ready i {} P n s'" "same_view s1 s'" "lg s' = lg s1" "log_rest s1 s'"
      then have "op_done i n 1 s e s' e1 \<and> same_view s s'"
        using 1 log_rest_trans[OF 1(7)] same_view_trans[OF 1(5)] by (auto simp: op_done_def)
      then show "block_done i n k s e None s' e1" using ff[unfolded None option.case] by (simp add: block_done_def)
    qed
  next
    case (Some bi)
    note f = ff[unfolded Some option.case]
    have e1: "e1 \<noteq> []" using 1(9) e(2) by auto
    let ?a = "of_nat (k * 8192 + bi)"
    have b: "blockno (bufs s1 b) = BBLOCK ?a (sb s)" "bdata (bufs s1 b) = blk s (BBLOCK ?a (sb s))" using 1(2,3) f by metis+
    show "wp (case find_index (\<lambda>bi. blk s ?M ! (bi div 8) AND bit_mask bi = 0) [0..<min 8192 (unat (sb_size (sb s)) - k * 8192)] of
       None \<Rightarrow> thn (brelse b) (ret None)
     | Some bi \<Rightarrow> thn (upd_data b (\<lambda>d. d[bi div 8 := d ! (bi div 8) OR bit_mask bi])) (thn (log_write b) (thn (brelse b)
         (thn (fs_bzero 1 (of_nat (k * 8192 + bi))) (ret (Some (of_nat (k * 8192 + bi)))))))) (block_done i n k s e) s1 e1"
      unfolding Some option.case wp_thn wp_ret
    proof (rule balloc_take_wpc[OF 1(1) b 1(5-8) e1 1(9) n ok, of bi, unfolded wp_thn])
      show "on_fs s ?a" "\<not> used_block s ?a" "bi = unat ((?a :: u32) mod 8192)" using f by metis+
      fix s' :: "'z fsst_scheme" and e'
      assume "op_done i (n + 2) 2 s e s' e'" "took s s' ?a"
      then show "block_done i n k s e (Some ?a) s' e'" unfolding block_done_def option.case using f by metis
    qed
  qed
qed

lemma op_done_trans:
  assumes "op_done i n c s e s1 e1" "op_done i m c' s1 e1 s2 e2"
  shows "op_done i m (c + c') s e s2 e2"
  using assms log_rest_trans unfolding op_done_def by fastforce

lemma op_done_weaken: "op_done i n c s e s' e' \<Longrightarrow> n \<le> m \<Longrightarrow> c \<le> d \<Longrightarrow> op_done i m d s e s' e'"
  unfolding op_done_def by fastforce

lemma same_view_used:
  assumes "bitmap_ok s" "same_view s s'" "sb s' = sb s" "on_fs s a"
  shows "used_block s' a = used_block s a"
  using bitmap_okD(1)[OF assms(1,4)] assms(2,3) by (simp add: used_block_def same_view_def)

lemma bitmap_ok_kept:
  assumes ok: "bitmap_ok s" and sb: "sb s' = sb s" and st: "l_start (lg s') = l_start (lg s)"
    and u: "\<And>a. on_fs s a \<Longrightarrow> used_block s a \<Longrightarrow> a \<in> bitmap_blocks s \<or> in_log (lg s) a \<Longrightarrow> used_block s' a"
  shows "bitmap_ok s'"
  using ok u unfolding bitmap_ok_def by (simp add: sb bitmap_blocks_def on_fs_def in_log_cong[OF st])

lemma took_used:
  assumes ok: "bitmap_ok s" and w: "bc_wf (bufs s) (img s)" and t: "took s s' a" and sb: "sb s' = sb s"
    and a: "on_fs s a" "\<not> used_block s a" and x: "on_fs s x"
  shows "used_block s' x \<longleftrightarrow> x = a \<or> used_block s x"
proof -
  let ?B = "\<lambda>x. BBLOCK x (sb s)" and ?b = "\<lambda>x :: u32. unat (x mod 8192)"
  have na: "?B x \<noteq> a" using bitmap_okD(6)[OF ok x] bitmap_okD(4)[OF ok a] by auto
  have b: "?b y < 8 * length (blk s (?B a))" for y
    by (simp add: blk_length[OF w] unat_mod)
  have s': "blk s' (?B x) = (if ?B x = ?B a then marked (blk s (?B a)) (?b a) else blk s (?B x))"
    using t bitmap_okD(1)[OF ok x] na by (simp add: took_def)
  show ?thesis
  proof (cases "?B x = ?B a")
    case True
    have "x = a \<longleftrightarrow> ?b x = ?b a" using BBLOCK_inj[OF True] by (metis word_unat_eq_iff)
    then show ?thesis using s' bm_bit_update(1)[OF b b, of a x] True by (simp add: used_block_def sb marked_def)
  next
    case False
    then show ?thesis using s' by (auto simp: used_block_def sb)
  qed
qed

section \<open>The whole bitmap\<close>

abbreviation bitmap_count :: "'z fsst_scheme \<Rightarrow> nat" where
  "bitmap_count s \<equiv> (unat (sb_size (sb s)) + 8192 - 1) div 8192"

definition search_done :: "nat \<Rightarrow> nat \<Rightarrow> nat \<Rightarrow> 'z fsst_scheme \<Rightarrow> 'z fsst_scheme env \<Rightarrow> u32 option \<Rightarrow> 'z fsst_scheme \<Rightarrow> 'z fsst_scheme env \<Rightarrow> bool" where
  "search_done i n k s e r s' e' \<longleftrightarrow> (case r of
     None \<Rightarrow> op_done i n (bitmap_count s - k) s e s' e' \<and> same_view s s' \<and>
       (\<forall>j. k * 8192 \<le> j \<longrightarrow> j < unat (sb_size (sb s)) \<longrightarrow> used_block s (of_nat j))
   | Some a \<Rightarrow> op_done i (n + 2) (bitmap_count s - k + 1) s e s' e' \<and> took s s' a \<and> on_fs s a \<and> \<not> used_block s a \<and>
       (\<forall>j. k * 8192 \<le> j \<longrightarrow> j < unat a \<longrightarrow> used_block s (of_nat j)))"

lemma block_skip:
  fixes s s1 :: "'z fsst_scheme"
  assumes ok: "bitmap_ok s" and 1: "block_done i n k s e None s1 e1" and k: "k < bitmap_count s" and m: "m \<le> n"
    and r: "search_done i m (Suc k) s1 e1 r s' e'"
  shows "search_done i n k s e r s' e'"
proof -
  have o: "op_done i n 1 s e s1 e1" and v: "same_view s s1"
    and u: "\<And>j. k * 8192 \<le> j \<Longrightarrow> j < Suc k * 8192 \<Longrightarrow> j < unat (sb_size (sb s)) \<Longrightarrow> used_block s (of_nat j)"
    using 1 by (simp_all add: block_done_def)
  have sb: "sb s1 = sb s" using o log_rest_sb unfolding op_done_def by blast
  have c: "bitmap_count s - k = 1 + (bitmap_count s1 - Suc k)" using k by (simp add: sb)
  have U: "used_block s1 a = used_block s a" if "on_fs s a" for a by (rule same_view_used[OF ok v sb that])
  have J: "used_block s (of_nat j)" if j: "k * 8192 \<le> j" "j < l" "l \<le> unat (sb_size (sb s))"
      "\<And>j. Suc k * 8192 \<le> j \<Longrightarrow> j < l \<Longrightarrow> used_block s1 (of_nat j)" for j l
  proof (cases "j < Suc k * 8192")
    case True
    then show ?thesis using u[of j] j(1-3) by linarith
  next
    case False
    have "on_fs s (of_nat j)"
      using j(2,3) ok by (simp add: on_fs_def bitmap_ok_def unat_of_nat)
    then show ?thesis using j(4)[of j] False j(2) U by (simp add: not_less)
  qed
  show ?thesis
  proof (cases r)
    case None
    have a: "op_done i m (bitmap_count s1 - Suc k) s1 e1 s' e'" "same_view s1 s'" using r by (simp_all add: None search_done_def)
    have "op_done i n (bitmap_count s - k) s e s' e'" "same_view s s'"
      using op_done_trans[OF o op_done_weaken[OF a(1) m order_refl]] same_view_trans[OF v a(2)] unfolding c by simp_all
    moreover have "used_block s (of_nat j)" if "k * 8192 \<le> j" "j < unat (sb_size (sb s))" for j
      using r None that by (intro J[of j "unat (sb_size (sb s))"]) (simp_all add: search_done_def sb)
    ultimately show ?thesis unfolding None search_done_def by simp
  next
    case (Some a)
    have a: "op_done i (m + 2) (bitmap_count s1 - Suc k + 1) s1 e1 s' e'" "took s1 s' a" "on_fs s1 a" "\<not> used_block s1 a"
      "\<And>j. Suc k * 8192 \<le> j \<Longrightarrow> j < unat a \<Longrightarrow> used_block s1 (of_nat j)"
      using r by (simp_all add: Some search_done_def)
    have fs: "on_fs s a" using a(3) by (simp add: on_fs_def sb)
    have "took s s' a" using a(2) v unfolding took_def sb same_view_def by simp
    moreover have "op_done i (n + 2) (bitmap_count s - k + 1) s e s' e'"
      using op_done_trans[OF o op_done_weaken[OF a(1) add_right_mono[OF m] order_refl]] unfolding c by simp
    moreover have "used_block s (of_nat j)" if "k * 8192 \<le> j" "j < unat a" for j
      using that fs a(5) by (intro J[of j "unat a"]) (simp_all add: on_fs_def)
    ultimately show ?thesis using fs U a(4) unfolding Some search_done_def by simp
  qed
qed

lemma search_wpc:
  fixes s :: "'z fsst_scheme"
  assumes "op_ready i {} P n s" "bitmap_ok s" "disk_envs i e" "n + 2 \<le> LOGBLOCKS" "bitmap_count s - k + 1 \<le> length e"
  shows "wp (for_until (map (\<lambda>k. k * 8192) [k..<bitmap_count s]) (\<lambda>b. in_int b (balloc_block 1 (sb s) b)))
    (search_done i n k s e) s e"
  using assms
proof (induction "bitmap_count s - k" arbitrary: k s e P n)
  case 0
  have "unat (sb_size (sb s)) \<le> k * 8192" using 0(1) by linarith
  then show ?case using 0 by (auto simp: wp_ret search_done_def op_done_def)
next
  case (Suc c)
  have k: "k < bitmap_count s" using Suc(2) by linarith
  then have kN: "k * 8192 < unat (sb_size (sb s))" by linarith
  have list: "[k..<bitmap_count s] = k # [Suc k..<bitmap_count s]" using k by (simp add: upt_conv_Cons)
  have int: "k * 8192 < 2 ^ 31" using kN Suc(4) by (simp add: bitmap_ok_def)
  show ?case unfolding list list.map for_until.simps wp_bnd in_int_def if_P[OF int]
  proof (rule wp_mono[OF balloc_block_wpc[OF Suc(3,4,5) _ Suc(6) kN]])
    show "2 \<le> length e" using Suc(2,7) by linarith
    fix r and s1 :: "'z fsst_scheme" and e1
    assume b: "block_done i n k s e r s1 e1"
    show "wp (case r of None \<Rightarrow> for_until (map (\<lambda>k. k * 8192) [Suc k..<bitmap_count s])
        (\<lambda>b. if b < 2 ^ 31 then balloc_block 1 (sb s) b else undefined_behaviour) | Some x \<Rightarrow> ret (Some x)) (search_done i n k s e) s1 e1"
    proof (cases r)
      case (Some a)
      have "op_done i (n + 2) 2 s e s1 e1" using b by (simp add: Some block_done_def)
      then have "op_done i (n + 2) (bitmap_count s - k + 1) s e s1 e1" by (rule op_done_weaken) (use k in linarith)+
      then show ?thesis using b by (simp add: Some wp_ret block_done_def search_done_def)
    next
      case None
      have o: "op_done i n 1 s e s1 e1" and v: "same_view s s1" using b by (simp_all add: None block_done_def)
      have sb: "sb s1 = sb s" using o log_rest_sb unfolding op_done_def by blast
      have st: "l_start (lg s1) = l_start (lg s)" and e1: "disk_envs i e1" "length e \<le> 1 + length e1" using o by (simp_all add: op_done_def)
      obtain P1 m where m: "op_ready i {} P1 m s1" "m \<le> n" using o unfolding op_done_def by blast
      have ok: "bitmap_ok s1" by (rule bitmap_ok_kept[OF Suc(4) sb st]) (simp add: same_view_used[OF Suc(4) v sb])
      have "wp (for_until (map (\<lambda>k. k * 8192) [Suc k..<bitmap_count s1]) (\<lambda>b. in_int b (balloc_block 1 (sb s1) b)))
          (search_done i m (Suc k) s1 e1) s1 e1"
        using Suc(2,6,7) m(2) e1(2) by (intro Suc(1)[OF _ m(1) ok e1(1)]) (unfold sb, linarith+)
      then show ?thesis unfolding None option.case sb in_int_def
        by (rule wp_mono) (rule block_skip[OF Suc(4) b[unfolded None] k m(2)])
    qed
  qed
qed

lemma balloc_effect:
  fixes s :: "'z fsst_scheme"
  assumes r: "op_ready i {} P n s" and ok: "bitmap_ok s" and e: "disk_envs i e" and con: "con_ok s"
    and n: "n + 2 \<le> LOGBLOCKS" and len: "bitmap_count s + 1 \<le> length e"
  shows "\<exists>a s' e'. balloc 1 s e = Ret a s' e' \<and> op_done i (n + 2) (bitmap_count s + 1) s e s' e' \<and>
    (if \<forall>x. on_fs s x \<longrightarrow> used_block s x then a = 0 \<and> same_view s s'
     else took s s' a \<and> on_fs s a \<and> \<not> used_block s a \<and> (\<forall>x. unat x < unat a \<longrightarrow> used_block s x))"
proof -
  have len0: "bitmap_count s - 0 + 1 \<le> length e" using len by simp
  obtain r s1 e1 where run: "for_until (map (\<lambda>k. k * 8192) [0..<bitmap_count s]) (\<lambda>b. in_int b (balloc_block 1 (sb s) b)) s e = Ret r s1 e1"
    and d: "search_done i n 0 s e r s1 e1"
    using search_wpc[OF r ok e n len0] unfolding wp_iff by blast
  show ?thesis
  proof (cases r)
    case (Some a)
    have u: "\<forall>x. unat x < unat a \<longrightarrow> used_block s x"
    proof (intro allI impI)
      fix x :: u32 assume "unat x < unat a"
      moreover have "\<forall>j. j < unat a \<longrightarrow> used_block s (of_nat j)" using d unfolding Some search_done_def option.case by simp
      ultimately have "used_block s (of_nat (unat x))" by blast
      then show "used_block s x" by simp
    qed
    have "op_done i (n + 2) (bitmap_count s + 1) s e s1 e1" "took s s1 a" "on_fs s a" "\<not> used_block s a"
      using d unfolding Some search_done_def option.case by simp_all
    moreover have "balloc 1 s e = Ret a s1 e1" using run by (simp add: balloc_def bnd_def Some)
    ultimately show ?thesis using u by (metis (full_types))
  next
    case None
    have o: "op_done i n (bitmap_count s) s e s1 e1" and v: "same_view s s1" using d by (simp_all add: None search_done_def)
    have "used_block s x" if "on_fs s x" for x
    proof -
      have "\<forall>j. j < unat (sb_size (sb s)) \<longrightarrow> used_block s (of_nat j)" using d unfolding None search_done_def option.case by simp
      then have "used_block s (of_nat (unat x))" using that unfolding on_fs_def by blast
      then show ?thesis by simp
    qed
    moreover
    obtain P1 m where m: "op_ready i {} P1 m s1" "m \<le> n" and lr: "log_rest s s1" "disk_envs i e1" using o unfolding op_done_def by blast
    let ?s' = "(touch s1)\<lparr>thr := thr s1 @ bytes_of (''balloc: out of blocks'' @ [CHR 0x0A])\<rparr>"
    have c1: "con_ok s1" "cpu_wf s1" using con_ok_rest[OF lr(1)] con runningD(5)[OF bc_readyD(2)[OF op_readyD(1)[OF m(1)]]] by simp_all
    have "printf (''balloc: out of blocks'' @ [CHR 0x0A]) [] s1 e1 = Ret 0 ?s' e1"
      using c1 by (intro printf_Ret format_plain) (simp_all add: con_ok_def)
    then have "balloc 1 s e = Ret 0 ?s' e1" using run by (simp add: balloc_def bnd_def thn_def None)
    moreover have "op_ready i {} P1 m ?s'"
      using op_readyD[OF m(1)] bc_ready_touch[OF op_readyD(1)[OF m(1)]] by (simp add: op_ready_def pinned_def)
    then have "op_done i (n + 2) (bitmap_count s + 1) s e ?s' e1"
      using o m(2) lr unfolding op_done_def by (auto simp: log_rest_def calm_def intro!: exI[of _ P1] exI[of _ m])
    moreover have "blk ?s' x = blk s1 x" for x by (simp add: blk_def split: option.split)
    then have "same_view s ?s'" using v by (simp only: same_view_def)
    ultimately show ?thesis by auto
  qed
qed

lemma bfree_effect:
  fixes s :: "'z fsst_scheme"
  assumes r: "op_ready i {} P n s" and ok: "bitmap_ok s" and e: "disk_envs i e" "e \<noteq> []"
    and n: "n < LOGBLOCKS" and a: "on_fs s a"
  shows "if used_block s a then \<exists>s' e'. bfree 1 a s e = Ret () s' e' \<and> op_done i (Suc n) 1 s e s' e' \<and>
      (\<forall>x. on_fs s x \<longrightarrow> used_block s' x \<longleftrightarrow> x \<noteq> a \<and> used_block s x) \<and>
      (\<forall>x. on_disk x \<longrightarrow> x \<noteq> BBLOCK a (sb s) \<longrightarrow> blk s' x = blk s x)
    else \<exists>s'. bfree 1 a s e = Panic ''freeing free block'' s'"
proof -
  let ?M = "BBLOCK a (sb s)" and ?bi = "unat (a mod 8192)"
  note D = bitmap_okD[OF ok a]
  have w: "bc_wf (bufs s) (img s)" using bc_readyD(5)[OF op_readyD(1)[OF r]] .
  have nb: "n < NBUF" using n by simp
  let ?post = "\<lambda>_ s' e'. op_done i (Suc n) 1 s e s' e' \<and> (\<forall>x. on_disk x \<longrightarrow> blk s' x = (if x = ?M
      then (blk s x)[?bi div 8 := blk s x ! (?bi div 8) AND NOT (bit_mask ?bi)] else blk s x))"
  let ?rest = "\<lambda>b. thn (upd_data b (\<lambda>d. d[?bi div 8 := d ! (?bi div 8) AND NOT (bit_mask ?bi)])) (thn (log_write b) (brelse b))"
  have "wp (bread 1 ?M) (\<lambda>b s' e'. bdata (bufs s' b) = blk s ?M \<and> wp (?rest b) ?post s' e') s e"
  proof (rule read_block_wpc[OF r e nb D(1)])
    fix b and s1 :: "'z fsst_scheme" and e1 :: "'z fsst_scheme env"
    assume 1: "op_ready i {b} P n s1" "blockno (bufs s1 b) = ?M" "bdata (bufs s1 b) = blk s ?M" "same_view s s1"
      "lg s1 = lg s" "log_rest s s1" "disk_envs i e1" "length e \<le> Suc (length e1)"
    have "wp (?rest b) ?post s1 e1" unfolding wp_thn
    proof (rule logged_write_wpc[OF 1(1) n])
      show "\<not> in_log (lg s1) (blockno (bufs s1 b))" using D(2) 1(2,5) by simp
      show "length ((bdata (bufs s1 b))[?bi div 8 := bdata (bufs s1 b) ! (?bi div 8) AND NOT (bit_mask ?bi)]) = BSIZE"
        using blk_length[OF w] 1(3) by simp
      fix s2 :: "'z fsst_scheme" and P2 m
      assume 2: "op_ready i {b} P2 m s2" "clean b P2 s2" "m \<le> Suc n" "l_start (lg s2) = l_start (lg s1)" "log_rest s1 s2"
        "\<forall>x. on_disk x \<longrightarrow> blk s2 x = (if x = blockno (bufs s1 b) then (bdata (bufs s1 b))[?bi div 8 := bdata (bufs s1 b) ! (?bi div 8)
          AND NOT (bit_mask ?bi)] else blk s1 x)"
      show "wp (brelse b) ?post s2 e1"
      proof (rule release_wpc[OF 2(1,2)])
        fix s3 :: "'z fsst_scheme"
        assume 3: "op_ready i {} P2 m s3" "same_view s2 s3" "lg s3 = lg s2" "log_rest s2 s3"
        have "log_rest s s3" using 1(6) 2(5) 3(4) log_rest_trans by blast
        then have "op_done i (Suc n) 1 s e s3 e1" using 1 2 3 by (auto simp: op_done_def)
        moreover have "blk s3 x = (if x = ?M then (blk s x)[?bi div 8 := blk s x ! (?bi div 8) AND NOT (bit_mask ?bi)] else blk s x)"
          if "on_disk x" for x using that 1(2-4) 2(6) 3(2) by (simp add: same_view_def)
        ultimately show "?post () s3 e1" by simp
      qed
    qed
    then show "bdata (bufs s1 b) = blk s ?M \<and> wp (?rest b) ?post s1 e1" using 1(3) by blast
  qed
  then obtain b s1 e1 where rd: "bread 1 ?M s e = Ret b s1 e1" "bdata (bufs s1 b) = blk s ?M" "wp (?rest b) ?post s1 e1"
    unfolding wp_iff by blast
  show ?thesis
  proof (cases "used_block s a")
    case False
    then have "bfree 1 a s e = Panic ''freeing free block'' s1"
      using rd(1,2) by (simp add: bfree_def bnd_def Let_def used_block_def bm_bit_def)
    then show ?thesis using False by simp
  next
    case True
    obtain s' e' where s': "?rest b s1 e1 = Ret () s' e'" "?post () s' e'" using rd(3) unfolding wp_iff by auto
    have "bfree 1 a s e = Ret () s' e'"
      using rd(1,2) True s'(1) by (simp add: bfree_def bnd_def Let_def used_block_def bm_bit_def)
    moreover have "used_block s' x \<longleftrightarrow> x \<noteq> a \<and> used_block s x" if x: "on_fs s x" for x
    proof -
      have sb: "sb s' = sb s" using s'(2) log_rest_sb unfolding op_done_def by blast
      have b: "unat (y mod 8192) < 8 * length (blk s ?M)" for y :: u32 by (simp add: blk_length[OF w] unat_mod)
      have B: "on_disk (BBLOCK x (sb s))" by (rule bitmap_okD(1)[OF ok x])
      show ?thesis
      proof (cases "BBLOCK x (sb s) = ?M")
        case True
        have "x = a \<longleftrightarrow> unat (x mod 8192) = ?bi" using BBLOCK_inj[OF True] by (metis word_unat_eq_iff)
        then show ?thesis using s'(2) B bm_bit_update(2)[OF b b, of a x] True by (simp add: used_block_def sb)
      next
        case False
        then show ?thesis using s'(2) B by (auto simp: used_block_def sb)
      qed
    qed
    ultimately show ?thesis using True s'(2) by auto
  qed
qed

lemma balloc_spec:
  fixes s :: "'z fsst_scheme"
  assumes r: "op_ready i {} P n s" and ok: "bitmap_ok s" and e: "disk_envs i e" and con: "con_ok s"
    and n: "n + 2 \<le> LOGBLOCKS" and len: "bitmap_count s + 1 \<le> length e"
  shows "\<exists>a s' e'. balloc 1 s e = Ret a s' e' \<and> bitmap_ok s' \<and> (\<exists>P' m. op_ready i {} P' m s' \<and> m \<le> n + 2) \<and>
      (if \<forall>x. on_fs s x \<longrightarrow> used_block s x then a = 0 \<and> (\<forall>x. on_disk x \<longrightarrow> blk s' x = blk s x)
       else on_fs s a \<and> \<not> used_block s a \<and> (\<forall>x. unat x < unat a \<longrightarrow> used_block s x) \<and>
         (\<forall>x. on_fs s x \<longrightarrow> used_block s' x \<longleftrightarrow> x = a \<or> used_block s x) \<and> blk s' a = replicate BSIZE 0 \<and>
         (\<forall>x. on_disk x \<longrightarrow> x \<noteq> a \<longrightarrow> x \<noteq> BBLOCK a (sb s) \<longrightarrow> blk s' x = blk s x))"
proof -
  have w: "bc_wf (bufs s) (img s)" using bc_readyD(5)[OF op_readyD(1)[OF r]] .
  obtain a s' e' where b: "balloc 1 s e = Ret a s' e'" "op_done i (n + 2) (bitmap_count s + 1) s e s' e'"
    "if \<forall>x. on_fs s x \<longrightarrow> used_block s x then a = 0 \<and> same_view s s'
     else took s s' a \<and> on_fs s a \<and> \<not> used_block s a \<and> (\<forall>x. unat x < unat a \<longrightarrow> used_block s x)"
    using balloc_effect[OF assms] by (elim exE conjE)
  have o: "log_rest s s'" and st: "l_start (lg s') = l_start (lg s)" and P: "\<exists>P' m. op_ready i {} P' m s' \<and> m \<le> n + 2"
    using b(2) by (simp_all only: op_done_def)
  have sb: "sb s' = sb s" using o by (rule log_rest_sb)
  show ?thesis
  proof (cases "\<forall>x. on_fs s x \<longrightarrow> used_block s x")
    case True
    have v: "a = 0" "same_view s s'" using b(3)[unfolded if_P[OF True]] by simp_all
    have "bitmap_ok s'" by (rule bitmap_ok_kept[OF ok sb st]) (simp add: same_view_used[OF ok v(2) sb])
    moreover have "\<forall>x. on_disk x \<longrightarrow> blk s' x = blk s x" using v(2) by (simp add: same_view_def)
    ultimately show ?thesis unfolding if_P[OF True] using b(1) P v(1) by (intro exI[of _ a] exI[of _ s'] exI[of _ e'] conjI)
  next
    case False
    have a: "took s s' a" "on_fs s a" "\<not> used_block s a" "\<forall>x. unat x < unat a \<longrightarrow> used_block s x"
      using b(3)[unfolded if_not_P[OF False]] by simp_all
    have u: "used_block s' x \<longleftrightarrow> x = a \<or> used_block s x" if "on_fs s x" for x
      by (rule took_used[OF ok w a(1) sb a(2,3) that])
    have ok': "bitmap_ok s'" by (rule bitmap_ok_kept[OF ok sb st]) (simp add: u)
    have z: "blk s' a = replicate BSIZE 0" using a(1) bitmap_okD(3)[OF ok a(2)] by (simp add: took_def)
    have o: "\<forall>x. on_disk x \<longrightarrow> x \<noteq> a \<longrightarrow> x \<noteq> BBLOCK a (sb s) \<longrightarrow> blk s' x = blk s x" using a(1) by (simp add: took_def)
    have u': "\<forall>x. on_fs s x \<longrightarrow> used_block s' x \<longleftrightarrow> x = a \<or> used_block s x" using u by blast
    show ?thesis unfolding if_not_P[OF False]
      using b(1) ok' P a(2-4) u' z o by (intro exI[of _ a] exI[of _ s'] exI[of _ e'] conjI)
  qed
qed

lemma bfree_spec:
  fixes s :: "'z fsst_scheme"
  assumes "op_ready i {} P n s" "bitmap_ok s" "disk_envs i e" "n + 2 \<le> LOGBLOCKS" "bitmap_count s + 1 \<le> length e" "on_fs s b"
  shows "if used_block s b then \<exists>s' e'. bfree 1 b s e = Ret () s' e' \<and>
        (\<forall>x. on_fs s x \<longrightarrow> used_block s' x \<longleftrightarrow> x \<noteq> b \<and> used_block s x) \<and>
        (\<forall>x. on_disk x \<longrightarrow> x \<noteq> BBLOCK b (sb s) \<longrightarrow> blk s' x = blk s x)
      else \<exists>s'. bfree 1 b s e = Panic ''freeing free block'' s'"
proof -
  have e: "e \<noteq> []" and n: "n < LOGBLOCKS" using assms(4,5) by auto
  note f = bfree_effect[OF assms(1-3) e n assms(6)]
  show ?thesis
  proof (cases "used_block s b")
    case True
    obtain s' e' where "bfree 1 b s e = Ret () s' e'" "\<forall>x. on_fs s x \<longrightarrow> used_block s' x \<longleftrightarrow> x \<noteq> b \<and> used_block s x"
      "\<forall>x. on_disk x \<longrightarrow> x \<noteq> BBLOCK b (sb s) \<longrightarrow> blk s' x = blk s x"
      using f[unfolded if_P[OF True]] by (elim exE conjE)
    then show ?thesis unfolding if_P[OF True] by (intro exI conjI)
  next
    case False
    show ?thesis unfolding if_not_P[OF False] using f[unfolded if_not_P[OF False]] .
  qed
qed

text \<open>
  C13: inside an operation with room for two more blocks in the log, \<open>balloc\<close> returns the first block
  that the bitmap shows free, marks it and no other block used, leaves it filled with zeros and every
  other block as it was; it returns 0, changing no block, when the bitmap shows none free.  \<open>bfree\<close>
  marks exactly its block free, and panics on a block that is free already.
\<close>

theorem blocks_given_once:
  fixes s :: "'z fsst_scheme"
  assumes "op_ready i {} P n s" "bitmap_ok s" "disk_envs i e" "con_ok s" "n + 2 \<le> LOGBLOCKS" "bitmap_count s + 1 \<le> length e"
  shows "(\<exists>a s' e'. balloc 1 s e = Ret a s' e' \<and> bitmap_ok s' \<and> (\<exists>P' m. op_ready i {} P' m s' \<and> m \<le> n + 2) \<and>
      (if \<forall>x. on_fs s x \<longrightarrow> used_block s x then a = 0 \<and> (\<forall>x. on_disk x \<longrightarrow> blk s' x = blk s x)
       else on_fs s a \<and> \<not> used_block s a \<and> (\<forall>x. unat x < unat a \<longrightarrow> used_block s x) \<and>
         (\<forall>x. on_fs s x \<longrightarrow> used_block s' x \<longleftrightarrow> x = a \<or> used_block s x) \<and> blk s' a = replicate BSIZE 0 \<and>
         (\<forall>x. on_disk x \<longrightarrow> x \<noteq> a \<longrightarrow> x \<noteq> BBLOCK a (sb s) \<longrightarrow> blk s' x = blk s x))) \<and>
    (on_fs s b \<longrightarrow> (if used_block s b then \<exists>s' e'. bfree 1 b s e = Ret () s' e' \<and>
        (\<forall>x. on_fs s x \<longrightarrow> used_block s' x \<longleftrightarrow> x \<noteq> b \<and> used_block s x) \<and>
        (\<forall>x. on_disk x \<longrightarrow> x \<noteq> BBLOCK b (sb s) \<longrightarrow> blk s' x = blk s x)
      else \<exists>s'. bfree 1 b s e = Panic ''freeing free block'' s'))"
  by (rule conjI[OF balloc_spec[OF assms]], rule impI, rule bfree_spec[OF assms(1-3,5,6)])

text \<open>A disk with 2000 blocks, the first 48 of them in use.\<close>

definition bitmap_img :: "nat \<Rightarrow> byte" where
  "bitmap_img p = (if 46 * BSIZE \<le> p \<and> p < 46 * BSIZE + 6 then 255 else 0)"

definition bitmap_example :: filest where
  "bitmap_example = (file_machine (\<lambda>_. zero_proc) one_inode one_file)\<lparr>bufs := kept_bufs {}, img := bitmap_img\<rparr>"

lemma bitmap_example_ready: "bc_ready 2 {} {} bitmap_example"
proof (rule bc_readyI)
  have r: "bc_ready 2 {} {} (log_machine (kept_bufs {}) bitmap_img (log_of 1 0 hundred))" by (rule kept_bufs_ready) simp
  show "bc_wf (bufs bitmap_example) (img bitmap_example)" using bc_readyD(5)[OF r] by (simp add: bitmap_example_def)
qed (simp_all add: bitmap_example_def kept_bufs_def zero_buf_def vd_ready_def, simp_all add: file_machine_def zero_vdisk_def vd_rest_def running_def plocks_free_def base_defs zero_proc_def)

lemma bitmap_example_simps [simp]:
  "lg bitmap_example = log_of 1 0 (\<lambda>_. 0)" "sb_size (sb bitmap_example) = 2000" "sb_bmapstart (sb bitmap_example) = 46"
  by (simp_all add: bitmap_example_def file_machine_def log_of_def)

lemma disk_block_nth: "j < BSIZE \<Longrightarrow> disk_block m k ! j = m (unat (sector_of k) * 512 + j)"
  by (simp add: disk_block_def)

lemma bitmap_example_used:
  assumes "on_fs bitmap_example a"
  shows "used_block bitmap_example a \<longleftrightarrow> unat a < 48" "BBLOCK a (sb bitmap_example) = 46"
proof -
  have a: "unat a < 2000" using assms by (simp add: on_fs_def)
  then have "a div 8192 = 0" "unat (a mod 8192) = unat a" by (simp_all add: word_unat_eq_iff unat_div unat_mod)
  then show B: "BBLOCK a (sb bitmap_example) = 46" by (simp add: BBLOCK_def)
  have "blk bitmap_example 46 = disk_block bitmap_img 46"
    using blk_uncached[of bitmap_example 46] by (simp add: bitmap_example_def kept_bufs_def zero_buf_def)
  moreover have "disk_block bitmap_img 46 ! (unat a div 8) = (if unat a div 8 < 6 then 255 else 0)"
    using a disk_block_nth[of "unat a div 8" bitmap_img 46] by (simp add: bitmap_img_def sector_of_def)
  moreover have "bit (255 :: byte) (unat a mod 8)"
  proof -
    have "(255 :: byte) = - 1" by simp
    then show ?thesis by (simp only: bit_minus_1_iff) (simp add: possible_bit_word)
  qed
  ultimately show "used_block bitmap_example a \<longleftrightarrow> unat a < 48"
    unfolding used_block_def B bm_bit_iff using \<open>unat (a mod 8192) = unat a\<close> by auto
qed

lemma bitmap_example_log: "in_log (lg bitmap_example) x \<Longrightarrow> unat x < 48 \<and> x \<noteq> 46"
proof -
  assume "in_log (lg bitmap_example) x"
  then obtain j where j: "j \<le> LOGBLOCKS" "x = 2 + of_nat j" unfolding in_log_def by (auto simp: log_of_def)
  have "unat x = 2 + j" unfolding j(2) using log_offset[of 2 j] j(1) by simp
  then show "unat x < 48 \<and> x \<noteq> 46" using j(1) by auto
qed

lemma bitmap_example_ok: "bitmap_ok bitmap_example"
  unfolding bitmap_ok_def
proof (intro conjI ballI allI impI)
  have B: "m = 46" if "m \<in> bitmap_blocks bitmap_example" for m
    using that bitmap_example_used(2) by (auto simp: bitmap_blocks_def)
  show "unat (sb_size (sb bitmap_example)) < 2 ^ 31" by simp
  show "on_disk m" "\<not> in_log (lg bitmap_example) m" if "m \<in> bitmap_blocks bitmap_example" for m
    using B[OF that] bitmap_example_log[of m] by (auto simp: on_disk_def)
  show "used_block bitmap_example a" if "on_fs bitmap_example a \<and> (a \<in> bitmap_blocks bitmap_example \<or> in_log (lg bitmap_example) a)" for a
    using that B[of a] bitmap_example_log[of a] bitmap_example_used(1)[of a] by auto
qed

lemma bitmap_example_op: "op_ready 2 {} {} 0 bitmap_example" "con_ok bitmap_example"
proof -
  have "log_ok (lg bitmap_example) 0" using log_of_ok[of 0 "\<lambda>_. 0" 1] by simp
  then show "op_ready 2 {} {} 0 bitmap_example"
    using bitmap_example_ready by (simp add: op_ready_def pinned_def) (simp add: bitmap_example_def log_of_def)
  show "con_ok bitmap_example" by (simp add: con_ok_def bitmap_example_def file_machine_def base_defs)
qed

theorem blocks_given_once_witness:
  "\<exists>a s' e'. balloc 1 bitmap_example (replicate 2 (disk_step 2)) = Ret a s' e' \<and> unat a = 48"
proof -
  have d: "disk_envs 2 (replicate 2 (disk_step 2))" by (rule disk_steps)
  have f: "on_fs bitmap_example 48" "\<not> used_block bitmap_example 48"
    using bitmap_example_used(1)[of 48] by (simp_all add: on_fs_def)
  then have n: "\<not> (\<forall>x. on_fs bitmap_example x \<longrightarrow> used_block bitmap_example x)" by blast
  have l: "0 + 2 \<le> LOGBLOCKS" "bitmap_count bitmap_example + 1 \<le> length (replicate 2 (disk_step 2 :: filest \<Rightarrow> filest))"
    by simp_all
  obtain a s' e' where a: "balloc 1 bitmap_example (replicate 2 (disk_step 2)) = Ret a s' e'" "on_fs bitmap_example a"
    "\<not> used_block bitmap_example a" "\<forall>x. unat x < unat a \<longrightarrow> used_block bitmap_example x"
    using blocks_given_once[OF bitmap_example_op(1) bitmap_example_ok d bitmap_example_op(2) l, of 48, unfolded if_not_P[OF n]]
    by (elim conjE exE)
  have "\<not> unat (48 :: u32) < unat a" using a(4) f(2) by blast
  moreover have "\<not> unat a < 48" using bitmap_example_used(1)[OF a(2)] a(3) by blast
  ultimately have "unat a = 48" by simp
  then show ?thesis using a(1) by blast
qed

end
